(* ===== verification/Aeryk_Prelude.thy ===== *)
theory Aeryk_Prelude
  imports Main "HOL-Library.Word"
begin

text \<open>
  Shared vocabulary of the Aeryk kernel development: the machine integer types the C sources
  use, the page size of \<^verbatim>\<open>pmm.h\<close>, the theorem collections the component theories fill, and the
  generic facts on lists, words and finite searches that their proofs share.
\<close>

unbundle bit_operations_syntax

section \<open>Machine integers\<close>

type_synonym u8 = "8 word"
type_synonym u16 = "16 word"
type_synonym u32 = "32 word"
type_synonym u64 = "64 word"

text \<open>
  A physical or virtual address, or a kernel pointer. The null pointer is address 0, as in C.
\<close>

type_synonym addr = u64

abbreviation NULL :: addr where
  "NULL \<equiv> 0"

text \<open>\<^verbatim>\<open>PAGE_SIZE\<close> of \<^verbatim>\<open>pmm.h\<close>, as a C integer and as a number of bytes.\<close>

abbreviation PAGE_SIZE :: u64 where
  "PAGE_SIZE \<equiv> 4096"

abbreviation page_bytes :: nat where
  "page_bytes \<equiv> 4096"

section \<open>Theorem collections\<close>

named_theorems frame_simps \<open>fields an operation leaves unchanged\<close>
named_theorems spec_defs \<open>definitions of the model unfolded together\<close>

section \<open>Single bits of a word\<close>

text \<open>\<open>push_bit k 1\<close>, the C expression \<^verbatim>\<open>1 << k\<close>, simplifies to \<open>2 ^ k\<close>; the facts are in that form.\<close>

lemma word_and_bit_eq_0_iff: "(w AND 2 ^ k = 0) \<longleftrightarrow> \<not> bit w k" for w :: "'a::len word"
  by (rule and_exp_eq_0_iff_not_bit)

lemma bit_or_single: "bit (w OR 2 ^ k) n \<longleftrightarrow> bit w n \<or> (n = k \<and> k < LENGTH('a))"
  for w :: "'a::len word"
  by (auto simp: bit_simps)

lemma bit_and_not_single: "bit (w AND NOT (2 ^ k)) n \<longleftrightarrow> bit w n \<and> n \<noteq> k"
  for w :: "'a::len word"
  by (auto simp: bit_simps dest: bit_imp_le_length)

lemma unat_less_two_power: "unat (w :: 'a::len word) < 2 ^ LENGTH('a)"
  by (rule unsigned_less)

section \<open>Bounded linear search\<close>

text \<open>
  The loops \<^verbatim>\<open>for (i = lo; i < hi; i++) if (P(i)) return i;\<close> of the sources are
  \<open>find P [lo..<hi]\<close>: the first index that satisfies the test, if there is one.
\<close>

lemma find_upt_Some: "find P [lo..<hi] = Some i \<longleftrightarrow>
    lo \<le> i \<and> i < hi \<and> P i \<and> (\<forall>j. lo \<le> j \<and> j < i \<longrightarrow> \<not> P j)"
proof
  assume "find P [lo..<hi] = Some i"
  then obtain k where k: "k < hi - lo" "P (lo + k)" "i = lo + k" "\<forall>j<k. \<not> P (lo + j)"
    by (auto simp: find_Some_iff)
  show "lo \<le> i \<and> i < hi \<and> P i \<and> (\<forall>j. lo \<le> j \<and> j < i \<longrightarrow> \<not> P j)"
  proof (intro conjI allI impI)
    fix j assume "lo \<le> j \<and> j < i"
    then have "j - lo < k" "j = lo + (j - lo)" using k by auto
    then show "\<not> P j" using k(4) by metis
  qed (use k in auto)
next
  assume r: "lo \<le> i \<and> i < hi \<and> P i \<and> (\<forall>j. lo \<le> j \<and> j < i \<longrightarrow> \<not> P j)"
  then have "i - lo < length [lo..<hi] \<and> P ([lo..<hi] ! (i - lo)) \<and> i = [lo..<hi] ! (i - lo)
      \<and> (\<forall>j<i - lo. \<not> P ([lo..<hi] ! j))"
    by auto
  then show "find P [lo..<hi] = Some i" by (auto simp only: find_Some_iff)
qed

lemma find_upt_None: "find P [lo..<hi] = None \<longleftrightarrow> (\<forall>i. lo \<le> i \<and> i < hi \<longrightarrow> \<not> P i)"
  by (auto simp: find_None_iff)

section \<open>Loops that visit a family of disjoint sets\<close>

lemma fold_visits:
  assumes step: "\<And>i D m. i \<in> set xs \<Longrightarrow> P D m \<Longrightarrow> D \<inter> S i = {} \<Longrightarrow> P (D \<union> S i) (f i m)"
    and "P D m" "distinct xs" "\<And>i j. i \<noteq> j \<Longrightarrow> S i \<inter> S j = {}" "\<And>i. i \<in> set xs \<Longrightarrow> D \<inter> S i = {}"
  shows "P (D \<union> (\<Union>i\<in>set xs. S i)) (fold f xs m)"
  using assms
proof (induction xs arbitrary: D m)
  case (Cons x xs)
  have "P (D \<union> S x) (f x m)" using Cons.prems by simp
  then have "P (D \<union> S x \<union> (\<Union>i\<in>set xs. S i)) (fold f xs (f x m))"
  proof (rule Cons.IH [rotated])
    show "(D \<union> S x) \<inter> S i = {}" if "i \<in> set xs" for i
      using Cons.prems(3) Cons.prems(4) [of x i] Cons.prems(5) [of i] that by auto
  qed (use Cons.prems in auto)
  then show ?case by (simp add: Un_assoc)
qed simp

section \<open>Constants as bit patterns\<close>

lemma bit_0xFF_u8: "bit (0xFF::u8) k \<longleftrightarrow> k < 8"
proof -
  have "(0xFF::u8) = mask 8" by (simp add: mask_eq_exp_minus_1)
  then show ?thesis by (simp only: bit_mask_iff) simp
qed

end
