(* ===== verification/Pmm.thy ===== *)
theory Pmm
  imports Aeryk_Prelude
begin

text \<open>
  The physical memory manager, \<^verbatim>\<open>src/kernel/src/arch/x86_64/pmm.c\<close>: a bitmap with one bit per
  page frame, a rotating search index and a 16-bit reference count per frame. The operations
  work on any record that extends \<open>pmm\<close>, so the kernel state of the other theories is passed
  to them as it is.
\<close>

section \<open>State\<close>

text \<open>
  The file-scope variables of \<^verbatim>\<open>pmm.c\<close>. The two arrays are adjacent in memory: the reference
  counts start right after the last byte of the bitmap (\<^verbatim>\<open>refcounts = bitmap + bitmap_size\<close>), so a
  bitmap index past the end of \<open>bitmap\<close> falls on the reference counts; \<open>bitmap_byte\<close> and
  \<open>bitmap_put\<close> below keep that layout.
\<close>

record pmm =
  hhdm_offset :: u64
  bitmap :: "u8 list"
  highest_address :: u64
  bitmap_index :: nat
  refcounts :: "u16 list"

text \<open>Number of page frames the allocator manages: \<^verbatim>\<open>highest_address / PAGE_SIZE\<close>.\<close>

definition npages :: "'a pmm_scheme \<Rightarrow> nat" where
  "npages p = unat (highest_address p) div page_bytes"

section \<open>Bitmap\<close>

text \<open>Byte \<open>i\<close> counted from the start of the bitmap, over both adjacent arrays.\<close>

definition refcount_byte :: "'a pmm_scheme \<Rightarrow> nat \<Rightarrow> u8" where
  "refcount_byte p j = ucast (drop_bit (8 * (j mod 2)) (refcounts p ! (j div 2)))"

definition bitmap_byte :: "'a pmm_scheme \<Rightarrow> nat \<Rightarrow> u8" where
  "bitmap_byte p i = (if i < length (bitmap p) then bitmap p ! i
                      else refcount_byte p (i - length (bitmap p)))"

definition refcount_put_byte :: "nat \<Rightarrow> u8 \<Rightarrow> 'a pmm_scheme \<Rightarrow> 'a pmm_scheme" where
  "refcount_put_byte j b p = p\<lparr>refcounts := (refcounts p)[j div 2 :=
     (refcounts p ! (j div 2) AND NOT (push_bit (8 * (j mod 2)) 0xFF))
       OR push_bit (8 * (j mod 2)) (ucast b)]\<rparr>"

definition bitmap_put :: "nat \<Rightarrow> u8 \<Rightarrow> 'a pmm_scheme \<Rightarrow> 'a pmm_scheme" where
  "bitmap_put i b p = (if i < length (bitmap p) then p\<lparr>bitmap := (bitmap p)[i := b]\<rparr>
                       else refcount_put_byte (i - length (bitmap p)) b p)"

definition bitmap_set :: "nat \<Rightarrow> 'a pmm_scheme \<Rightarrow> 'a pmm_scheme" where
  "bitmap_set i p = bitmap_put (i div 8) (bitmap_byte p (i div 8) OR push_bit (i mod 8) 1) p"

definition bitmap_clear :: "nat \<Rightarrow> 'a pmm_scheme \<Rightarrow> 'a pmm_scheme" where
  "bitmap_clear i p = bitmap_put (i div 8) (bitmap_byte p (i div 8) AND NOT (push_bit (i mod 8) 1)) p"

definition bitmap_test :: "'a pmm_scheme \<Rightarrow> nat \<Rightarrow> bool" where
  "bitmap_test p i \<longleftrightarrow> bitmap_byte p (i div 8) AND push_bit (i mod 8) 1 \<noteq> 0"

section \<open>Allocation and reference counts\<close>

text \<open>\<^verbatim>\<open>(size_t)page / PAGE_SIZE\<close>, and back.\<close>

definition frame_no :: "addr \<Rightarrow> nat" where
  "frame_no a = unat a div page_bytes"

definition frame_addr :: "nat \<Rightarrow> addr" where
  "frame_addr i = of_nat (i * page_bytes)"

text \<open>What both search loops do with the first clear bit.\<close>

definition pmm_take :: "nat \<Rightarrow> 'a pmm_scheme \<Rightarrow> addr \<times> 'a pmm_scheme" where
  "pmm_take i p =
     (let p1 = bitmap_set i p;
          p2 = p1\<lparr>bitmap_index := i\<rparr>;
          p3 = p2\<lparr>refcounts := (refcounts p2)[i := 1]\<rparr>
      in (frame_addr i, p3))"

definition pmm_alloc_page :: "'a pmm_scheme \<Rightarrow> addr \<times> 'a pmm_scheme" where
  "pmm_alloc_page p =
     (case find (\<lambda>i. \<not> bitmap_test p i) [bitmap_index p..<npages p] of
        Some i \<Rightarrow> pmm_take i p
      | None \<Rightarrow>
          (case find (\<lambda>i. \<not> bitmap_test p i) [0..<bitmap_index p] of
             Some i \<Rightarrow> pmm_take i p
           | None \<Rightarrow> (NULL, p)))"

definition pmm_free_page :: "addr \<Rightarrow> 'a pmm_scheme \<Rightarrow> 'a pmm_scheme" where
  "pmm_free_page page p =
     (let i = frame_no page in
      if \<not> bitmap_test p i then p
      else
        let p1 = (if refcounts p ! i > 0
                  then p\<lparr>refcounts := (refcounts p)[i := refcounts p ! i - 1]\<rparr> else p)
        in if refcounts p1 ! i = 0
           then let p2 = bitmap_clear i p1
                in if i < bitmap_index p2 then p2\<lparr>bitmap_index := i\<rparr> else p2
           else p1)"

definition pmm_page_ref_inc :: "addr \<Rightarrow> 'a pmm_scheme \<Rightarrow> 'a pmm_scheme" where
  "pmm_page_ref_inc page p =
     (let i = frame_no page in p\<lparr>refcounts := (refcounts p)[i := refcounts p ! i + 1]\<rparr>)"

definition pmm_page_refcount :: "'a pmm_scheme \<Rightarrow> addr \<Rightarrow> u16" where
  "pmm_page_refcount p page = refcounts p ! frame_no page"

section \<open>Boot\<close>

text \<open>
  An entry of the memory map the boot loader passes in; \<open>me_usable\<close> is the test
  \<^verbatim>\<open>type == LIMINE_MEMMAP_USABLE\<close>.
\<close>

record memmap_entry =
  me_base :: u64
  me_length :: u64
  me_usable :: bool

text \<open>Why \<open>init_pmm\<close> gives no allocator: it halts when a boot response is missing, and it would
  write through a null bitmap pointer when no usable region is large enough.\<close>

datatype pmm_failure = Missing_boot_response | No_room_for_bitmap

definition find_highest :: "memmap_entry list \<Rightarrow> u64" where
  "find_highest mm = fold (\<lambda>e h. if me_usable e then
       (let top = me_base e + me_length e in if top > h then top else h) else h) mm 0"

definition bitmap_bytes :: "u64 \<Rightarrow> nat" where
  "bitmap_bytes highest = (let n = (unat highest div page_bytes) div 8
                           in if n mod 8 \<noteq> 0 then n + 1 else n)"

definition refcounts_bytes :: "u64 \<Rightarrow> nat" where
  "refcounts_bytes highest = (unat highest div page_bytes) * 2"

text \<open>\<^verbatim>\<open>for (j = 0; j < length; j += PAGE_SIZE) f((base + j) / PAGE_SIZE);\<close>\<close>

definition page_span :: "nat \<Rightarrow> nat \<Rightarrow> nat list" where
  "page_span base len = map (\<lambda>k. (base + k * page_bytes) div page_bytes)
                            [0..<(len + (page_bytes - 1)) div page_bytes]"

definition clear_usable :: "memmap_entry list \<Rightarrow> pmm \<Rightarrow> pmm" where
  "clear_usable mm = fold (\<lambda>e p. if me_usable e
       then fold bitmap_clear (page_span (unat (me_base e)) (unat (me_length e))) p else p) mm"

definition init_pmm :: "memmap_entry list option \<Rightarrow> u64 option \<Rightarrow> pmm_failure + pmm" where
  "init_pmm memmap hhdm =
     (case (memmap, hhdm) of
        (Some mm, Some off) \<Rightarrow>
          (let highest = find_highest mm;
               bsize = bitmap_bytes highest;
               rsize = refcounts_bytes highest
           in case find (\<lambda>e. me_usable e \<and> unat (me_length e) \<ge> bsize + rsize) mm of
                None \<Rightarrow> Inl No_room_for_bitmap
              | Some e \<Rightarrow>
                  (let p0 = \<lparr>hhdm_offset = off, bitmap = replicate bsize 0xFF, highest_address = highest,
                             bitmap_index = 0,
                             refcounts = replicate (unat highest div page_bytes) 0\<rparr>;
                       p1 = clear_usable mm p0;
                       p2 = fold bitmap_set (page_span (unat (me_base e)) (bsize + rsize)) p1;
                       p3 = bitmap_set 0 p2
                   in Inr (p3\<lparr>refcounts := (refcounts p3)[0 := 1]\<rparr>)))
      | _ \<Rightarrow> Inl Missing_boot_response)"

section \<open>Well-formed allocators\<close>

definition pmm_wf :: "'a pmm_scheme \<Rightarrow> bool" where
  "pmm_wf p \<longleftrightarrow> npages p \<le> 8 * length (bitmap p) \<and> length (refcounts p) = npages p
     \<and> bitmap_index p \<le> npages p
     \<and> (\<forall>i<npages p. \<not> bitmap_test p i \<longrightarrow> refcounts p ! i = 0)"

text \<open>The reservation of physical page 0, which no successful allocation may return.\<close>

definition page0_reserved :: "'a pmm_scheme \<Rightarrow> bool" where
  "page0_reserved p \<longleftrightarrow> 0 < npages p \<and> bitmap_test p 0"

text \<open>The abstract allocator: a frame is free (\<open>None\<close>) or held by some number of owners.\<close>

definition frame_state :: "'a pmm_scheme \<Rightarrow> nat \<Rightarrow> nat option" where
  "frame_state p i = (if i < npages p \<and> bitmap_test p i then Some (unat (refcounts p ! i)) else None)"

subsection \<open>Bits of the bitmap\<close>

lemma bitmap_test_bit: "bitmap_test p i \<longleftrightarrow> bit (bitmap_byte p (i div 8)) (i mod 8)"
  by (simp add: bitmap_test_def word_and_bit_eq_0_iff)

lemma bitmap_byte_put:
  "i < length (bitmap p) \<Longrightarrow> j < length (bitmap p) \<Longrightarrow>
   bitmap_byte (bitmap_put i b p) j = (if j = i then b else bitmap_byte p j)"
  by (simp add: bitmap_byte_def bitmap_put_def)

lemma bitmap_put_fields [frame_simps]:
  "highest_address (bitmap_put i b p) = highest_address p"
  "bitmap_index (bitmap_put i b p) = bitmap_index p"
  "hhdm_offset (bitmap_put i b p) = hhdm_offset p"
  "length (bitmap (bitmap_put i b p)) = length (bitmap p)"
  "length (refcounts (bitmap_put i b p)) = length (refcounts p)"
  "i < length (bitmap p) \<Longrightarrow> refcounts (bitmap_put i b p) = refcounts p"
  by (simp_all add: bitmap_put_def refcount_put_byte_def)

lemma bitmap_set_fields [frame_simps]:
  "highest_address (bitmap_set i p) = highest_address p"
  "bitmap_index (bitmap_set i p) = bitmap_index p"
  "hhdm_offset (bitmap_set i p) = hhdm_offset p"
  "length (bitmap (bitmap_set i p)) = length (bitmap p)"
  "length (refcounts (bitmap_set i p)) = length (refcounts p)"
  "i < 8 * length (bitmap p) \<Longrightarrow> refcounts (bitmap_set i p) = refcounts p"
  by (simp_all add: bitmap_set_def frame_simps)

lemma bitmap_clear_fields [frame_simps]:
  "highest_address (bitmap_clear i p) = highest_address p"
  "bitmap_index (bitmap_clear i p) = bitmap_index p"
  "hhdm_offset (bitmap_clear i p) = hhdm_offset p"
  "length (bitmap (bitmap_clear i p)) = length (bitmap p)"
  "length (refcounts (bitmap_clear i p)) = length (refcounts p)"
  "i < 8 * length (bitmap p) \<Longrightarrow> refcounts (bitmap_clear i p) = refcounts p"
  by (simp_all add: bitmap_clear_def frame_simps)

lemma npages_cong [frame_simps]:
  "npages (bitmap_set i p) = npages p" "npages (bitmap_clear i p) = npages p"
  "npages (p\<lparr>refcounts := rc\<rparr>) = npages p" "npages (p\<lparr>bitmap_index := k\<rparr>) = npages p"
  by (simp_all add: npages_def frame_simps)

lemma bit_index_eq: "(i::nat) div 8 = j div 8 \<and> i mod 8 = j mod 8 \<longleftrightarrow> i = j"
  by (metis mult_div_mod_eq)

lemma bitmap_test_set:
  assumes "i < 8 * length (bitmap p)" "j < 8 * length (bitmap p)"
  shows "bitmap_test (bitmap_set i p) j \<longleftrightarrow> j = i \<or> bitmap_test p j"
  using assms bit_index_eq [of j i]
  by (auto simp: bitmap_test_bit bitmap_set_def bitmap_byte_put bit_or_single)

lemma bitmap_test_clear:
  assumes "i < 8 * length (bitmap p)" "j < 8 * length (bitmap p)"
  shows "bitmap_test (bitmap_clear i p) j \<longleftrightarrow> j \<noteq> i \<and> bitmap_test p j"
  using assms bit_index_eq [of j i]
  by (auto simp: bitmap_test_bit bitmap_clear_def bitmap_byte_put bit_and_not_single)

lemma bitmap_test_upd [frame_simps]:
  "bitmap_test (p\<lparr>bitmap_index := k\<rparr>) j = bitmap_test p j"
  "j < 8 * length (bitmap p) \<Longrightarrow> bitmap_test (p\<lparr>refcounts := rc\<rparr>) j = bitmap_test p j"
  by (simp_all add: bitmap_test_bit bitmap_byte_def refcount_byte_def less_mult_imp_div_less)

subsection \<open>Frame numbers and addresses\<close>

lemma npages_bound: "npages p < 2 ^ 52"
proof -
  have "unat (highest_address p) < 2 ^ 64" using unat_less_two_power [of "highest_address p"] by simp
  then show ?thesis by (simp add: npages_def)
qed

lemma unat_frame_addr: "i < 2 ^ 52 \<Longrightarrow> unat (frame_addr i) = i * page_bytes"
  unfolding frame_addr_def by (subst unat_of_nat) simp

lemma frame_no_addr [simp]: "i < 2 ^ 52 \<Longrightarrow> frame_no (frame_addr i) = i"
  by (simp add: frame_no_def unat_frame_addr)

lemma frame_addr_0_iff: "i < 2 ^ 52 \<Longrightarrow> frame_addr i = 0 \<longleftrightarrow> i = 0"
  using unat_frame_addr [of i] by (auto simp: unat_eq_zero frame_addr_def)

lemma frame_addr_no: "unat a mod page_bytes = 0 \<Longrightarrow> frame_addr (frame_no a) = a"
  by (simp add: frame_addr_def frame_no_def mod_eq_0_iff_dvd)

section \<open>The operations on the abstract allocator\<close>

lemma in_bitmap: "pmm_wf p \<Longrightarrow> i < npages p \<Longrightarrow> i < 8 * length (bitmap p)"
  by (simp add: pmm_wf_def)

lemma frame_state_None: "i < npages p \<Longrightarrow> frame_state p i = None \<longleftrightarrow> \<not> bitmap_test p i"
  by (simp add: frame_state_def)

lemma pmm_take_spec:
  assumes wf: "pmm_wf p" and i: "i < npages p"
  shows "pmm_wf (snd (pmm_take i p))"
    and "frame_state (snd (pmm_take i p)) = (frame_state p)(i \<mapsto> 1)"
    and "fst (pmm_take i p) = frame_addr i"
proof -
  let ?q = "snd (pmm_take i p)"
  have ib: "i < 8 * length (bitmap p)" using in_bitmap [OF wf i] .
  have test: "bitmap_test ?q j \<longleftrightarrow> j = i \<or> bitmap_test p j" if "j < npages p" for j
    using in_bitmap [OF wf that] ib
    by (simp add: pmm_take_def Let_def frame_simps bitmap_test_set)
  have flds: "npages ?q = npages p" "refcounts ?q = (refcounts p)[i := 1]"
      "length (bitmap ?q) = length (bitmap p)" "bitmap_index ?q = i"
    using ib by (simp_all add: pmm_take_def Let_def frame_simps npages_def)
  show "pmm_wf ?q" using wf i test by (auto simp: pmm_wf_def flds nth_list_update)
  show "frame_state ?q = (frame_state p)(i \<mapsto> 1)"
    using wf i test by (auto simp: frame_state_def flds pmm_wf_def nth_list_update fun_eq_iff)
  show "fst (pmm_take i p) = frame_addr i" by (simp add: pmm_take_def Let_def)
qed

lemma pmm_alloc_page_cases:
  obtains (full) "pmm_alloc_page p = (NULL, p)"
      "\<And>i. i < max (npages p) (bitmap_index p) \<Longrightarrow> bitmap_test p i"
    | (taken) i where "pmm_alloc_page p = pmm_take i p" "i < max (npages p) (bitmap_index p)"
      "\<not> bitmap_test p i"
proof (cases "find (\<lambda>i. \<not> bitmap_test p i) [bitmap_index p..<npages p]")
  case (Some i)
  then have "pmm_alloc_page p = pmm_take i p" by (simp add: pmm_alloc_page_def)
  with Some show thesis using taken [of i] by (auto simp: find_upt_Some)
next
  case hi: None
  show thesis
  proof (cases "find (\<lambda>i. \<not> bitmap_test p i) [0..<bitmap_index p]")
    case (Some i)
    then have "pmm_alloc_page p = pmm_take i p" using hi by (simp add: pmm_alloc_page_def)
    with Some show thesis using taken [of i] by (auto simp: find_upt_Some)
  next
    case None
    have "bitmap_test p i" if "i < max (npages p) (bitmap_index p)" for i
      using hi None that by (cases "i < bitmap_index p") (auto simp: find_upt_None)
    then show thesis using full None hi by (simp add: pmm_alloc_page_def)
  qed
qed

lemma pmm_alloc_page_spec:
  assumes wf: "pmm_wf p"
  shows "if \<exists>i<npages p. frame_state p i = None
     then \<exists>i<npages p. frame_state p i = None \<and> fst (pmm_alloc_page p) = frame_addr i
            \<and> frame_state (snd (pmm_alloc_page p)) = (frame_state p)(i \<mapsto> 1)
     else pmm_alloc_page p = (NULL, p)"
proof -
  have ix: "max (npages p) (bitmap_index p) = npages p" using wf by (simp add: pmm_wf_def)
  show ?thesis
  proof (cases rule: pmm_alloc_page_cases [of p, unfolded ix, case_names full taken])
    case full
    then show ?thesis by (auto simp: frame_state_None)
  next
    case (taken i)
    then have "frame_state p i = None" by (simp add: frame_state_None)
    then show ?thesis using taken pmm_take_spec [OF wf] by auto
  qed
qed

lemma pmm_alloc_page_wf:
  assumes "pmm_wf p" shows "pmm_wf (snd (pmm_alloc_page p))"
proof (cases rule: pmm_alloc_page_cases [of p, case_names full taken])
  case full
  then show ?thesis using assms by simp
next
  case (taken i)
  then show ?thesis using pmm_take_spec(1) [OF assms] assms by (simp add: pmm_wf_def)
qed

text \<open>What dropping one owner does to a frame: the last owner (or a frame nobody counts) frees it.\<close>

definition drop_owner :: "nat option \<Rightarrow> nat option" where
  "drop_owner f = (case f of None \<Rightarrow> None | Some n \<Rightarrow> if n \<le> 1 then None else Some (n - 1))"

lemma u16_dec: "(w::u16) > 0 \<Longrightarrow> unat (w - 1) = unat w - 1"
  by (simp add: unat_minus_one word_gt_0)

lemma u16_dec_0: "(w::u16) > 0 \<Longrightarrow> w - 1 = 0 \<longleftrightarrow> unat w \<le> 1"
  by (metis diff_is_0_eq u16_dec unat_eq_zero)

text \<open>The state just before the bitmap bit is looked at again: one owner fewer.\<close>

definition ref_dec :: "nat \<Rightarrow> 'a pmm_scheme \<Rightarrow> 'a pmm_scheme" where
  "ref_dec i p = (if refcounts p ! i > 0
                  then p\<lparr>refcounts := (refcounts p)[i := refcounts p ! i - 1]\<rparr> else p)"

lemma ref_dec_simps [frame_simps]:
  "npages (ref_dec i p) = npages p" "bitmap (ref_dec i p) = bitmap p"
  "bitmap_index (ref_dec i p) = bitmap_index p"
  "length (refcounts (ref_dec i p)) = length (refcounts p)"
  "j < 8 * length (bitmap p) \<Longrightarrow> bitmap_test (ref_dec i p) j = bitmap_test p j"
  "j < length (refcounts p) \<Longrightarrow> refcounts (ref_dec i p) ! j =
     (if j = i then (if refcounts p ! i > 0 then refcounts p ! i - 1 else 0) else refcounts p ! j)"
  by (simp_all add: ref_dec_def frame_simps word_gt_0)

lemma pmm_free_page_spec:
  assumes wf: "pmm_wf p" and i: "frame_no page < npages p"
  shows "pmm_wf (pmm_free_page page p)"
    and "frame_state (pmm_free_page page p) =
           (frame_state p)(frame_no page := drop_owner (frame_state p (frame_no page)))"
proof -
  let ?i = "frame_no page" and ?q = "pmm_free_page page p"
  have ib: "?i < 8 * length (bitmap p)" using in_bitmap [OF wf i] .
  have rl: "length (refcounts p) = npages p" using wf by (simp add: pmm_wf_def)
  have q: "?q = (if \<not> bitmap_test p ?i then p
       else let p1 = ref_dec ?i p in if refcounts p1 ! ?i = 0
            then let p2 = bitmap_clear ?i p1
                 in if ?i < bitmap_index p2 then p2\<lparr>bitmap_index := ?i\<rparr> else p2 else p1)"
    by (simp add: pmm_free_page_def ref_dec_def Let_def)
  have cnt: "refcounts (ref_dec ?i p) ! ?i = 0 \<longleftrightarrow> unat (refcounts p ! ?i) \<le> 1"
    using i rl u16_dec_0 [of "refcounts p ! ?i"] by (auto simp: frame_simps word_gt_0)
  consider (free) "\<not> bitmap_test p ?i" "?q = p"
    | (last) "bitmap_test p ?i" "unat (refcounts p ! ?i) \<le> 1" "refcounts (ref_dec ?i p) ! ?i = 0"
    | (shared) "bitmap_test p ?i" "unat (refcounts p ! ?i) > 1" "?q = ref_dec ?i p"
        "refcounts (ref_dec ?i p) ! ?i \<noteq> 0"
    using cnt by (cases "bitmap_test p ?i"; cases "unat (refcounts p ! ?i) \<le> 1") (simp_all add: q)
  then have "pmm_wf ?q \<and> frame_state ?q = (frame_state p)(?i := drop_owner (frame_state p ?i))"
  proof cases
    case free
    then show ?thesis using wf by (simp add: frame_state_def drop_owner_def fun_eq_iff)
  next
    case last
    let ?c = "bitmap_clear ?i (ref_dec ?i p)"
    have qc: "?q = (if ?i < bitmap_index p then ?c\<lparr>bitmap_index := ?i\<rparr> else ?c)"
      using last by (simp add: q Let_def frame_simps)
    have flds: "npages ?q = npages p" "length (bitmap ?q) = length (bitmap p)"
        "refcounts ?q = refcounts (ref_dec ?i p)" "bitmap_index ?q = min ?i (bitmap_index p)"
      using ib by (auto simp: qc frame_simps min_def)
    have test: "bitmap_test ?q j \<longleftrightarrow> j \<noteq> ?i \<and> bitmap_test p j" if "j < npages p" for j
      using in_bitmap [OF wf that] ib by (simp add: qc frame_simps bitmap_test_clear)
    show ?thesis using wf i last test rl
      by (auto simp: pmm_wf_def frame_state_def flds frame_simps drop_owner_def fun_eq_iff)
  next
    case shared
    then show ?thesis using wf i rl ib in_bitmap [OF wf]
      by (auto simp: pmm_wf_def frame_state_def frame_simps drop_owner_def fun_eq_iff u16_dec
          word_gt_0)
  qed
  then show "pmm_wf ?q"
    and "frame_state ?q = (frame_state p)(?i := drop_owner (frame_state p ?i))" by blast+
qed

lemma pmm_page_ref_inc_spec:
  assumes wf: "pmm_wf p" and i: "frame_no page < npages p"
    and held: "frame_state p (frame_no page) = Some n" and room: "n < 65535"
  shows "pmm_wf (pmm_page_ref_inc page p)"
    and "frame_state (pmm_page_ref_inc page p) = (frame_state p)(frame_no page \<mapsto> n + 1)"
proof -
  let ?i = "frame_no page" and ?q = "pmm_page_ref_inc page p"
  have t: "bitmap_test p ?i" "unat (refcounts p ! ?i) = n"
    using held i by (auto simp: frame_state_def split: if_splits)
  have rl: "length (refcounts p) = npages p" using wf by (simp add: pmm_wf_def)
  have inc: "unat (refcounts p ! ?i + 1) = n + 1"
    using room t(2) by (simp add: unat_word_ariths)
  have test: "bitmap_test ?q j = bitmap_test p j" if "j < npages p" for j
    using in_bitmap [OF wf that] by (simp add: pmm_page_ref_inc_def Let_def frame_simps)
  have flds: "npages ?q = npages p" "bitmap ?q = bitmap p" "bitmap_index ?q = bitmap_index p"
      "refcounts ?q = (refcounts p)[?i := refcounts p ! ?i + 1]"
    by (simp_all add: pmm_page_ref_inc_def Let_def frame_simps)
  show "pmm_wf ?q" using wf i t(1) rl test
    by (auto simp: pmm_wf_def flds nth_list_update)
  show "frame_state ?q = (frame_state p)(?i \<mapsto> n + 1)"
    using i t rl test inc by (auto simp: frame_state_def flds fun_eq_iff)
qed

section \<open>The allocator as an interface\<close>

text \<open>
  What the clients of the allocator (page tables, the slab allocator, process creation) rely on:
  an allocation hands out a frame nobody holds, or reports that there is none; sharing and freeing
  move the number of owners of the one frame they name.
\<close>

locale frame_allocator =
  fixes alloc :: "'s \<Rightarrow> addr \<times> 's"
    and free :: "addr \<Rightarrow> 's \<Rightarrow> 's"
    and share :: "addr \<Rightarrow> 's \<Rightarrow> 's"
    and owners :: "'s \<Rightarrow> nat \<Rightarrow> nat option"
    and frames :: "'s \<Rightarrow> nat"
    and ok :: "'s \<Rightarrow> bool"
  assumes frames_bound: "frames s < 2 ^ 52"
    and alloc_null: "ok s \<Longrightarrow> alloc s = (NULL, t) \<Longrightarrow> t = s \<and> (\<forall>i<frames s. owners s i \<noteq> None)"
    and alloc_frame: "ok s \<Longrightarrow> alloc s = (a, t) \<Longrightarrow> a \<noteq> NULL \<Longrightarrow>
      \<exists>i. 0 < i \<and> i < frames s \<and> a = frame_addr i \<and> owners s i = None
          \<and> owners t = (owners s)(i \<mapsto> 1) \<and> frames t = frames s \<and> ok t"
    and free_frame: "ok s \<Longrightarrow> 0 < frame_no a \<Longrightarrow> frame_no a < frames s \<Longrightarrow>
      ok (free a s) \<and> frames (free a s) = frames s
      \<and> owners (free a s) = (owners s)(frame_no a := drop_owner (owners s (frame_no a)))"
    and share_frame: "ok s \<Longrightarrow> frame_no a < frames s \<Longrightarrow> owners s (frame_no a) = Some n \<Longrightarrow>
      n < 65535 \<Longrightarrow> ok (share a s) \<and> frames (share a s) = frames s
      \<and> owners (share a s) = (owners s)(frame_no a \<mapsto> n + 1)"
begin

lemma alloc_ok: "ok s \<Longrightarrow> ok (snd (alloc s))"
  using alloc_null alloc_frame by (cases "alloc s") force

lemma alloc_frames: "ok s \<Longrightarrow> frames (snd (alloc s)) = frames s"
  using alloc_null alloc_frame by (cases "alloc s") force

lemma alloc_keeps_held:
  "ok s \<Longrightarrow> owners s i = Some n \<Longrightarrow> owners (snd (alloc s)) i = Some n"
  using alloc_null alloc_frame by (cases "alloc s") force

lemma alloc_not_held:
  assumes "ok s" "alloc s = (a, t)" "a \<noteq> NULL"
  shows "owners s (frame_no a) = None" "owners t (frame_no a) = Some 1" "0 < frame_no a"
    "frame_no a < frames s" "frame_addr (frame_no a) = a"
  using alloc_frame [OF assms] frames_bound [of s] by (auto dest: less_trans)

lemma alloc_twice_distinct:
  assumes "ok s" "alloc s = (a, t)" "a \<noteq> NULL" "alloc t = (b, u)" "b \<noteq> NULL"
  shows "frame_no a \<noteq> frame_no b"
proof -
  have "ok t" using alloc_ok [OF assms(1)] assms(2) by simp
  from alloc_not_held(1) [OF this assms(4,5)] alloc_not_held(2) [OF assms(1-3)]
  show ?thesis by auto
qed

lemma alloc_free_undo:
  assumes "ok s" "alloc s = (a, t)" "a \<noteq> NULL"
  shows "owners (free a t) = owners s" "ok (free a t)"
proof -
  obtain i where i: "0 < i" "i < frames s" "a = frame_addr i" "owners s i = None"
      "owners t = (owners s)(i \<mapsto> 1)" "frames t = frames s" "ok t"
    using alloc_frame [OF assms] by blast
  have n: "frame_no a = i" using i(2,3) frames_bound [of s] by simp
  from free_frame [OF i(7), of a] i n
  show "owners (free a t) = owners s" "ok (free a t)"
    by (auto simp: drop_owner_def fun_eq_iff)
qed

lemma share_free_undo:
  assumes "ok s" "0 < frame_no a" "frame_no a < frames s" "owners s (frame_no a) = Some n"
    "0 < n" "n < 65535"
  shows "owners (free a (share a s)) = owners s" "ok (free a (share a s))"
  using share_frame [OF assms(1,3,4,6)] free_frame [of "share a s" a] assms
  by (auto simp: drop_owner_def fun_eq_iff)

end

definition pmm_ok :: "'a pmm_scheme \<Rightarrow> bool" where
  "pmm_ok p \<longleftrightarrow> pmm_wf p \<and> page0_reserved p"

lemma page0_reserved_state: "page0_reserved p \<longleftrightarrow> 0 < npages p \<and> frame_state p 0 \<noteq> None"
  by (auto simp: page0_reserved_def frame_state_def)

lemma npages_ops [frame_simps]:
  "npages (snd (pmm_take i p)) = npages p"
  "npages (snd (pmm_alloc_page p)) = npages p"
  "npages (pmm_free_page page p) = npages p"
  "npages (pmm_page_ref_inc page p) = npages p"
  by (auto simp: pmm_take_def pmm_alloc_page_def pmm_free_page_def pmm_page_ref_inc_def Let_def
      frame_simps split: option.split)

lemma pmm_alloc_page_NULL:
  assumes ok: "pmm_ok p" and a: "pmm_alloc_page p = (NULL, q)"
  shows "q = p \<and> (\<forall>i<npages p. frame_state p i \<noteq> None)"
proof (cases "\<exists>i<npages p. frame_state p i = None")
  case True
  then obtain i where i: "i < npages p" "frame_state p i = None" "NULL = frame_addr i"
    using pmm_alloc_page_spec [of p] ok a by (auto simp: pmm_ok_def)
  have "i < 2 ^ 52" using i(1) npages_bound [of p] by linarith
  then have "i = 0" using i(3) frame_addr_0_iff by metis
  then show ?thesis using i ok by (simp add: pmm_ok_def page0_reserved_state)
next
  case False
  then show ?thesis using pmm_alloc_page_spec [of p] ok a by (auto simp: pmm_ok_def)
qed

lemma pmm_alloc_page_frame:
  assumes ok: "pmm_ok p" and a: "pmm_alloc_page p = (a, q)" "a \<noteq> NULL"
  shows "\<exists>i. 0 < i \<and> i < npages p \<and> a = frame_addr i \<and> frame_state p i = None
          \<and> frame_state q = (frame_state p)(i \<mapsto> 1) \<and> npages q = npages p \<and> pmm_ok q"
proof -
  obtain i where i: "i < npages p" "frame_state p i = None" "a = frame_addr i"
      "frame_state q = (frame_state p)(i \<mapsto> 1)"
    using pmm_alloc_page_spec [of p] ok a by (auto simp: pmm_ok_def split: if_splits)
  have n: "npages q = npages p" using npages_ops(2) [of p] a by simp
  have i0: "0 < i" using ok i by (cases "i = 0") (auto simp: pmm_ok_def page0_reserved_state)
  moreover have "pmm_ok q"
    using pmm_alloc_page_wf [of p] ok a i n i0 by (auto simp: pmm_ok_def page0_reserved_state)
  ultimately show ?thesis using i n by blast
qed

interpretation pmm_frames: frame_allocator pmm_alloc_page pmm_free_page pmm_page_ref_inc
  frame_state npages pmm_ok
proof unfold_locales
  fix s :: "'a pmm_scheme" and a n
  show "npages s < 2 ^ 52" by (rule npages_bound)
  show "pmm_ok s \<Longrightarrow> 0 < frame_no a \<Longrightarrow> frame_no a < npages s \<Longrightarrow>
      pmm_ok (pmm_free_page a s) \<and> npages (pmm_free_page a s) = npages s
      \<and> frame_state (pmm_free_page a s) =
          (frame_state s)(frame_no a := drop_owner (frame_state s (frame_no a)))"
    using pmm_free_page_spec [of s a] by (auto simp: pmm_ok_def page0_reserved_state frame_simps)
  show "pmm_ok s \<Longrightarrow> frame_no a < npages s \<Longrightarrow> frame_state s (frame_no a) = Some n \<Longrightarrow>
      n < 65535 \<Longrightarrow> pmm_ok (pmm_page_ref_inc a s) \<and> npages (pmm_page_ref_inc a s) = npages s
      \<and> frame_state (pmm_page_ref_inc a s) = (frame_state s)(frame_no a \<mapsto> n + 1)"
    using pmm_page_ref_inc_spec [of s a n] by (auto simp: pmm_ok_def page0_reserved_state frame_simps)
qed (use pmm_alloc_page_NULL pmm_alloc_page_frame in blast)+

section \<open>Boot establishes the invariant\<close>

lemma fold_bitmap_clear:
  assumes "\<forall>i\<in>set xs. i < 8 * length (bitmap p)"
  shows "highest_address (fold bitmap_clear xs p) = highest_address p"
    "bitmap_index (fold bitmap_clear xs p) = bitmap_index p"
    "length (bitmap (fold bitmap_clear xs p)) = length (bitmap p)"
    "refcounts (fold bitmap_clear xs p) = refcounts p"
    "j < 8 * length (bitmap p) \<Longrightarrow>
       bitmap_test (fold bitmap_clear xs p) j \<longleftrightarrow> j \<notin> set xs \<and> bitmap_test p j"
  using assms by (induction xs arbitrary: p) (auto simp: frame_simps bitmap_test_clear)

lemma fold_bitmap_set:
  assumes "\<forall>i\<in>set xs. i < 8 * length (bitmap p)"
  shows "highest_address (fold bitmap_set xs p) = highest_address p"
    "bitmap_index (fold bitmap_set xs p) = bitmap_index p"
    "length (bitmap (fold bitmap_set xs p)) = length (bitmap p)"
    "refcounts (fold bitmap_set xs p) = refcounts p"
    "j < 8 * length (bitmap p) \<Longrightarrow>
       bitmap_test (fold bitmap_set xs p) j \<longleftrightarrow> j \<in> set xs \<or> bitmap_test p j"
  using assms by (induction xs arbitrary: p) (auto simp: frame_simps bitmap_test_set)

text \<open>The frames an entry of the memory map covers, for the page-aligned entries of the boot protocol.\<close>

definition entry_pages :: "memmap_entry \<Rightarrow> nat set" where
  "entry_pages e = {unat (me_base e) div page_bytes ..<
                    (unat (me_base e) + unat (me_length e)) div page_bytes}"

definition entry_ok :: "memmap_entry \<Rightarrow> bool" where
  "entry_ok e \<longleftrightarrow> unat (me_base e) mod page_bytes = 0 \<and> unat (me_length e) mod page_bytes = 0
     \<and> unat (me_base e) + unat (me_length e) < 2 ^ 64"

lemma set_page_span: "set (page_span base len) = {base div page_bytes ..<
    base div page_bytes + (len + (page_bytes - 1)) div page_bytes}"
proof -
  have "(\<lambda>k. base div page_bytes + k) ` {0..<n} = {base div page_bytes ..< base div page_bytes + n}" for n
    by auto
  then show ?thesis by (simp add: page_span_def)
qed

lemma set_page_span_entry:
  assumes "entry_ok e"
  shows "set (page_span (unat (me_base e)) (unat (me_length e))) = entry_pages e"
proof -
  obtain b l where "unat (me_base e) = b * page_bytes" "unat (me_length e) = l * page_bytes"
    using assms by (auto simp: entry_ok_def mod_eq_0_iff_dvd dvd_def mult.commute)
  then show ?thesis by (simp add: set_page_span entry_pages_def)
qed

lemma find_highest_bound:
  assumes ok: "\<forall>e\<in>set mm. entry_ok e" and e: "e \<in> set mm" "me_usable e"
  shows "unat (me_base e) + unat (me_length e) \<le> unat (find_highest mm)"
proof -
  let ?f = "\<lambda>e h. if me_usable e then
       (let top = me_base e + me_length e in if top > h then top else h) else (h::u64)"
  have mono: "h \<le> fold ?f xs h" for xs h
    by (induction xs arbitrary: h) (auto simp: Let_def intro: order_trans less_imp_le)
  have main: "me_base e + me_length e \<le> fold ?f xs h" if "e \<in> set xs" for xs h
    using that
  proof (induction xs arbitrary: h)
    case (Cons x xs)
    show ?case
    proof (cases "e \<in> set xs")
      case False
      then have "me_base e + me_length e \<le> ?f x h" using Cons.prems e(2) by (auto simp: Let_def)
      also have "\<dots> \<le> fold ?f xs (?f x h)" by (rule mono)
      finally show ?thesis by simp
    next
      case True
      then show ?thesis using Cons.IH [of "?f x h"] by simp
    qed
  qed simp
  have "unat (me_base e + me_length e) = unat (me_base e) + unat (me_length e)"
    using ok e by (auto simp: entry_ok_def unat_word_ariths)
  then show ?thesis using main [OF e(1), of 0] by (simp add: find_highest_def word_le_nat_alt)
qed

definition usable_pages :: "memmap_entry list \<Rightarrow> nat set" where
  "usable_pages mm = (\<Union>e\<in>{e \<in> set mm. me_usable e}. entry_pages e)"

lemma usable_pages_bound:
  assumes "\<forall>e\<in>set mm. entry_ok e" "i \<in> usable_pages mm"
  shows "i < unat (find_highest mm) div page_bytes"
proof -
  obtain e where e: "e \<in> set mm" "me_usable e"
      "i < (unat (me_base e) + unat (me_length e)) div page_bytes"
    using assms(2) by (auto simp: usable_pages_def entry_pages_def)
  moreover have "(unat (me_base e) + unat (me_length e)) div page_bytes
      \<le> unat (find_highest mm) div page_bytes"
    by (rule div_le_mono) (rule find_highest_bound [OF assms(1) e(1,2)])
  ultimately show ?thesis by linarith
qed

lemma clear_usable_spec:
  assumes "\<forall>e\<in>set mm. entry_ok e" "\<forall>i\<in>usable_pages mm. i < 8 * length (bitmap p)"
  shows "highest_address (clear_usable mm p) = highest_address p
    \<and> bitmap_index (clear_usable mm p) = bitmap_index p
    \<and> length (bitmap (clear_usable mm p)) = length (bitmap p)
    \<and> refcounts (clear_usable mm p) = refcounts p
    \<and> (\<forall>j < 8 * length (bitmap p).
         bitmap_test (clear_usable mm p) j \<longleftrightarrow> j \<notin> usable_pages mm \<and> bitmap_test p j)"
  using assms
proof (induction mm arbitrary: p)
  case Nil
  then show ?case by (simp add: clear_usable_def usable_pages_def)
next
  case (Cons e mm)
  let ?p = "if me_usable e
    then fold bitmap_clear (page_span (unat (me_base e)) (unat (me_length e))) p else p"
  have step: "clear_usable (e # mm) p = clear_usable mm ?p" by (simp add: clear_usable_def)
  have us: "usable_pages (e # mm) = (if me_usable e then entry_pages e else {}) \<union> usable_pages mm"
    by (auto simp: usable_pages_def)
  have in_e: "\<forall>i\<in>set (page_span (unat (me_base e)) (unat (me_length e))).
      i < 8 * length (bitmap p)" if "me_usable e"
    using Cons.prems that by (simp add: set_page_span_entry us)
  note fc = fold_bitmap_clear [OF in_e]
  have "length (bitmap ?p) = length (bitmap p)" using fc by simp
  then have ih: "highest_address (clear_usable mm ?p) = highest_address ?p
    \<and> bitmap_index (clear_usable mm ?p) = bitmap_index ?p
    \<and> length (bitmap (clear_usable mm ?p)) = length (bitmap ?p)
    \<and> refcounts (clear_usable mm ?p) = refcounts ?p
    \<and> (\<forall>j < 8 * length (bitmap ?p).
         bitmap_test (clear_usable mm ?p) j \<longleftrightarrow> j \<notin> usable_pages mm \<and> bitmap_test ?p j)"
    using Cons.prems us by (intro Cons.IH) auto
  show ?case unfolding step using ih fc Cons.prems(1)
    by (auto simp: us set_page_span_entry)
qed

text \<open>The frames that hold the bitmap and the reference counts themselves.\<close>

definition metadata_pages :: "u64 \<Rightarrow> memmap_entry \<Rightarrow> nat set" where
  "metadata_pages highest e =
     set (page_span (unat (me_base e)) (bitmap_bytes highest + refcounts_bytes highest))"

lemma metadata_pages_usable:
  assumes "entry_ok e" "bitmap_bytes h + refcounts_bytes h \<le> unat (me_length e)"
  shows "metadata_pages h e \<subseteq> entry_pages e"
proof -
  obtain b l where bl: "unat (me_base e) = b * page_bytes" "unat (me_length e) = l * page_bytes"
    using assms(1) by (auto simp: entry_ok_def mod_eq_0_iff_dvd dvd_def mult.commute)
  have "(bitmap_bytes h + refcounts_bytes h + 4095) div page_bytes \<le> l"
    using assms(2) unfolding bl(2) by arith
  then show ?thesis by (auto simp: metadata_pages_def set_page_span entry_pages_def bl)
qed

text \<open>
  The allocator \<open>init_pmm\<close> builds: on page-aligned entries, and when the bitmap it sized has a bit for
  every frame, exactly the usable frames that are neither page 0 nor the allocator's own arrays are free.
\<close>

lemma init_pmm_spec:
  assumes mm: "\<forall>e\<in>set mm. entry_ok e" and cover: "unat (find_highest mm) div page_bytes \<le>
      8 * bitmap_bytes (find_highest mm)"
    and e: "find (\<lambda>e. me_usable e \<and>
      unat (me_length e) \<ge> bitmap_bytes (find_highest mm) + refcounts_bytes (find_highest mm)) mm = Some e"
    and pos: "0 < unat (find_highest mm) div page_bytes"
    and p: "init_pmm (Some mm) (Some off) = Inr p"
  shows "pmm_ok p" "npages p = unat (find_highest mm) div page_bytes"
    "\<forall>i<npages p. frame_state p i = None \<longleftrightarrow>
       i \<in> usable_pages mm \<and> i \<notin> metadata_pages (find_highest mm) e \<and> i \<noteq> 0"
proof -
  let ?h = "find_highest mm"
  let ?n = "unat ?h div page_bytes"
  define p0 where "p0 = \<lparr>hhdm_offset = off, bitmap = replicate (bitmap_bytes ?h) (0xFF::u8),
     highest_address = ?h, bitmap_index = 0, refcounts = replicate ?n (0::u16)\<rparr>"
  define p1 where "p1 = clear_usable mm p0"
  define p2 where "p2 = fold bitmap_set (page_span (unat (me_base e))
     (bitmap_bytes ?h + refcounts_bytes ?h)) p1"
  define p3 where "p3 = bitmap_set 0 p2"
  have p_eq: "p = p3\<lparr>refcounts := (refcounts p3)[0 := 1]\<rparr>"
    using p e by (simp add: init_pmm_def Let_def p0_def p1_def p2_def p3_def)
  have b0: "length (bitmap p0) = bitmap_bytes ?h" "refcounts p0 = replicate ?n 0"
      "highest_address p0 = ?h" "bitmap_index p0 = 0" by (simp_all add: p0_def)
  have t0: "bitmap_test p0 j" if "j < 8 * bitmap_bytes ?h" for j
  proof -
    have "j div 8 < bitmap_bytes ?h" using that by (simp add: div_less_iff_less_mult)
    moreover have "bit (0xFF::u8) (j mod 8)" by (subst bit_0xFF_u8) simp
    ultimately show ?thesis by (simp add: bitmap_test_bit bitmap_byte_def p0_def)
  qed
  have up: "\<forall>i\<in>usable_pages mm. i < 8 * length (bitmap p0)"
    using usable_pages_bound [OF mm] cover b0 by fastforce
  note c1 = clear_usable_spec [OF mm up, folded p1_def]
  have e_in: "e \<in> set mm" "me_usable e" "bitmap_bytes ?h + refcounts_bytes ?h \<le> unat (me_length e)"
    using e by (auto simp: find_Some_iff)
  have md: "metadata_pages ?h e \<subseteq> usable_pages mm"
    using metadata_pages_usable [of e ?h] mm e_in by (auto simp: usable_pages_def)
  have mb: "\<forall>i\<in>set (page_span (unat (me_base e)) (bitmap_bytes ?h + refcounts_bytes ?h)).
      i < 8 * length (bitmap p1)"
    using md up c1 by (auto simp: metadata_pages_def)
  note c2 = fold_bitmap_set [OF mb, folded p2_def]
  have z: "0 < 8 * length (bitmap p2)" using pos cover c1 c2 b0 by auto
  have len: "length (bitmap p) = bitmap_bytes ?h" using c1 c2 b0 by (simp add: p_eq p3_def frame_simps)
  have rc: "refcounts p = (replicate ?n 0)[0 := 1]"
    using c1 c2 b0 z by (simp add: p_eq p3_def frame_simps)
  show np: "npages p = ?n" using c1 c2 b0 by (simp add: p_eq p3_def npages_def frame_simps)
  have test: "bitmap_test p j \<longleftrightarrow> j = 0 \<or> j \<in> metadata_pages ?h e \<or> j \<notin> usable_pages mm"
    if "j < ?n" for j
  proof -
    have j: "j < 8 * bitmap_bytes ?h" using that cover by linarith
    have "bitmap_test p j \<longleftrightarrow> j = 0 \<or> bitmap_test p2 j"
      using j z c1 c2 b0 by (simp add: p_eq p3_def frame_simps bitmap_test_set)
    also have "bitmap_test p2 j \<longleftrightarrow> j \<in> metadata_pages ?h e \<or> bitmap_test p1 j"
      using j c1 c2 b0 by (simp add: metadata_pages_def)
    also have "bitmap_test p1 j \<longleftrightarrow> j \<notin> usable_pages mm"
      using j c1 b0 t0 by simp
    finally show ?thesis by blast
  qed
  have bi: "bitmap_index p = 0" using c1 c2 b0 by (simp add: p_eq p3_def frame_simps)
  show "pmm_ok p"
    using cover pos test by (auto simp: pmm_ok_def pmm_wf_def page0_reserved_def np len rc bi nth_list_update)
  show "\<forall>i<npages p. frame_state p i = None \<longleftrightarrow>
       i \<in> usable_pages mm \<and> i \<notin> metadata_pages ?h e \<and> i \<noteq> 0"
    using test by (auto simp: frame_state_None np)
qed

section \<open>Properties\<close>

text \<open>
  C8: allocation refines the abstract allocator. From a well-formed allocator whose page 0 is reserved,
  \<open>pmm_alloc_page\<close> either returns the null pointer, changes nothing, and every frame is taken; or it
  returns the non-null, page-aligned address of a frame that was free, and the only change is that this
  frame now has exactly one owner. The invariant is kept in both cases.
\<close>

theorem pmm_alloc_page_refines:
  assumes "pmm_ok p"
  shows "case pmm_alloc_page p of (a, q) \<Rightarrow> pmm_ok q \<and>
     (if a = NULL then q = p \<and> (\<forall>i<npages p. frame_state p i \<noteq> None)
      else \<exists>i<npages p. a = frame_addr i \<and> frame_state p i = None
             \<and> frame_state q = (frame_state p)(i \<mapsto> 1))"
proof (cases "pmm_alloc_page p")
  case (Pair a q)
  show ?thesis
  proof (cases "a = NULL")
    case True
    then have n: "pmm_alloc_page p = (NULL, q)" using Pair by simp
    show ?thesis using pmm_frames.alloc_null [OF assms n] assms n by simp
  next
    case False
    then show ?thesis using Pair pmm_frames.alloc_frame [OF assms Pair] by auto
  qed
qed

text \<open>A four-frame allocator with page 0 reserved and frame 2 shared by two owners.\<close>

definition tiny_pmm :: pmm where
  "tiny_pmm = \<lparr>hhdm_offset = 0xFFFF800000000000, bitmap = [0x05], highest_address = 0x4000,
               bitmap_index = 2, refcounts = [1, 0, 2, 0]\<rparr>"

lemma tiny_pmm_npages: "npages tiny_pmm = 4"
  by (simp add: tiny_pmm_def npages_def)

lemma tiny_pmm_ok: "pmm_ok tiny_pmm"
proof -
  have "refcounts tiny_pmm ! i = 0" if "\<not> bitmap_test tiny_pmm i" "i < 4" for i
  proof -
    consider "i = 0" | "i = 1" | "i = 2" | "i = 3" using \<open>i < 4\<close> by linarith
    then show ?thesis using that(1)
      by cases (simp_all add: tiny_pmm_def bitmap_test_def bitmap_byte_def)
  qed
  then show ?thesis
    by (auto simp: pmm_ok_def pmm_wf_def page0_reserved_def tiny_pmm_npages)
      (simp_all add: tiny_pmm_def bitmap_test_def bitmap_byte_def)
qed

theorem pmm_alloc_page_refines_witness:
  "pmm_ok tiny_pmm \<and> (case pmm_alloc_page tiny_pmm of (a, q) \<Rightarrow> pmm_ok q \<and> a = 0x3000)"
proof -
  have "[2..<4] = [2, 3::nat]" by (simp add: upt_rec)
  then have "fst (pmm_alloc_page tiny_pmm) = 0x3000"
    by (simp add: pmm_alloc_page_def tiny_pmm_npages pmm_take_def Let_def)
      (simp add: tiny_pmm_def bitmap_test_def bitmap_byte_def pmm_take_def Let_def frame_addr_def)
  then show ?thesis
    using pmm_alloc_page_refines [OF tiny_pmm_ok] tiny_pmm_ok by (auto split: prod.splits)
qed

text \<open>
  C9: boot. For a memory map whose entries are page aligned and do not wrap around, when some usable
  region can hold the bitmap and the reference counts and the bitmap has a bit for every frame,
  \<open>init_pmm\<close> returns an allocator that satisfies the invariant, and a frame is free exactly when it
  lies in usable memory, is not page 0 and is not occupied by the allocator's own arrays.
\<close>

theorem init_pmm_establishes:
  assumes "\<forall>e\<in>set mm. entry_ok e"
    and "unat (find_highest mm) div page_bytes \<le> 8 * bitmap_bytes (find_highest mm)"
    and "0 < unat (find_highest mm) div page_bytes"
    and "find (\<lambda>e. me_usable e \<and> unat (me_length e) \<ge>
           bitmap_bytes (find_highest mm) + refcounts_bytes (find_highest mm)) mm = Some e"
  shows "\<exists>p. init_pmm (Some mm) (Some off) = Inr p \<and> pmm_ok p
     \<and> (\<forall>i<npages p. frame_state p i = None \<longleftrightarrow>
          i \<in> usable_pages mm \<and> i \<notin> metadata_pages (find_highest mm) e \<and> i \<noteq> 0)"
proof -
  obtain p where p: "init_pmm (Some mm) (Some off) = Inr p"
    using assms(4) by (auto simp: init_pmm_def Let_def)
  then show ?thesis using init_pmm_spec [OF assms(1,2,4,3) p] by blast
qed

definition tiny_memmap :: "memmap_entry list" where
  "tiny_memmap = [\<lparr>me_base = 0, me_length = 0x4000, me_usable = True\<rparr>,
                  \<lparr>me_base = 0x4000, me_length = 0x1000, me_usable = False\<rparr>,
                  \<lparr>me_base = 0x5000, me_length = 0x3000, me_usable = True\<rparr>]"

theorem init_pmm_establishes_witness:
  "\<exists>p. init_pmm (Some tiny_memmap) (Some 0xFFFF800000000000) = Inr p \<and> pmm_ok p
     \<and> (\<forall>i<npages p. frame_state p i = None \<longleftrightarrow>
          i \<in> usable_pages tiny_memmap \<and> i \<notin> metadata_pages (find_highest tiny_memmap) (hd tiny_memmap) \<and> i \<noteq> 0)"
proof -
  have h: "find_highest tiny_memmap = 0x8000"
    by (simp add: find_highest_def tiny_memmap_def Let_def)
  show ?thesis
    by (rule init_pmm_establishes)
      (simp_all add: h, simp_all add: tiny_memmap_def entry_ok_def bitmap_bytes_def refcounts_bytes_def)
qed

text \<open>
  C11: the size \<open>init_pmm\<close> gives the bitmap. It rounds up when the number of \<^emph>\<open>bytes\<close> is not a multiple of
  eight, not when the number of frames is not, so the bitmap has a bit for every frame exactly when the
  frame count is a multiple of eight or its eighth part is not.
\<close>

theorem bitmap_bytes_covers_iff:
  "unat h div page_bytes \<le> 8 * bitmap_bytes h \<longleftrightarrow>
     (unat h div page_bytes) mod 8 = 0 \<or> (unat h div page_bytes div 8) mod 8 \<noteq> 0"
proof -
  define n where "n = unat h div page_bytes"
  have "n \<le> 8 * (if n div 8 mod 8 \<noteq> 0 then n div 8 + 1 else n div 8) \<longleftrightarrow>
      n mod 8 = 0 \<or> n div 8 mod 8 \<noteq> 0" by presburger
  then show ?thesis unfolding bitmap_bytes_def Let_def n_def by simp
qed

theorem bitmap_bytes_covers_iff_witness:
  "bitmap_bytes 0x201000 = 64 \<and> unat (0x201000 :: u64) div page_bytes = 513
   \<and> \<not> unat (0x201000 :: u64) div page_bytes \<le> 8 * bitmap_bytes 0x201000"
  using bitmap_bytes_covers_iff [of "0x201000"] by (simp add: bitmap_bytes_def)

text \<open>
  C12: the 16-bit reference count wraps. A frame with 65535 owners that gains one more owner has a count
  of 0, and the next \<open>pmm_free_page\<close> marks the frame free although 65535 owners still hold it.
\<close>

theorem pmm_refcount_wraps:
  assumes "pmm_wf p" "frame_no a < npages p" "bitmap_test p (frame_no a)"
    "refcounts p ! frame_no a = 0xFFFF"
  shows "pmm_page_refcount (pmm_page_ref_inc a p) a = 0
    \<and> frame_state (pmm_free_page a (pmm_page_ref_inc a p)) (frame_no a) = None"
proof -
  let ?q = "pmm_page_ref_inc a p" and ?i = "frame_no a"
  have rl: "length (refcounts p) = npages p" using assms(1) by (simp add: pmm_wf_def)
  have c: "pmm_page_refcount ?q a = 0"
    using assms(2,4) rl by (simp add: pmm_page_refcount_def pmm_page_ref_inc_def Let_def)
  have test: "bitmap_test ?q j = bitmap_test p j" if "j < npages p" for j
    using in_bitmap [OF assms(1) that] by (simp add: pmm_page_ref_inc_def Let_def frame_simps)
  have wf: "pmm_wf ?q"
    using assms rl test by (auto simp: pmm_wf_def npages_ops) (auto simp: pmm_page_ref_inc_def Let_def nth_list_update)
  have "frame_state ?q ?i = Some 0"
    using assms(2,3) c test by (simp add: frame_state_def npages_ops pmm_page_refcount_def)
  then show ?thesis using pmm_free_page_spec(2) [OF wf, of a] assms(2) c
    by (simp add: npages_ops drop_owner_def)
qed

theorem pmm_refcount_wraps_witness:
  "frame_state (pmm_free_page 0x2000 (pmm_page_ref_inc 0x2000
      (tiny_pmm\<lparr>refcounts := [1, 0, 0xFFFF, 0]\<rparr>))) 2 = None"
proof -
  let ?p = "tiny_pmm\<lparr>refcounts := [1, 0, 0xFFFF, 0]\<rparr>"
  have f: "frame_no 0x2000 = 2" by (simp add: frame_no_def)
  have n: "npages ?p = 4" by (simp add: npages_def tiny_pmm_def)
  have "refcounts ?p ! i = 0" if "\<not> bitmap_test ?p i" "i < 4" for i
  proof -
    consider "i = 0" | "i = 1" | "i = 2" | "i = 3" using \<open>i < 4\<close> by linarith
    then show ?thesis using that(1)
      by cases (simp_all add: tiny_pmm_def bitmap_test_def bitmap_byte_def)
  qed
  then have "pmm_wf ?p" by (auto simp: pmm_wf_def n) (simp_all add: tiny_pmm_def)
  moreover have "bitmap_test ?p 2" by (simp add: tiny_pmm_def bitmap_test_def bitmap_byte_def)
  ultimately show ?thesis
    using pmm_refcount_wraps [of ?p "0x2000"] by (simp add: f n)
qed

end
