(* ===== verification/Vmm.thy ===== *)
theory Vmm
  imports Pmm "HOL-Library.Sublist"
begin

text \<open>
  The virtual memory manager, \<^verbatim>\<open>src/kernel/src/arch/x86_64/vmm.c\<close>: four-level x86-64 page tables
  in physical memory. Physical memory is a store of 64-bit words, addressed by frame number and word
  index. The kernel reaches it through the direct map at \<^verbatim>\<open>hhdm_offset\<close>; a table pointer
  \<^verbatim>\<open>(uint64_t *)(phys + hhdm_offset)\<close> of the C code is the physical address \<open>phys\<close> here, and a null
  pointer is \<open>None\<close>. The TLB flushes (\<^verbatim>\<open>invlpg\<close>, reloading CR3) have no effect on this state.
\<close>

section \<open>State\<close>

record machine = pmm +
  phys_mem :: "nat \<Rightarrow> nat \<Rightarrow> u64"
  kernel_pml4 :: addr
  msr_pat :: u64

text \<open>\<^verbatim>\<open>table[i]\<close> and \<^verbatim>\<open>table[i] = v\<close> for the table at a physical address.\<close>

definition rd :: "'a machine_scheme \<Rightarrow> addr \<Rightarrow> nat \<Rightarrow> u64" where
  "rd m t i = phys_mem m (frame_no t) i"

definition wr :: "addr \<Rightarrow> nat \<Rightarrow> u64 \<Rightarrow> 'a machine_scheme \<Rightarrow> 'a machine_scheme" where
  "wr t i v m = m\<lparr>phys_mem := (phys_mem m)(frame_no t := (phys_mem m (frame_no t))(i := v))\<rparr>"

text \<open>\<^verbatim>\<open>memset(page, 0, PAGE_SIZE)\<close> and \<^verbatim>\<open>memcpy(dst, src, PAGE_SIZE)\<close> on whole frames.\<close>

definition zero_page :: "addr \<Rightarrow> 'a machine_scheme \<Rightarrow> 'a machine_scheme" where
  "zero_page a m = m\<lparr>phys_mem := (phys_mem m)(frame_no a := (\<lambda>_. 0))\<rparr>"

definition copy_page :: "addr \<Rightarrow> addr \<Rightarrow> 'a machine_scheme \<Rightarrow> 'a machine_scheme" where
  "copy_page dst src m = m\<lparr>phys_mem := (phys_mem m)(frame_no dst := phys_mem m (frame_no src))\<rparr>"

section \<open>Page table entries\<close>

abbreviation PTE_PRESENT :: u64 where "PTE_PRESENT \<equiv> 0x1"
abbreviation PTE_WRITABLE :: u64 where "PTE_WRITABLE \<equiv> 0x2"
abbreviation PTE_USER :: u64 where "PTE_USER \<equiv> 0x4"
abbreviation PTE_PWT :: u64 where "PTE_PWT \<equiv> 0x8"
abbreviation PTE_COW :: u64 where "PTE_COW \<equiv> 0x200"
abbreviation PTE_SHARED :: u64 where "PTE_SHARED \<equiv> 0x400"
abbreviation PTE_NOPMM :: u64 where "PTE_NOPMM \<equiv> 0x800"
abbreviation PTE_NX :: u64 where "PTE_NX \<equiv> 0x8000000000000000"

definition ADDR_MASK :: u64 where "ADDR_MASK = 0x000FFFFFFFFFF000"
definition FLAG_MASK :: u64 where "FLAG_MASK = 0xFFF0000000000FFF"

definition has_flag :: "u64 \<Rightarrow> u64 \<Rightarrow> bool" where
  "has_flag e f \<longleftrightarrow> e AND f \<noteq> 0"

definition entry_addr :: "u64 \<Rightarrow> addr" where
  "entry_addr e = e AND ADDR_MASK"

definition pml4_entry :: "addr \<Rightarrow> nat" where
  "pml4_entry va = unat (drop_bit 39 va AND 0x1FF)"
definition pdpt_entry :: "addr \<Rightarrow> nat" where
  "pdpt_entry va = unat (drop_bit 30 va AND 0x1FF)"
definition pd_entry :: "addr \<Rightarrow> nat" where
  "pd_entry va = unat (drop_bit 21 va AND 0x1FF)"
definition pt_entry :: "addr \<Rightarrow> nat" where
  "pt_entry va = unat (drop_bit 12 va AND 0x1FF)"

section \<open>Operations\<close>

text \<open>The slots the loops over a table visit: all of them, and the two halves of a root table.\<close>

definition table_slots :: "nat list" where "table_slots = [0..<512]"
definition user_slots :: "nat list" where "user_slots = [0..<256]"
definition kernel_slots :: "nat list" where "kernel_slots = [256..<512]"

lemma set_slots [simp]:
  "set table_slots = {..<512}" "set user_slots = {..<256}" "set kernel_slots = {256..<512}"
  "distinct table_slots" "distinct user_slots"
  unfolding table_slots_def user_slots_def kernel_slots_def set_upt
  by (auto simp del: upt_rec_numeral)

definition get_next_level :: "addr \<Rightarrow> nat \<Rightarrow> 'a machine_scheme \<Rightarrow> addr option \<times> 'a machine_scheme" where
  "get_next_level t i m =
     (if has_flag (rd m t i) PTE_PRESENT then (Some (entry_addr (rd m t i)), m)
      else case pmm_alloc_page m of
             (a, m1) \<Rightarrow> if a = NULL then (None, m1)
               else (Some a, wr t i (a OR PTE_PRESENT OR PTE_WRITABLE OR PTE_USER) (zero_page a m1)))"

definition vmm_map_page :: "addr \<Rightarrow> addr \<Rightarrow> addr \<Rightarrow> u64 \<Rightarrow> 'a machine_scheme \<Rightarrow> 'a machine_scheme" where
  "vmm_map_page pml4 va pa flags m =
     (case get_next_level pml4 (pml4_entry va) m of
        (None, m1) \<Rightarrow> m1
      | (Some pdpt, m1) \<Rightarrow>
         (case get_next_level pdpt (pdpt_entry va) m1 of
            (None, m2) \<Rightarrow> m2
          | (Some pd, m2) \<Rightarrow>
             (case get_next_level pd (pd_entry va) m2 of
                (None, m3) \<Rightarrow> m3
              | (Some pt, m3) \<Rightarrow> wr pt (pt_entry va) (pa OR flags) m3)))"

definition vmm_set_page_user :: "addr \<Rightarrow> addr \<Rightarrow> 'a machine_scheme \<Rightarrow> 'a machine_scheme" where
  "vmm_set_page_user pml4 va m =
     (let i4 = pml4_entry va; i3 = pdpt_entry va; i2 = pd_entry va; i1 = pt_entry va in
      if \<not> has_flag (rd m pml4 i4) PTE_PRESENT then m else
      let m1 = wr pml4 i4 (rd m pml4 i4 OR PTE_USER) m; pdpt = entry_addr (rd m1 pml4 i4) in
      if \<not> has_flag (rd m1 pdpt i3) PTE_PRESENT then m1 else
      let m2 = wr pdpt i3 (rd m1 pdpt i3 OR PTE_USER) m1; pd = entry_addr (rd m2 pdpt i3) in
      if \<not> has_flag (rd m2 pd i2) PTE_PRESENT then m2 else
      let m3 = wr pd i2 (rd m2 pd i2 OR PTE_USER) m2; pt = entry_addr (rd m3 pd i2) in
      if \<not> has_flag (rd m3 pt i1) PTE_PRESENT then m3 else
      wr pt i1 (rd m3 pt i1 OR PTE_USER) m3)"

definition vmm_new_user_pagetable :: "'a machine_scheme \<Rightarrow> addr option \<times> 'a machine_scheme" where
  "vmm_new_user_pagetable m =
     (case pmm_alloc_page m of
        (a, m1) \<Rightarrow> if a = NULL then (None, m1)
          else (Some a, fold (\<lambda>i m. wr a i (rd m (kernel_pml4 m) i) m) kernel_slots (zero_page a m1)))"

definition destroy_pt :: "addr \<Rightarrow> 'a machine_scheme \<Rightarrow> 'a machine_scheme" where
  "destroy_pt pt = fold (\<lambda>i m. if has_flag (rd m pt i) PTE_PRESENT \<and> \<not> has_flag (rd m pt i) PTE_NOPMM
                               then pmm_free_page (entry_addr (rd m pt i)) m else m) table_slots"

definition destroy_pd :: "addr \<Rightarrow> 'a machine_scheme \<Rightarrow> 'a machine_scheme" where
  "destroy_pd pd = fold (\<lambda>i m. if \<not> has_flag (rd m pd i) PTE_PRESENT then m
       else pmm_free_page (entry_addr (rd m pd i)) (destroy_pt (entry_addr (rd m pd i)) m)) table_slots"

definition destroy_pdpt :: "addr \<Rightarrow> 'a machine_scheme \<Rightarrow> 'a machine_scheme" where
  "destroy_pdpt pdpt = fold (\<lambda>i m. if \<not> has_flag (rd m pdpt i) PTE_PRESENT then m
       else pmm_free_page (entry_addr (rd m pdpt i)) (destroy_pd (entry_addr (rd m pdpt i)) m)) table_slots"

definition vmm_destroy_user_pagetable :: "addr option \<Rightarrow> 'a machine_scheme \<Rightarrow> 'a machine_scheme" where
  "vmm_destroy_user_pagetable pml4_ptr m =
     (case pml4_ptr of
        None \<Rightarrow> m
      | Some pml4 \<Rightarrow> pmm_free_page pml4
          (fold (\<lambda>i m. if \<not> has_flag (rd m pml4 i) PTE_PRESENT then m
             else pmm_free_page (entry_addr (rd m pml4 i)) (destroy_pdpt (entry_addr (rd m pml4 i)) m))
             user_slots m))"

definition vmm_unmap_page :: "addr \<Rightarrow> addr \<Rightarrow> 'a machine_scheme \<Rightarrow> 'a machine_scheme" where
  "vmm_unmap_page pml4 va m =
     (let e4 = rd m pml4 (pml4_entry va) in
      if \<not> has_flag e4 PTE_PRESENT then m else
      let e3 = rd m (entry_addr e4) (pdpt_entry va) in
      if \<not> has_flag e3 PTE_PRESENT then m else
      let e2 = rd m (entry_addr e3) (pd_entry va) in
      if \<not> has_flag e2 PTE_PRESENT then m else
      let pt = entry_addr e2; e1 = rd m pt (pt_entry va) in
      if \<not> has_flag e1 PTE_PRESENT then m else
      let m1 = wr pt (pt_entry va) 0 m in
      if has_flag e1 PTE_NOPMM then m1 else pmm_free_page (entry_addr e1) m1)"

text \<open>The virtual address \<open>vmm_clone_user_pagetable\<close> rebuilds from four table indices.\<close>

definition va_of :: "nat \<Rightarrow> nat \<Rightarrow> nat \<Rightarrow> nat \<Rightarrow> addr" where
  "va_of i4 i3 i2 i1 = push_bit 39 (of_nat i4) OR push_bit 30 (of_nat i3)
                       OR push_bit 21 (of_nat i2) OR push_bit 12 (of_nat i1)"

definition clone_leaf ::
  "addr \<Rightarrow> nat \<Rightarrow> nat \<Rightarrow> nat \<Rightarrow> addr \<Rightarrow> nat \<Rightarrow> 'a machine_scheme \<Rightarrow> 'a machine_scheme" where
  "clone_leaf dst_pml4 i4 i3 i2 src_pt i1 m =
     (let e = rd m src_pt i1 in
      if \<not> has_flag e PTE_PRESENT then m else
      let flags = e AND FLAG_MASK;
          phys = e AND ADDR_MASK;
          cow = has_flag flags PTE_WRITABLE \<and> \<not> has_flag flags (PTE_SHARED OR PTE_NOPMM);
          flags1 = (if cow then (flags AND NOT PTE_WRITABLE) OR PTE_COW else flags);
          m1 = (if cow then wr src_pt i1 (phys OR flags1) m else m);
          m2 = (if has_flag flags1 PTE_NOPMM then m1 else pmm_page_ref_inc phys m1)
      in vmm_map_page dst_pml4 (va_of i4 i3 i2 i1) phys flags1 m2)"

definition clone_pt :: "addr \<Rightarrow> nat \<Rightarrow> nat \<Rightarrow> nat \<Rightarrow> addr \<Rightarrow> 'a machine_scheme \<Rightarrow> 'a machine_scheme" where
  "clone_pt dst i4 i3 i2 src_pt = fold (clone_leaf dst i4 i3 i2 src_pt) table_slots"

definition clone_pd :: "addr \<Rightarrow> nat \<Rightarrow> nat \<Rightarrow> addr \<Rightarrow> 'a machine_scheme \<Rightarrow> 'a machine_scheme" where
  "clone_pd dst i4 i3 src_pd = fold (\<lambda>i2 m. if \<not> has_flag (rd m src_pd i2) PTE_PRESENT then m
       else clone_pt dst i4 i3 i2 (entry_addr (rd m src_pd i2)) m) table_slots"

definition clone_pdpt :: "addr \<Rightarrow> nat \<Rightarrow> addr \<Rightarrow> 'a machine_scheme \<Rightarrow> 'a machine_scheme" where
  "clone_pdpt dst i4 src_pdpt = fold (\<lambda>i3 m. if \<not> has_flag (rd m src_pdpt i3) PTE_PRESENT then m
       else clone_pd dst i4 i3 (entry_addr (rd m src_pdpt i3)) m) table_slots"

definition vmm_clone_user_pagetable :: "addr \<Rightarrow> 'a machine_scheme \<Rightarrow> addr option \<times> 'a machine_scheme" where
  "vmm_clone_user_pagetable src m =
     (case vmm_new_user_pagetable m of
        (None, m1) \<Rightarrow> (None, m1)
      | (Some dst, m1) \<Rightarrow>
          (Some dst, fold (\<lambda>i4 m. if \<not> has_flag (rd m src i4) PTE_PRESENT then m
                                  else clone_pdpt dst i4 (entry_addr (rd m src i4)) m) user_slots m1))"

definition vmm_handle_cow_fault :: "addr \<Rightarrow> addr \<Rightarrow> 'a machine_scheme \<Rightarrow> bool \<times> 'a machine_scheme" where
  "vmm_handle_cow_fault pml4 va m =
     (let e4 = rd m pml4 (pml4_entry va) in
      if \<not> has_flag e4 PTE_PRESENT then (False, m) else
      let e3 = rd m (entry_addr e4) (pdpt_entry va) in
      if \<not> has_flag e3 PTE_PRESENT then (False, m) else
      let e2 = rd m (entry_addr e3) (pd_entry va) in
      if \<not> has_flag e2 PTE_PRESENT then (False, m) else
      let pt = entry_addr e2; e1 = rd m pt (pt_entry va) in
      if \<not> has_flag e1 PTE_PRESENT \<or> \<not> has_flag e1 PTE_COW then (False, m) else
      let phys = entry_addr e1;
          flags = (e1 AND FLAG_MASK AND NOT PTE_COW) OR PTE_WRITABLE in
      if pmm_page_refcount m phys = 1 then (True, wr pt (pt_entry va) (phys OR flags) m)
      else case pmm_alloc_page m of
        (new, m1) \<Rightarrow> if new = NULL then (False, m1)
          else (True, pmm_free_page phys (wr pt (pt_entry va) (new OR flags) (copy_page new phys m1))))"

text \<open>\<open>init_vmm\<close> takes the active CR3; \<open>msr_pat\<close> is the page attribute table register.\<close>

definition vmm_init_pat :: "'a machine_scheme \<Rightarrow> 'a machine_scheme" where
  "vmm_init_pat m = m\<lparr>msr_pat := 0x0007040600070106\<rparr>"

definition init_vmm :: "u64 \<Rightarrow> 'a machine_scheme \<Rightarrow> 'a machine_scheme" where
  "init_vmm cr3 m = vmm_init_pat (m\<lparr>kernel_pml4 := cr3 AND ADDR_MASK\<rparr>)"

section \<open>Entries and indices\<close>

lemma has_flag_or: "has_flag (a OR b) f \<longleftrightarrow> has_flag a f \<or> has_flag b f"
  by (auto simp: has_flag_def bit_eq_iff bit_simps)

lemma has_flag_0 [simp]: "\<not> has_flag 0 f"
  by (simp add: has_flag_def)

lemma and_0x1FF: "(w::u64) AND 0x1FF = take_bit 9 w"
  by (simp add: take_bit_eq_mask mask_eq_exp_minus_1)

lemmas index_defs = pml4_entry_def pdpt_entry_def pd_entry_def pt_entry_def

lemma index_bounds [simp]:
  "pml4_entry va < 512" "pdpt_entry va < 512" "pd_entry va < 512" "pt_entry va < 512"
  unfolding index_defs and_0x1FF using take_bit_nat_less_exp [of 9]
  by (simp_all add: unsigned_take_bit_eq)

lemma frame_no_drop_bit: "frame_no a = unat (drop_bit 12 a)"
  by (simp add: frame_no_def unat_div drop_bit_eq_div)

lemma frame_addr_push_bit: "frame_addr n = push_bit 12 (of_nat n)"
  by (simp add: frame_addr_def push_bit_eq_mult)

lemma bit_ADDR_MASK: "bit ADDR_MASK k \<longleftrightarrow> 12 \<le> k \<and> k < 52"
proof -
  have eq: "ADDR_MASK = push_bit 12 (mask 40)"
    by (simp add: ADDR_MASK_def push_bit_eq_mult mask_eq_exp_minus_1)
  show ?thesis unfolding eq by (auto simp: bit_simps)
qed

lemma bit_FLAG_MASK: "bit FLAG_MASK k \<longleftrightarrow> k < 64 \<and> \<not> (12 \<le> k \<and> k < 52)"
proof -
  have eq: "FLAG_MASK = NOT ADDR_MASK" by (simp add: FLAG_MASK_def ADDR_MASK_def)
  show ?thesis unfolding eq by (auto simp: bit_simps bit_ADDR_MASK)
qed

lemma entry_addr_aligned [simp]: "frame_addr (frame_no (entry_addr e)) = entry_addr e"
proof -
  have "frame_addr (frame_no (entry_addr e)) = push_bit 12 (drop_bit 12 (e AND ADDR_MASK))"
    by (simp add: frame_addr_push_bit frame_no_drop_bit entry_addr_def)
  also have "\<dots> = e AND ADDR_MASK"
    by (rule bit_eqI) (auto simp: bit_simps bit_ADDR_MASK)
  finally show ?thesis by (simp add: entry_addr_def)
qed

lemma bit_frame_addr: "n < 2 ^ 40 \<Longrightarrow> bit (frame_addr n) k \<Longrightarrow> 12 \<le> k \<and> k < 52"
proof -
  assume n: "n < 2 ^ 40" and b: "bit (frame_addr n) k"
  then have k: "12 \<le> k" "bit n (k - 12)" by (auto simp: frame_addr_push_bit bit_simps)
  have "n = take_bit 40 n" using n by (simp add: take_bit_nat_eq_self)
  then have "k - 12 < 40" using k(2) by (metis bit_take_bit_iff)
  then show ?thesis using k by simp
qed

text \<open>An entry built from a frame address and flag bits gives both back.\<close>

lemma entry_addr_make:
  assumes "n < 2 ^ 40" "f AND ADDR_MASK = 0"
  shows "entry_addr (frame_addr n OR f) = frame_addr n"
proof -
  have "bit (entry_addr (frame_addr n OR f)) k = bit (frame_addr n) k" for k
    using arg_cong [OF assms(2), of "\<lambda>w. bit w k"] bit_frame_addr [OF assms(1), of k]
    by (auto simp: entry_addr_def bit_simps bit_ADDR_MASK)
  then show ?thesis by (simp add: bit_eq_iff)
qed

lemma has_flag_frame_addr:
  assumes "n < 2 ^ 40" "f AND ADDR_MASK = 0"
  shows "\<not> has_flag (frame_addr n) f"
  using assms(2) bit_frame_addr [OF assms(1)]
  by (auto simp: has_flag_def bit_eq_iff bit_simps bit_ADDR_MASK)

section \<open>The page-table tree\<close>

text \<open>
  The table (or, four levels down, the page) a list of indices leads to from a table, if every entry on
  the way is present; the entry at the end of a non-empty path, 0 when the path breaks off before it.
\<close>

fun walk :: "'a machine_scheme \<Rightarrow> addr \<Rightarrow> nat list \<Rightarrow> addr option" where
  "walk m t [] = Some t"
| "walk m t (i # is) =
     (if has_flag (rd m t i) PTE_PRESENT then walk m (entry_addr (rd m t i)) is else None)"

definition entry_at :: "'a machine_scheme \<Rightarrow> addr \<Rightarrow> nat list \<Rightarrow> u64" where
  "entry_at m r p = (if p = [] then 0
     else case walk m r (butlast p) of None \<Rightarrow> 0 | Some t \<Rightarrow> rd m t (last p))"

definition vpath :: "addr \<Rightarrow> nat list" where
  "vpath va = [pml4_entry va, pdpt_entry va, pd_entry va, pt_entry va]"

text \<open>The present leaf entry for a virtual address: what the processor's own walk finds.\<close>

definition lookup :: "'a machine_scheme \<Rightarrow> addr \<Rightarrow> addr \<Rightarrow> u64 option" where
  "lookup m r va = (let e = entry_at m r (vpath va) in if has_flag e PTE_PRESENT then Some e else None)"

text \<open>Paths of the user half of an address space, root tables included.\<close>

definition user_path :: "nat list \<Rightarrow> bool" where
  "user_path p \<longleftrightarrow> length p \<le> 4 \<and> (\<forall>i\<in>set p. i < 512) \<and> (p \<noteq> [] \<longrightarrow> hd p < 256)"

definition user_va :: "addr \<Rightarrow> bool" where
  "user_va va \<longleftrightarrow> pml4_entry va < 256"

text \<open>Who a frame belongs to: the table slots of the address spaces \<open>R\<close> that refer to it.\<close>

definition refs :: "'a machine_scheme \<Rightarrow> addr set \<Rightarrow> nat \<Rightarrow> (addr \<times> nat list) set" where
  "refs m R f = {(r, p). r \<in> R \<and> user_path p \<and> (length p = 4 \<longrightarrow> \<not> has_flag (entry_at m r p) PTE_NOPMM)
                   \<and> (\<exists>t. walk m r p = Some t \<and> frame_no t = f)}"

definition owners_of :: "'a pmm_scheme \<Rightarrow> nat \<Rightarrow> nat" where
  "owners_of m f = (case frame_state m f of None \<Rightarrow> 0 | Some n \<Rightarrow> n)"

lemma owners_le: "owners_of m f \<le> 65535"
proof -
  have "unat (w::u16) < 2 ^ 16" for w using unat_less_two_power [of w] by simp
  then have "unat (w::u16) \<le> 65535" for w by (simp add: less_Suc_eq_le [symmetric])
  then show ?thesis by (simp add: owners_of_def frame_state_def)
qed

text \<open>
  The accounting invariant. \<open>X f\<close> is the number of references to frame \<open>f\<close> held outside the page tables
  of \<open>R\<close> (by the kernel itself). Every reference is counted, and a frame that serves as a page table
  has no other use: with the last clause this makes the tables of all address spaces one forest.
\<close>

definition vm_inv :: "'a machine_scheme \<Rightarrow> addr set \<Rightarrow> (nat \<Rightarrow> nat) \<Rightarrow> bool" where
  "vm_inv m R X \<longleftrightarrow> pmm_ok m \<and> npages m \<le> 2 ^ 40 \<and> finite R
     \<and> (\<forall>r\<in>R. frame_addr (frame_no r) = r)
     \<and> (\<forall>r\<in>R. \<forall>p t. user_path p \<and> length p \<le> 3 \<and> walk m r p = Some t \<longrightarrow> owners_of m (frame_no t) = 1)
     \<and> (\<forall>f. refs m R f \<noteq> {} \<longrightarrow> 0 < f \<and> f < npages m)
     \<and> (\<forall>f<npages m. owners_of m f = card (refs m R f) + X f)"

lemma vm_invI:
  assumes "pmm_ok m" "npages m \<le> 2 ^ 40" "finite R" "\<And>r. r \<in> R \<Longrightarrow> frame_addr (frame_no r) = r"
    and "\<And>r p t. r \<in> R \<Longrightarrow> user_path p \<Longrightarrow> length p \<le> 3 \<Longrightarrow> walk m r p = Some t \<Longrightarrow>
      owners_of m (frame_no t) = 1"
    and "\<And>f. refs m R f \<noteq> {} \<Longrightarrow> 0 < f \<and> f < npages m"
    and "\<And>f. f < npages m \<Longrightarrow> owners_of m f = card (refs m R f) + X f"
  shows "vm_inv m R X"
  using assms unfolding vm_inv_def by blast

lemma vm_invD:
  assumes "vm_inv m R X"
  shows "pmm_ok m" "npages m \<le> 2 ^ 40" "finite R" "\<And>r. r \<in> R \<Longrightarrow> frame_addr (frame_no r) = r"
    and "\<And>f. refs m R f \<noteq> {} \<Longrightarrow> 0 < f \<and> f < npages m"
    and "\<And>f. f < npages m \<Longrightarrow> owners_of m f = card (refs m R f) + X f"
  using assms unfolding vm_inv_def by blast+

subsection \<open>Paths\<close>

lemma walk_append:
  "walk m t (p @ q) = (case walk m t p of None \<Rightarrow> None | Some u \<Rightarrow> walk m u q)"
  by (induction p arbitrary: t) auto

lemma walk_snoc: "walk m t (p @ [i]) = (case walk m t p of None \<Rightarrow> None
     | Some u \<Rightarrow> if has_flag (rd m u i) PTE_PRESENT then Some (entry_addr (rd m u i)) else None)"
  by (simp add: walk_append split: option.split)

lemma entry_at_snoc: "entry_at m r (p @ [i]) = (case walk m r p of None \<Rightarrow> 0 | Some t \<Rightarrow> rd m t i)"
  by (simp add: entry_at_def split: option.split)

lemma walk_entry_at:
  "p \<noteq> [] \<Longrightarrow> walk m r p = (if has_flag (entry_at m r p) PTE_PRESENT
     then Some (entry_addr (entry_at m r p)) else None)"
  by (cases p rule: rev_cases) (auto simp: walk_snoc entry_at_snoc split: option.split)

lemma user_path_snoc [simp]: "user_path (p @ [i]) \<longleftrightarrow>
    user_path p \<and> length p \<le> 3 \<and> i < 512 \<and> (p = [] \<longrightarrow> i < 256)"
  by (auto simp: user_path_def hd_append)

lemma user_path_Nil [simp]: "user_path []"
  by (simp add: user_path_def)

lemma user_path_vpath [simp]: "user_path (vpath va) \<longleftrightarrow> user_va va"
  by (simp add: user_path_def vpath_def user_va_def)

lemma length_vpath [simp]: "length (vpath va) = 4"
  by (simp add: vpath_def)

lemma finite_user_paths: "finite {p. user_path p}"
proof (rule finite_subset)
  show "{p. user_path p} \<subseteq> {p. set p \<subseteq> {..<512} \<and> length p \<le> 4}" by (auto simp: user_path_def)
  show "finite {p. set p \<subseteq> {..<512::nat} \<and> length p \<le> 4}" by (rule finite_lists_length_le) simp
qed

lemma finite_refs: "finite R \<Longrightarrow> finite (refs m R f)"
  by (rule finite_subset [of _ "R \<times> {p. user_path p}"]) (auto simp: refs_def finite_user_paths)

lemma refs_table:
  "r \<in> R \<Longrightarrow> user_path p \<Longrightarrow> length p \<le> 3 \<Longrightarrow> walk m r p = Some t \<Longrightarrow> (r, p) \<in> refs m R (frame_no t)"
  by (simp add: refs_def)

subsection \<open>The tables form a forest\<close>

lemma vm_inv_table:
  assumes "vm_inv m R X" "r \<in> R" "user_path p" "length p \<le> 3" "walk m r p = Some t"
  shows "owners_of m (frame_no t) = 1" "0 < frame_no t" "frame_no t < npages m"
    "refs m R (frame_no t) = {(r, p)}" "X (frame_no t) = 0"
proof -
  let ?f = "frame_no t"
  have ref: "(r, p) \<in> refs m R ?f" using refs_table [OF assms(2-5)] .
  show one: "owners_of m ?f = 1" and f: "0 < ?f" "?f < npages m"
    using assms ref unfolding vm_inv_def by blast+
  have "card (refs m R ?f) + X ?f = 1" using vm_invD(6) [OF assms(1) f(2)] one by simp
  moreover have "finite (refs m R ?f)" using finite_refs [OF vm_invD(3) [OF assms(1)]] .
  then have "card (refs m R ?f) \<noteq> 0" using ref by auto
  ultimately have c: "card (refs m R ?f) = 1" and x: "X ?f = 0" by auto
  show "X ?f = 0" by (rule x)
  obtain s where "refs m R ?f = {s}" using c by (rule card_1_singletonE)
  then show "refs m R ?f = {(r, p)}" using ref by simp
qed

lemma table_unique:
  assumes "vm_inv m R X" "r \<in> R" "user_path p" "length p \<le> 3" "walk m r p = Some t"
    and "r' \<in> R" "user_path p'" "length p' \<le> 3" "walk m r' p' = Some t'" "frame_no t' = frame_no t"
  shows "r' = r \<and> p' = p"
  using vm_inv_table(4) [OF assms(1-5)] refs_table [OF assms(6-9)] assms(10) by auto

subsection \<open>Writing outside the tables\<close>

lemma walk_cong:
  assumes "\<And>p t. user_path p \<Longrightarrow> length p \<le> 3 \<Longrightarrow> walk m r p = Some t \<Longrightarrow>
      phys_mem m' (frame_no t) = phys_mem m (frame_no t)" and "user_path p"
  shows "walk m' r p = walk m r p"
  using assms(2)
proof (induction p rule: rev_induct)
  case (snoc i p)
  then have "walk m' r p = walk m r p" by simp
  then show ?case using assms(1) [of p] snoc.prems by (cases "walk m r p") (simp_all add: walk_snoc rd_def)
qed simp

lemma entry_at_cong:
  assumes "\<And>p t. user_path p \<Longrightarrow> length p \<le> 3 \<Longrightarrow> walk m r p = Some t \<Longrightarrow>
      phys_mem m' (frame_no t) = phys_mem m (frame_no t)" and "user_path p"
  shows "entry_at m' r p = entry_at m r p"
proof (cases p rule: rev_cases)
  case Nil
  then show ?thesis by (simp add: entry_at_def)
next
  case (snoc q i)
  have "walk m' r q = walk m r q" using assms(2) snoc by (intro walk_cong assms(1)) auto
  then show ?thesis using assms(1) [of q] assms(2)
    by (auto simp: snoc entry_at_snoc rd_def split: option.split)
qed

subsection \<open>Writing one slot of a table\<close>

lemma rd_wr: "rd (wr t i v m) u j = (if frame_no u = frame_no t \<and> j = i then v else rd m u j)"
  by (simp add: rd_def wr_def)

lemma walk_wr:
  assumes inv: "vm_inv m R X" and q: "r \<in> R" "user_path q" "length q \<le> 3" "walk m r q = Some t"
    and p: "r' \<in> R" "user_path p" "\<not> (r' = r \<and> prefix (q @ [i]) p)"
  shows "walk (wr t i v m) r' p = walk m r' p"
  using p(2,3)
proof (induction p rule: rev_induct)
  case (snoc j p)
  have ih: "walk (wr t i v m) r' p = walk m r' p" using snoc by auto
  show ?case
  proof (cases "walk m r' p")
    case (Some u)
    have "\<not> (frame_no u = frame_no t \<and> j = i)"
      using table_unique [OF inv q p(1) _ _ Some] snoc.prems by auto
    then show ?thesis using ih Some by (auto simp: walk_snoc rd_wr)
  qed (simp add: walk_snoc ih)
qed simp

lemma entry_at_wr:
  assumes inv: "vm_inv m R X" and q: "r \<in> R" "user_path q" "length q \<le> 3" "walk m r q = Some t"
    and p: "r' \<in> R" "user_path p" "\<not> (r' = r \<and> strict_prefix (q @ [i]) p)"
  shows "entry_at (wr t i v m) r' p = (if r' = r \<and> p = q @ [i] then v else entry_at m r' p)"
proof (cases p rule: rev_cases)
  case Nil
  then show ?thesis by (simp add: entry_at_def)
next
  case (snoc s j)
  have s: "user_path s" "length s \<le> 3" using p snoc by auto
  have w: "walk (wr t i v m) r' s = walk m r' s"
    using p snoc by (intro walk_wr [OF inv q p(1) s(1)]) (auto simp: strict_prefix_def)
  show ?thesis
  proof (cases "walk m r' s")
    case None
    then show ?thesis using q(4) w by (auto simp: snoc entry_at_snoc)
  next
    case (Some u)
    have "frame_no u = frame_no t \<Longrightarrow> r' = r \<and> s = q"
      using table_unique [OF inv q p(1) s Some] by auto
    moreover have "r' = r \<Longrightarrow> s = q \<Longrightarrow> u = t" using Some q(4) by auto
    ultimately have "rd (wr t i v m) u j = (if r' = r \<and> p = q @ [i] then v else rd m u j)"
      unfolding rd_wr snoc append1_eq_conv by metis
    then show ?thesis unfolding snoc entry_at_snoc w Some option.case .
  qed
qed

lemma not_below_leaf: "length q = 3 \<Longrightarrow> user_path p \<Longrightarrow> \<not> strict_prefix (q @ [i]) p"
  by (auto simp: user_path_def strict_prefix_def prefix_def)

subsection \<open>What each primitive leaves alone\<close>

lemma pmm_fields_phys_mem [frame_simps]:
  "frame_state (m\<lparr>phys_mem := x\<rparr>) = frame_state m" "npages (m\<lparr>phys_mem := x\<rparr>) = npages m"
  "pmm_ok (m\<lparr>phys_mem := x\<rparr>) = pmm_ok m" "owners_of (m\<lparr>phys_mem := x\<rparr>) = owners_of m"
proof -
  show n: "npages (m\<lparr>phys_mem := x\<rparr>) = npages m" by (simp add: npages_def)
  have b: "bitmap_test (m\<lparr>phys_mem := x\<rparr>) = bitmap_test m"
    by (simp add: fun_eq_iff bitmap_test_def bitmap_byte_def refcount_byte_def)
  show s: "frame_state (m\<lparr>phys_mem := x\<rparr>) = frame_state m"
    by (simp add: fun_eq_iff frame_state_def n b)
  show "pmm_ok (m\<lparr>phys_mem := x\<rparr>) = pmm_ok m"
    by (simp add: pmm_ok_def pmm_wf_def page0_reserved_def n b)
  show "owners_of (m\<lparr>phys_mem := x\<rparr>) = owners_of m" by (simp add: fun_eq_iff owners_of_def s)
qed

lemma mem_ops_pmm [frame_simps]:
  "frame_state (wr t i v m) = frame_state m" "npages (wr t i v m) = npages m"
  "pmm_ok (wr t i v m) = pmm_ok m" "owners_of (wr t i v m) = owners_of m"
  "frame_state (zero_page a m) = frame_state m" "npages (zero_page a m) = npages m"
  "pmm_ok (zero_page a m) = pmm_ok m" "owners_of (zero_page a m) = owners_of m"
  "frame_state (copy_page a b m) = frame_state m" "npages (copy_page a b m) = npages m"
  "pmm_ok (copy_page a b m) = pmm_ok m" "owners_of (copy_page a b m) = owners_of m"
  by (simp_all add: wr_def zero_page_def copy_page_def frame_simps)

text \<open>The allocator's operations update its own three fields and no other part of a larger state.\<close>

lemma pmm_rest:
  "pmm.more (bitmap_set i p) = pmm.more p" "pmm.more (bitmap_clear i p) = pmm.more p"
  by (simp_all add: bitmap_set_def bitmap_clear_def bitmap_put_def refcount_put_byte_def)

lemma pmm_upd_eq:
  assumes "pmm.more q = pmm.more p" "hhdm_offset q = hhdm_offset p" "highest_address q = highest_address p"
  shows "q = p\<lparr>bitmap := bitmap q, bitmap_index := bitmap_index q, refcounts := refcounts q\<rparr>"
  using assms by (intro pmm.equality) simp_all

lemma pmm_alloc_page_upd:
  "\<exists>b k c. snd (pmm_alloc_page p) = p\<lparr>bitmap := b, bitmap_index := k, refcounts := c\<rparr>"
proof -
  have "pmm.more (snd (pmm_alloc_page p)) = pmm.more p
      \<and> hhdm_offset (snd (pmm_alloc_page p)) = hhdm_offset p
      \<and> highest_address (snd (pmm_alloc_page p)) = highest_address p"
    by (simp add: pmm_alloc_page_def pmm_take_def Let_def pmm_rest frame_simps split: option.split)
  then show ?thesis using pmm_upd_eq [of "snd (pmm_alloc_page p)" p] by blast
qed

lemma pmm_free_page_upd:
  "\<exists>b k c. pmm_free_page a p = p\<lparr>bitmap := b, bitmap_index := k, refcounts := c\<rparr>"
proof -
  have "pmm.more (pmm_free_page a p) = pmm.more p \<and> hhdm_offset (pmm_free_page a p) = hhdm_offset p
      \<and> highest_address (pmm_free_page a p) = highest_address p"
    by (simp add: pmm_free_page_def Let_def pmm_rest frame_simps)
  then show ?thesis using pmm_upd_eq [of "pmm_free_page a p" p] by blast
qed

lemma pmm_page_ref_inc_upd: "\<exists>c. pmm_page_ref_inc a p = p\<lparr>refcounts := c\<rparr>"
  by (auto simp: pmm_page_ref_inc_def Let_def)

lemma pmm_ops_mem [frame_simps]:
  "phys_mem (snd (pmm_alloc_page m)) = phys_mem m" "kernel_pml4 (snd (pmm_alloc_page m)) = kernel_pml4 m"
  "phys_mem (pmm_free_page a m) = phys_mem m" "kernel_pml4 (pmm_free_page a m) = kernel_pml4 m"
  "phys_mem (pmm_page_ref_inc a m) = phys_mem m" "kernel_pml4 (pmm_page_ref_inc a m) = kernel_pml4 m"
  using pmm_alloc_page_upd [of m] pmm_free_page_upd [of a m] pmm_page_ref_inc_upd [of a m] by auto

lemma mem_cong:
  assumes "phys_mem m' = phys_mem m"
  shows "rd m' = rd m" "walk m' = walk m" "entry_at m' = entry_at m" "lookup m' = lookup m"
    "refs m' = refs m"
proof -
  show r: "rd m' = rd m" by (simp add: fun_eq_iff rd_def assms)
  have "walk m' t p = walk m t p" for t p by (induction p arbitrary: t) (simp_all add: r)
  then show w: "walk m' = walk m" by (simp add: fun_eq_iff)
  show e: "entry_at m' = entry_at m" unfolding fun_eq_iff entry_at_def r w by simp
  show "lookup m' = lookup m" by (simp add: fun_eq_iff lookup_def e)
  show "refs m' = refs m" by (simp add: fun_eq_iff refs_def e w)
qed

subsection \<open>How the primitives move ownership\<close>

text \<open>Whether an entry holds a counted reference to a frame.\<close>

definition pays :: "u64 \<Rightarrow> nat \<Rightarrow> nat" where
  "pays e f = (if has_flag e PTE_PRESENT \<and> \<not> has_flag e PTE_NOPMM \<and> frame_no (entry_addr e) = f
               then 1 else 0)"

lemma pays_0 [simp]: "pays 0 f = 0"
  by (simp add: pays_def)

lemma refs_leaf:
  "length p = 4 \<Longrightarrow> (r, p) \<in> refs m R f \<longleftrightarrow> r \<in> R \<and> user_path p \<and> pays (entry_at m r p) f = 1"
proof -
  assume l: "length p = 4"
  then have "p \<noteq> []" by auto
  from walk_entry_at [OF this, of m r] l show ?thesis by (auto simp: refs_def pays_def split: if_splits)
qed

lemma refs_inner:
  "p \<noteq> [] \<Longrightarrow> length p \<le> 3 \<Longrightarrow> (r, p) \<in> refs m R f \<longleftrightarrow> r \<in> R \<and> user_path p
     \<and> has_flag (entry_at m r p) PTE_PRESENT \<and> frame_no (entry_addr (entry_at m r p)) = f"
  using walk_entry_at [of p m r] by (auto simp: refs_def split: if_splits)

lemma refs_root: "(r, []) \<in> refs m R f \<longleftrightarrow> r \<in> R \<and> frame_no r = f"
  by (auto simp: refs_def)

lemma walk_entry_cong: "entry_at m' r p = entry_at m r p \<Longrightarrow> walk m' r p = walk m r p"
  by (cases "p = []") (simp_all add: walk_entry_at)

lemma refs_entry_cong:
  assumes "\<And>r p. r \<in> R \<Longrightarrow> user_path p \<Longrightarrow> entry_at m' r p = entry_at m r p"
  shows "refs m' R = refs m R"
proof -
  have "walk m' r p = walk m r p" if "r \<in> R" "user_path p" for r p
    using assms [OF that] by (rule walk_entry_cong)
  then show ?thesis using assms by (auto simp: fun_eq_iff refs_def)
qed

lemma leaf_write_entry:
  assumes inv: "vm_inv m R X" and q: "r \<in> R" "user_path q" "length q = 3" "walk m r q = Some t"
    and p: "r' \<in> R" "user_path p"
  shows "entry_at (wr t i v m) r' p = (if r' = r \<and> p = q @ [i] then v else entry_at m r' p)"
  using entry_at_wr [OF inv q(1,2) _ q(4) p] not_below_leaf [OF q(3) p(2)] q(3) by simp

lemma leaf_write_walk:
  assumes inv: "vm_inv m R X" and q: "r \<in> R" "user_path q" "length q = 3" "walk m r q = Some t"
    and p: "r' \<in> R" "user_path p" "length p \<le> 3"
  shows "walk (wr t i v m) r' p = walk m r' p"
  using p q(3) by (intro walk_wr [OF inv q(1,2) _ q(4)]) (auto simp: prefix_def)

lemma card_exchange:
  assumes "finite A" "finite B" "A - {s} = B - {s}"
  shows "card A + (if s \<in> B then 1 else 0) = card B + (if s \<in> A then 1 else 0)"
proof -
  have c: "card C = card (C - {s}) + (if s \<in> C then 1 else 0)" if "finite C" for C
    using card_Suc_Diff1 [OF that, of s] by (cases "s \<in> C") (simp_all del: card_Diff_singleton)
  define d where "d = card (B - {s})"
  have "card A = d + (if s \<in> A then 1 else 0)" "card B = d + (if s \<in> B then 1 else 0)"
    using c [OF assms(1)] c [OF assms(2)] unfolding assms(3) d_def .
  then show ?thesis by simp
qed

lemma leaf_write_refs:
  assumes inv: "vm_inv m R X" and q: "r \<in> R" "user_path q" "length q = 3" "walk m r q = Some t" "i < 512"
  shows "card (refs (wr t i v m) R f) + pays (entry_at m r (q @ [i])) f = card (refs m R f) + pays v f"
proof -
  let ?s = "(r, q @ [i])"
  have up: "user_path (q @ [i])" "length (q @ [i]) = 4" using q by auto
  have ne: "((r', p) \<in> refs (wr t i v m) R f) = ((r', p) \<in> refs m R f)" if "(r', p) \<noteq> ?s" for r' p
  proof (cases "r' \<in> R \<and> user_path p")
    case True
    then have e: "entry_at (wr t i v m) r' p = entry_at m r' p"
      using leaf_write_entry [OF inv q(1-4)] that by auto
    then have "walk (wr t i v m) r' p = walk m r' p" by (rule walk_entry_cong)
    then show ?thesis using e by (simp add: refs_def)
  qed (auto simp: refs_def)
  have s: "?s \<in> refs (wr t i v m) R f \<longleftrightarrow> pays v f = 1"
    "?s \<in> refs m R f \<longleftrightarrow> pays (entry_at m r (q @ [i])) f = 1"
    using leaf_write_entry [OF inv q(1-4) q(1) up(1), of i v] q(1) up(1)
    by (simp_all add: refs_leaf [OF up(2)])
  have fin: "finite (refs m R f)" "finite (refs (wr t i v m) R f)"
    using inv by (simp_all add: vm_inv_def finite_refs)
  have D: "refs (wr t i v m) R f - {?s} = refs m R f - {?s}" using ne by auto
  note step = card_exchange [OF fin(2,1) D]
  have p01: "(if pays w f = 1 then 1 else 0) = pays w f" for w by (simp add: pays_def)
  show ?thesis using step unfolding s p01 .
qed

lemma vm_inv_write_leaf:
  assumes inv: "vm_inv m R X" and q: "r \<in> R" "user_path q" "length q = 3" "walk m r q = Some t" "i < 512"
    and v: "\<And>f. pays v f = 1 \<Longrightarrow> 0 < f \<and> f < npages m"
    and X: "\<And>f. f < npages m \<Longrightarrow> X' f + pays v f = X f + pays (entry_at m r (q @ [i])) f"
  shows "vm_inv (wr t i v m) R X'"
proof -
  have c: "owners_of m f = card (refs (wr t i v m) R f) + X' f" if "f < npages m" for f
  proof -
    have "owners_of m f = card (refs m R f) + X f" using inv that by (simp add: vm_inv_def)
    then show ?thesis using leaf_write_refs [OF inv q, of v f] X [OF that] by linarith
  qed
  have r: "0 < f \<and> f < npages m" if "refs (wr t i v m) R f \<noteq> {}" for f
  proof (rule ccontr)
    assume n: "\<not> (0 < f \<and> f < npages m)"
    then have "refs m R f = {}" "pays v f = 0" using inv v [of f] by (auto simp: vm_inv_def pays_def)
    then have "card (refs (wr t i v m) R f) = 0" using leaf_write_refs [OF inv q, of v f] by simp
    then show False using that inv by (simp add: vm_inv_def finite_refs)
  qed
  have w: "owners_of m (frame_no u) = 1" if "r' \<in> R" "user_path p" "length p \<le> 3"
      "walk (wr t i v m) r' p = Some u" for r' p u
    using that leaf_write_walk [OF inv q(1-4) that(1-3)] inv by (simp add: vm_inv_def)
  show ?thesis using inv c r w by (intro vm_invI) (auto simp: vm_inv_def frame_simps)
qed

end
