(* ===== verification/Vmm_Ops.thy ===== *)
theory Vmm_Ops
  imports Vmm
begin

text \<open>
  What the operations of \<^verbatim>\<open>vmm.c\<close> do to the address spaces: each keeps the accounting invariant
  \<open>vm_inv\<close>, changes the translation it names, and leaves every other translation of every address
  space alone.
\<close>

section \<open>Allocator steps and the accounting invariant\<close>

text \<open>A frame that no address space uses as a page table.\<close>

definition data_frame :: "'a machine_scheme \<Rightarrow> addr set \<Rightarrow> nat \<Rightarrow> bool" where
  "data_frame m R f \<longleftrightarrow>
     (\<forall>r\<in>R. \<forall>p t. user_path p \<and> length p \<le> 3 \<and> walk m r p = Some t \<longrightarrow> frame_no t \<noteq> f)"

lemma data_frameD:
  "data_frame m R f \<Longrightarrow> r \<in> R \<Longrightarrow> user_path p \<Longrightarrow> length p \<le> 3 \<Longrightarrow> walk m r p = Some t \<Longrightarrow> frame_no t \<noteq> f"
  by (auto simp: data_frame_def)

lemma owned_data_frame: "vm_inv m R X \<Longrightarrow> 0 < X f \<Longrightarrow> data_frame m R f"
  using vm_inv_table(5) unfolding data_frame_def by fastforce

lemma unreferenced_data_frame: "refs m R f = {} \<Longrightarrow> data_frame m R f"
  by (auto simp: data_frame_def dest: refs_table)

lemma leaf_data_frame:
  assumes inv: "vm_inv m R X" and p: "r \<in> R" "user_path p" "length p = 4" "pays (entry_at m r p) f = 1"
  shows "data_frame m R f"
proof -
  have s: "(r, p) \<in> refs m R f" using p by (simp add: refs_leaf)
  have "frame_no t \<noteq> f" if "r' \<in> R" "user_path q" "length q \<le> 3" "walk m r' q = Some t" for r' q t
  proof
    assume "frame_no t = f"
    then have "(r, p) \<in> {(r', q)}" using s vm_inv_table(4) [OF inv that] by simp
    then show False using p(3) that(3) by simp
  qed
  then show ?thesis unfolding data_frame_def by blast
qed

lemma data_write:
  assumes "data_frame m R f" "r \<in> R" "user_path p"
  shows "entry_at (m\<lparr>phys_mem := (phys_mem m)(f := x)\<rparr>) r p = entry_at m r p"
    "walk (m\<lparr>phys_mem := (phys_mem m)(f := x)\<rparr>) r p = walk m r p"
  using assms unfolding data_frame_def by (auto intro!: entry_at_cong walk_cong)

lemma data_write_refs:
  "data_frame m R f \<Longrightarrow> refs (m\<lparr>phys_mem := (phys_mem m)(f := x)\<rparr>) R = refs m R"
  by (rule refs_entry_cong) (rule data_write)

lemma vm_inv_data_write:
  assumes "vm_inv m R X" "data_frame m R f"
  shows "vm_inv (m\<lparr>phys_mem := (phys_mem m)(f := x)\<rparr>) R X"
proof (rule vm_invI)
  fix r p t assume p: "r \<in> R" "user_path p" "length p \<le> 3"
    "walk (m\<lparr>phys_mem := (phys_mem m)(f := x)\<rparr>) r p = Some t"
  then have "walk m r p = Some t" using data_write(2) [OF assms(2), of r p x] by simp
  then show "owners_of (m\<lparr>phys_mem := (phys_mem m)(f := x)\<rparr>) (frame_no t) = 1"
    using vm_inv_table(1) [OF assms(1) p(1-3)] by (simp add: frame_simps)
qed (use vm_invD [OF assms(1)] in \<open>simp_all add: frame_simps data_write_refs [OF assms(2)]\<close>)

lemma leaf_write_data:
  assumes "vm_inv m R X" "r \<in> R" "user_path q" "length q = 3" "walk m r q = Some t"
  shows "data_frame (wr t i v m) R f = data_frame m R f"
    "frame_no t \<noteq> f \<Longrightarrow> phys_mem (wr t i v m) f = phys_mem m f"
proof -
  show "data_frame (wr t i v m) R f = data_frame m R f"
    unfolding data_frame_def using leaf_write_walk [OF assms, where i = i and v = v] by metis
  show "frame_no t \<noteq> f \<Longrightarrow> phys_mem (wr t i v m) f = phys_mem m f" by (simp add: wr_def)
qed

text \<open>Changing only the allocator's own fields, with the owners of the tables as they were.\<close>

lemma vm_inv_owners:
  assumes inv: "vm_inv m R X" and mem: "phys_mem m' = phys_mem m" and ok: "pmm_ok m'"
    and n: "npages m' = npages m"
    and own: "\<And>f. f < npages m \<Longrightarrow> owners_of m' f + X f = owners_of m f + X' f"
    and tab: "\<And>f. \<not> data_frame m R f \<Longrightarrow> X' f = X f"
  shows "vm_inv m' R X'"
proof (rule vm_invI)
  note c = mem_cong [OF mem]
  fix r p t assume p: "r \<in> R" "user_path p" "length p \<le> 3" "walk m' r p = Some t"
  then have w: "walk m r p = Some t" by (simp add: c)
  then have "\<not> data_frame m R (frame_no t)" using p by (auto simp: data_frame_def)
  then show "owners_of m' (frame_no t) = 1"
    using vm_inv_table [OF inv p(1-3) w] tab own [of "frame_no t"] by simp
next
  note c = mem_cong [OF mem]
  fix f assume "f < npages m'"
  then have f: "f < npages m" using n by simp
  show "owners_of m' f = card (refs m' R f) + X' f"
    using own [OF f] vm_invD(6) [OF inv f] by (simp add: c)
qed (use vm_invD [OF inv] ok n in \<open>simp_all add: mem_cong [OF mem]\<close>)

lemma vm_inv_alloc:
  assumes inv: "vm_inv m R X" and a: "pmm_alloc_page m = (a, m1)" "a \<noteq> NULL"
  shows "vm_inv m1 R (X(frame_no a := 1))" "X (frame_no a) = 0" "refs m R (frame_no a) = {}"
    "frame_state m (frame_no a) = None" "frame_addr (frame_no a) = a" "0 < frame_no a"
    "frame_no a < npages m" "frame_state m1 = (frame_state m)(frame_no a \<mapsto> 1)"
    "phys_mem m1 = phys_mem m" "npages m1 = npages m"
proof -
  let ?f = "frame_no a"
  note ok = vm_invD(1) [OF inv]
  note fr = pmm_frames.alloc_not_held [OF ok a]
  show f: "frame_state m ?f = None" "frame_addr ?f = a" "0 < ?f" "?f < npages m" using fr by auto
  obtain i where i: "a = frame_addr i" "i < npages m" "frame_state m1 = (frame_state m)(i \<mapsto> 1)"
      "npages m1 = npages m" "pmm_ok m1" using pmm_frames.alloc_frame [OF ok a] by blast
  have "i = ?f" using i npages_bound [of m] by simp
  then show fs: "frame_state m1 = (frame_state m)(?f \<mapsto> 1)" using i by simp
  show n: "npages m1 = npages m" by (rule i)
  show mem: "phys_mem m1 = phys_mem m" using pmm_ops_mem(1) [of m] a by simp
  have "owners_of m ?f = 0" using f by (simp add: owners_of_def)
  then have c: "card (refs m R ?f) = 0" "X ?f = 0" using vm_invD(6) [OF inv f(4)] by auto
  then show r: "refs m R ?f = {}" "X ?f = 0" using finite_refs [OF vm_invD(3) [OF inv], of m ?f] by auto
  show "vm_inv m1 R (X(?f := 1))"
  proof (rule vm_inv_owners [OF inv mem i(5) n])
    show "owners_of m1 f + X f = owners_of m f + (X(?f := 1)) f" for f
      using c f fs by (simp add: owners_of_def)
    show "\<not> data_frame m R f \<Longrightarrow> (X(?f := 1)) f = X f" for f
      using unreferenced_data_frame [OF r(1)] by auto
  qed
qed

lemma vm_inv_free:
  assumes inv: "vm_inv m R X" and a: "0 < frame_no a" "frame_no a < npages m" "0 < X (frame_no a)"
  shows "vm_inv (pmm_free_page a m) R (X(frame_no a := X (frame_no a) - 1))"
proof (rule vm_inv_owners [OF inv])
  let ?f = "frame_no a"
  note fr = pmm_frames.free_frame [OF vm_invD(1) [OF inv] a(1,2)]
  show "phys_mem (pmm_free_page a m) = phys_mem m" by (simp add: frame_simps)
  show "pmm_ok (pmm_free_page a m)" "npages (pmm_free_page a m) = npages m" using fr by auto
  have pos: "0 < owners_of m ?f" using vm_invD(6) [OF inv a(2)] a(3) by simp
  then have "owners_of (pmm_free_page a m) ?f = owners_of m ?f - 1"
    using fr by (auto simp: owners_of_def drop_owner_def split: option.splits)
  moreover have "f \<noteq> ?f \<Longrightarrow> owners_of (pmm_free_page a m) f = owners_of m f" for f
    using fr by (simp add: owners_of_def)
  ultimately show "owners_of (pmm_free_page a m) f + X f = owners_of m f + (X(?f := X ?f - 1)) f" for f
    using pos a(3) by (cases "f = ?f") auto
  show "\<not> data_frame m R f \<Longrightarrow> (X(?f := X ?f - 1)) f = X f" for f
    using owned_data_frame [OF inv a(3)] by auto
qed

lemma vm_inv_share:
  assumes inv: "vm_inv m R X" and a: "frame_no a < npages m" "data_frame m R (frame_no a)"
    "0 < owners_of m (frame_no a)" "owners_of m (frame_no a) < 65535"
  shows "vm_inv (pmm_page_ref_inc a m) R (X(frame_no a := X (frame_no a) + 1))"
    "owners_of (pmm_page_ref_inc a m) = (owners_of m)(frame_no a := owners_of m (frame_no a) + 1)"
proof -
  let ?f = "frame_no a"
  obtain n where n: "frame_state m ?f = Some n" "owners_of m ?f = n"
    using a(3) by (auto simp: owners_of_def split: option.splits)
  note fr = pmm_frames.share_frame [OF vm_invD(1) [OF inv] a(1) n(1) a(4) [unfolded n(2)]]
  show o: "owners_of (pmm_page_ref_inc a m) = (owners_of m)(?f := owners_of m ?f + 1)"
    using fr n by (simp add: fun_eq_iff owners_of_def)
  show "vm_inv (pmm_page_ref_inc a m) R (X(?f := X ?f + 1))"
    by (rule vm_inv_owners [OF inv]) (use fr o a(2) in \<open>auto simp: frame_simps\<close>)
qed

section \<open>Mapping a page\<close>

definition free_frames :: "'a pmm_scheme \<Rightarrow> nat" where
  "free_frames m = card {f. f < npages m \<and> frame_state m f = None}"

text \<open>
  The effect of one step down the tables, and of three: the leaf entries of all address spaces are as
  before, what was held is still held and keeps its contents unless it is a page table, and each step
  takes at most one free frame. Only the tables of the address space \<open>r\<close> grow.
\<close>

definition tables_grown :: "'a machine_scheme \<Rightarrow> addr set \<Rightarrow> (nat \<Rightarrow> nat) \<Rightarrow> addr \<Rightarrow> nat \<Rightarrow> 'a machine_scheme \<Rightarrow> bool" where
  "tables_grown m R X r k m' \<longleftrightarrow> vm_inv m' R X \<and> npages m' = npages m \<and> free_frames m \<le> free_frames m' + k
     \<and> (\<forall>r\<in>R. \<forall>p. user_path p \<and> length p = 4 \<longrightarrow> entry_at m' r p = entry_at m r p)
     \<and> (\<forall>r'\<in>R. \<forall>p. r' \<noteq> r \<and> user_path p \<longrightarrow> walk m' r' p = walk m r' p)
     \<and> (\<forall>f. frame_state m f \<noteq> None \<longrightarrow> frame_state m' f = frame_state m f)
     \<and> (\<forall>f. frame_state m f \<noteq> None \<and> data_frame m R f \<longrightarrow>
          data_frame m' R f \<and> phys_mem m' f = phys_mem m f)"

lemma tables_grown_refl: "vm_inv m R X \<Longrightarrow> tables_grown m R X r k m"
  by (simp add: tables_grown_def)

lemma tables_grown_trans:
  assumes a: "tables_grown m R X r k m1" and b: "tables_grown m1 R X r l m2"
  shows "tables_grown m R X r (k + l) m2"
  unfolding tables_grown_def
proof (intro conjI)
  have "frame_state m2 f = frame_state m f" if "frame_state m f \<noteq> None" for f
    using a b that unfolding tables_grown_def by metis
  then show "\<forall>f. frame_state m f \<noteq> None \<longrightarrow> frame_state m2 f = frame_state m f" by blast
  have "data_frame m2 R f \<and> phys_mem m2 f = phys_mem m f" if "frame_state m f \<noteq> None" "data_frame m R f" for f
    using a b that unfolding tables_grown_def by metis
  then show "\<forall>f. frame_state m f \<noteq> None \<and> data_frame m R f \<longrightarrow>
      data_frame m2 R f \<and> phys_mem m2 f = phys_mem m f" by blast
qed (use a b in \<open>auto simp: tables_grown_def\<close>)

lemma free_frames_alloc:
  assumes "frame_state m f = None" "f < npages m" "frame_state m' = (frame_state m)(f \<mapsto> n)"
    "npages m' = npages m"
  shows "free_frames m = free_frames m' + 1"
proof -
  let ?F = "{i. i < npages m \<and> frame_state m i = None}"
  have "{i. i < npages m' \<and> frame_state m' i = None} = ?F - {f}" using assms by auto
  moreover have "finite ?F" "f \<in> ?F" using assms by auto
  then have "card ?F = card (?F - {f}) + 1" using card_Suc_Diff1 [of ?F f] by simp
  ultimately show ?thesis by (simp add: free_frames_def del: card_Diff_singleton)
qed

lemma new_table_flags: "n < 2 ^ 40 \<Longrightarrow>
   entry_addr (frame_addr n OR PTE_PRESENT OR PTE_WRITABLE OR PTE_USER) = frame_addr n
   \<and> has_flag (frame_addr n OR PTE_PRESENT OR PTE_WRITABLE OR PTE_USER) PTE_PRESENT"
  using entry_addr_make [of n 7] by (simp add: ADDR_MASK_def has_flag_or or.assoc) (simp add: has_flag_def)

lemma entry_below_empty:
  assumes "walk m r q = Some a" "\<And>j. rd m a j = 0" "s \<noteq> []"
  shows "entry_at m r (q @ s) = 0"
proof -
  obtain x xs where s: "s = x # xs" using assms(3) by (cases s) auto
  have "walk m a (butlast s) = None \<or> butlast s = []" using assms(2) by (cases xs) (simp_all add: s)
  then show ?thesis using assms by (auto simp: entry_at_def butlast_append walk_append)
qed

lemma entry_below_None:
  assumes "walk m r q = None" "s \<noteq> []"
  shows "entry_at m r (q @ s) = 0"
  using assms by (simp add: entry_at_def butlast_append walk_append)

text \<open>Hooking an empty, otherwise unused frame into a free slot of a table.\<close>

lemma link_table_entry:
  assumes inv: "vm_inv m R X" and q: "r \<in> R" "user_path q" "length q \<le> 2" "walk m r q = Some t"
    and slot: "\<not> has_flag (rd m t i) PTE_PRESENT"
    and f: "refs m R f = {}" "f < npages m" "phys_mem m f = (\<lambda>_. 0)"
    and p: "r' \<in> R" "user_path p"
  shows "entry_at (wr t i (frame_addr f OR PTE_PRESENT OR PTE_WRITABLE OR PTE_USER) m) r' p =
    (if r' = r \<and> p = q @ [i] then frame_addr f OR PTE_PRESENT OR PTE_WRITABLE OR PTE_USER
     else entry_at m r' p)"
proof (cases "r' = r \<and> strict_prefix (q @ [i]) p")
  case False
  then show ?thesis using entry_at_wr [OF inv q(1,2) _ q(4) p] q(3) by simp
next
  case True
  let ?v = "frame_addr f OR PTE_PRESENT OR PTE_WRITABLE OR PTE_USER" and ?m' = "wr t i (frame_addr f OR PTE_PRESENT OR PTE_WRITABLE OR PTE_USER) m"
  obtain s where s: "p = (q @ [i]) @ s" "s \<noteq> []" using True by (auto simp: strict_prefix_def prefix_def)
  have f40: "f < 2 ^ 40" using f(2) vm_invD(2) [OF inv] by linarith
  then have fno: "frame_no (frame_addr f) = f" by (intro frame_no_addr) simp
  have wq: "walk ?m' r q = Some t"
    using walk_wr [OF inv q(1,2) _ q(4) q(1,2)] q(3,4) by (auto simp: prefix_def)
  have wt: "walk ?m' r (q @ [i]) = Some (frame_addr f)"
    using wq new_table_flags [OF f40] by (simp add: walk_snoc rd_wr)
  have "frame_no t \<noteq> f" using refs_table [OF q(1,2) _ q(4)] q(3) f(1) by auto
  then have "rd ?m' (frame_addr f) j = 0" for j using fno f(3) by (simp add: rd_wr) (simp add: rd_def)
  then have "entry_at ?m' r p = 0" unfolding s(1) using entry_below_empty [OF wt _ s(2)] by blast
  moreover have "walk m r (q @ [i]) = None" using q(4) slot by (simp add: walk_snoc)
  then have "entry_at m r p = 0" unfolding s(1) using s(2) by (rule entry_below_None)
  ultimately show ?thesis using True by (auto simp: strict_prefix_def)
qed

lemma link_table:
  assumes inv: "vm_inv m R X" and q: "r \<in> R" "user_path q" "length q \<le> 2" "walk m r q = Some t"
    and i: "user_path (q @ [i])" and slot: "\<not> has_flag (rd m t i) PTE_PRESENT"
    and f: "refs m R f = {}" "f < npages m" "phys_mem m f = (\<lambda>_. 0)" "0 < f" "X f = 1"
  defines "m' \<equiv> wr t i (frame_addr f OR PTE_PRESENT OR PTE_WRITABLE OR PTE_USER) m"
  shows "vm_inv m' R (X(f := 0))" "walk m' r (q @ [i]) = Some (frame_addr f)"
    "\<And>r' p. r' \<in> R \<Longrightarrow> user_path p \<Longrightarrow> (r', p) \<noteq> (r, q @ [i]) \<Longrightarrow> walk m' r' p = walk m r' p"
proof -
  let ?s = "(r, q @ [i])" and ?v = "frame_addr f OR PTE_PRESENT OR PTE_WRITABLE OR PTE_USER"
  have f40: "f < 2 ^ 40" using f(2) vm_invD(2) [OF inv] by linarith
  then have fno: "frame_no (frame_addr f) = f" by (intro frame_no_addr) simp
  note e = link_table_entry [OF inv q slot f(1-3), folded m'_def]
  have es: "entry_at m' r (q @ [i]) = ?v" using e [OF q(1) i] by simp
  show ws: "walk m' r (q @ [i]) = Some (frame_addr f)"
    using es new_table_flags [OF f40] by (simp add: walk_entry_at)
  have other: "walk m' r' p = walk m r' p \<and> entry_at m' r' p = entry_at m r' p"
    if "r' \<in> R" "user_path p" "(r', p) \<noteq> ?s" for r' p
  proof -
    have "entry_at m' r' p = entry_at m r' p" using e [OF that(1,2)] that(3) by auto
    then show ?thesis using walk_entry_cong by blast
  qed
  then show "\<And>r' p. r' \<in> R \<Longrightarrow> user_path p \<Longrightarrow> (r', p) \<noteq> ?s \<Longrightarrow> walk m' r' p = walk m r' p" by blast
  have old: "?s \<notin> refs m R g" for g using q(4) slot by (simp add: refs_def walk_snoc)
  have new: "?s \<in> refs m' R g \<longleftrightarrow> g = f" for g using q i ws fno by (auto simp: refs_def)
  have rf: "refs m' R g = (if g = f then {?s} else refs m R g)" for g
  proof -
    have "(x \<in> refs m' R g) = (x \<in> refs m R g)" if "x \<noteq> ?s" for x
    proof (cases "fst x \<in> R \<and> user_path (snd x)")
      case True
      then show ?thesis using other [of "fst x" "snd x"] that by (cases x) (simp add: refs_def)
    qed (auto simp: refs_def)
    then have "x \<in> refs m' R g \<longleftrightarrow> x \<in> (if g = f then {?s} else refs m R g)" for x
      using old [of g] new [of g] f(1) by (cases "x = ?s") simp_all
    then show ?thesis by blast
  qed
  show "vm_inv m' R (X(f := 0))"
  proof (rule vm_invI)
    fix r' p u assume p: "r' \<in> R" "user_path p" "length p \<le> 3" "walk m' r' p = Some u"
    have "owners_of m f = 1" using vm_invD(6) [OF inv f(2)] f by simp
    then have "owners_of m (frame_no u) = 1"
      using vm_inv_table(1) [OF inv p(1-3)] other [OF p(1,2)] p(4) ws fno by (cases "(r', p) = ?s") auto
    then show "owners_of m' (frame_no u) = 1" by (simp add: m'_def frame_simps)
  next
    have np: "npages m' = npages m" "owners_of m' = owners_of m" by (simp_all add: m'_def frame_simps)
    fix g show "refs m' R g \<noteq> {} \<Longrightarrow> 0 < g \<and> g < npages m'"
      using vm_invD(5) [OF inv, of g] f by (simp add: rf np split: if_splits)
    show "g < npages m' \<Longrightarrow> owners_of m' g = card (refs m' R g) + (X(f := 0)) g"
      using vm_invD(6) [OF inv, of g] f by (simp add: rf np)
  qed (use vm_invD [OF inv] in \<open>simp_all add: m'_def frame_simps\<close>)
qed

lemma get_next_level_new:
  assumes inv: "vm_inv m R X" and q: "r \<in> R" "user_path q" "length q \<le> 2" "walk m r q = Some t"
    and i: "user_path (q @ [i])" and absent: "\<not> has_flag (rd m t i) PTE_PRESENT"
    and a: "pmm_alloc_page m = (a, m1)" "a \<noteq> NULL"
  defines "m' \<equiv> wr t i (a OR PTE_PRESENT OR PTE_WRITABLE OR PTE_USER) (zero_page a m1)"
  shows "tables_grown m R X r 1 m'" "walk m' r (q @ [i]) = Some a"
    "\<And>r' p. r' \<in> R \<Longrightarrow> user_path p \<Longrightarrow> (r', p) \<noteq> (r, q @ [i]) \<Longrightarrow> walk m' r' p = walk m r' p"
proof -
  let ?f = "frame_no a"
  note al = vm_inv_alloc [OF inv a]
  note c = mem_cong [OF al(9)]
  define m2 where "m2 = m1\<lparr>phys_mem := (phys_mem m1)(?f := (\<lambda>_. 0))\<rparr>"
  have df: "data_frame m R ?f" "data_frame m1 R ?f"
    using al(3) by (simp_all add: c unreferenced_data_frame)
  have i2: "vm_inv m2 R (X(?f := 1))" unfolding m2_def by (rule vm_inv_data_write [OF al(1) df(2)])
  have e2: "entry_at m2 r' p = entry_at m r' p" "walk m2 r' p = walk m r' p"
    if "r' \<in> R" "user_path p" for r' p
    using data_write [OF df(2) that] by (simp_all add: m2_def c)
  have r2: "refs m2 R = refs m R" by (rule refs_entry_cong) (rule e2)
  have m'_eq: "m' = wr t i (frame_addr ?f OR PTE_PRESENT OR PTE_WRITABLE OR PTE_USER) m2"
    unfolding m'_def al(5) zero_page_def m2_def ..
  have tf: "frame_no t \<noteq> ?f" using data_frameD [OF df(1) q(1,2) _ q(4)] q(3) by simp
  then have slot2: "\<not> has_flag (rd m2 t i) PTE_PRESENT" using absent by (simp add: m2_def rd_def al(9))
  have wq2: "walk m2 r q = Some t" using e2(2) q(1,2,4) by simp
  have f2: "refs m2 R ?f = {}" "?f < npages m2" "phys_mem m2 ?f = (\<lambda>_. 0)"
    using al(3,7,10) by (simp_all only: r2) (simp_all add: m2_def frame_simps)
  note link = link_table [OF i2 q(1-3) wq2 i slot2 f2 al(6), folded m'_eq]
  note entry = link_table_entry [OF i2 q(1-3) wq2 slot2 f2, folded m'_eq]
  have fs: "frame_state m' = (frame_state m)(?f \<mapsto> 1)" "npages m' = npages m"
    using al(8,10) by (simp_all add: m'_eq m2_def frame_simps)
  have inv': "vm_inv m' R X" using link(1) al(2) by (simp add: fun_upd_idem)
  show wa: "walk m' r (q @ [i]) = Some a" using link(2) al(5) by simp
  show keep: "\<And>r' p. r' \<in> R \<Longrightarrow> user_path p \<Longrightarrow> (r', p) \<noteq> (r, q @ [i]) \<Longrightarrow> walk m' r' p = walk m r' p"
    using link(3) e2(2) by simp
  have held: "data_frame m' R f \<and> phys_mem m' f = phys_mem m f"
    if f: "frame_state m f \<noteq> None" "data_frame m R f" for f
  proof -
    have "f \<noteq> ?f" using f(1) al(4) by auto
    moreover have "f \<noteq> frame_no t" using data_frameD [OF f(2) q(1,2) _ q(4)] q(3) by auto
    ultimately have "phys_mem m' f = phys_mem m f" by (simp add: m'_eq m2_def wr_def al(9))
    moreover have "frame_no u \<noteq> f"
      if "r' \<in> R" "user_path p" "length p \<le> 3" "walk m' r' p = Some u" for r' p u
      using that keep [OF that(1,2)] wa f(2) \<open>f \<noteq> ?f\<close>
      by (cases "(r', p) = (r, q @ [i])") (auto simp: data_frame_def)
    ultimately show ?thesis by (auto simp: data_frame_def)
  qed
  have ent: "entry_at m' r' p = entry_at m r' p" if "r' \<in> R" "user_path p" "length p = 4" for r' p
    using entry [OF that(1,2)] e2(1) [OF that(1,2)] that(3) q(3) by auto
  show "tables_grown m R X r 1 m'"
    unfolding tables_grown_def
    using inv' fs ent held keep free_frames_alloc [OF al(4,7) fs] al(4) by auto
qed

lemma get_next_level_spec:
  assumes inv: "vm_inv m R X" and q: "r \<in> R" "user_path q" "length q \<le> 2" "walk m r q = Some t"
    and i: "user_path (q @ [i])" and g: "get_next_level t i m = (res, m')"
  shows "tables_grown m R X r 1 m'"
    "res = None \<Longrightarrow> m' = m \<and> free_frames m = 0"
    "res = Some n \<Longrightarrow> walk m' r (q @ [i]) = Some n"
proof -
  have "tables_grown m R X r 1 m' \<and> (res = None \<longrightarrow> m' = m \<and> free_frames m = 0)
     \<and> (\<forall>n. res = Some n \<longrightarrow> walk m' r (q @ [i]) = Some n)"
  proof (cases "has_flag (rd m t i) PTE_PRESENT")
    case True
    then show ?thesis using g q tables_grown_refl [OF inv] by (auto simp: get_next_level_def walk_snoc)
  next
    case absent: False
    obtain a m1 where a: "pmm_alloc_page m = (a, m1)" by fastforce
    show ?thesis
    proof (cases "a = NULL")
      case True
      then have "m1 = m" "\<forall>f<npages m. frame_state m f \<noteq> None"
        using pmm_frames.alloc_null [OF vm_invD(1) [OF inv]] a by auto
      then show ?thesis using g a absent True tables_grown_refl [OF inv]
        by (auto simp: get_next_level_def free_frames_def)
    next
      case False
      then show ?thesis using get_next_level_new [OF inv q i absent a False] g a absent
        by (auto simp: get_next_level_def)
    qed
  qed
  then show "tables_grown m R X r 1 m'" "res = None \<Longrightarrow> m' = m \<and> free_frames m = 0"
    "res = Some n \<Longrightarrow> walk m' r (q @ [i]) = Some n" by blast+
qed

text \<open>
  Reaching the last-level table for an address: it is found or built, or the free frames ran out
  on the way.
\<close>

definition reach_pt :: "addr \<Rightarrow> addr \<Rightarrow> 'a machine_scheme \<Rightarrow> addr option \<times> 'a machine_scheme" where
  "reach_pt pml4 va m =
     (case get_next_level pml4 (pml4_entry va) m of
        (None, m1) \<Rightarrow> (None, m1)
      | (Some pdpt, m1) \<Rightarrow>
         (case get_next_level pdpt (pdpt_entry va) m1 of
            (None, m2) \<Rightarrow> (None, m2)
          | (Some pd, m2) \<Rightarrow> get_next_level pd (pd_entry va) m2))"

lemma vmm_map_page_reach:
  "vmm_map_page pml4 va pa flags m =
     (case reach_pt pml4 va m of (None, m') \<Rightarrow> m' | (Some pt, m') \<Rightarrow> wr pt (pt_entry va) (pa OR flags) m')"
  by (simp add: vmm_map_page_def reach_pt_def split: prod.split option.split)

definition ptpath :: "addr \<Rightarrow> nat list" where
  "ptpath va = [pml4_entry va, pdpt_entry va, pd_entry va]"

lemma ptpath_simps [simp]:
  "ptpath va @ [pt_entry va] = vpath va" "length (ptpath va) = 3"
  "user_path (ptpath va) \<longleftrightarrow> user_va va"
  by (auto simp: ptpath_def vpath_def user_path_def user_va_def)

lemma reach_pt_spec:
  assumes inv: "vm_inv m R X" and r: "r \<in> R" "user_va va" and g: "reach_pt r va m = (res, m')"
  shows "tables_grown m R X r 3 m' \<and> (res = None \<longrightarrow> free_frames m' = 0 \<and> free_frames m \<le> 2)
     \<and> (\<forall>pt. res = Some pt \<longrightarrow> walk m' r (ptpath va) = Some pt)"
proof -
  have p: "user_path []" "user_path ([] @ [pml4_entry va])"
    "user_path [pml4_entry va]" "user_path ([pml4_entry va] @ [pdpt_entry va])"
    "user_path [pml4_entry va, pdpt_entry va]" "user_path ([pml4_entry va, pdpt_entry va] @ [pd_entry va])"
    using r(2) by (auto simp: user_path_def user_va_def)
  obtain s1 m1 where g1: "get_next_level r (pml4_entry va) m = (s1, m1)" by fastforce
  note l1 = get_next_level_spec [OF inv r(1) p(1) _ _ p(2) g1]
  have t1: "tables_grown m R X r 1 m1" using l1 by simp
  show ?thesis
  proof (cases s1)
    case None
    then show ?thesis using g g1 l1(2) tables_grown_trans [OF t1 tables_grown_refl, of 2] t1
      by (auto simp: reach_pt_def tables_grown_def)
  next
    case s1: (Some pdpt)
    have i1: "vm_inv m1 R X" using t1 by (simp add: tables_grown_def)
    have w1: "walk m1 r [pml4_entry va] = Some pdpt" using l1(3) s1 by simp
    obtain s2 m2 where g2: "get_next_level pdpt (pdpt_entry va) m1 = (s2, m2)" by fastforce
    note l2 = get_next_level_spec [OF i1 r(1) p(3) _ w1 p(4) g2]
    have t2: "tables_grown m R X r 2 m2" using tables_grown_trans [OF t1 l2(1)] by (simp add: numeral_2_eq_2)
    show ?thesis
    proof (cases s2)
      case None
      then show ?thesis using g g1 g2 s1 l2(2) t2 by (auto simp: reach_pt_def tables_grown_def)
    next
      case s2: (Some pd)
      have i2: "vm_inv m2 R X" using t2 by (simp add: tables_grown_def)
      have w2: "walk m2 r [pml4_entry va, pdpt_entry va] = Some pd" using l2(3) s2 by simp
      have g3: "get_next_level pd (pd_entry va) m2 = (res, m')"
        using g g1 g2 s1 s2 by (simp add: reach_pt_def)
      note l3 = get_next_level_spec [OF i2 r(1) p(5) _ w2 p(6) g3]
      have t3: "tables_grown m R X r 3 m'" using tables_grown_trans [OF t2 l3(1)] by simp
      then show ?thesis using l3(2,3) t2 by (auto simp: ptpath_def tables_grown_def)
    qed
  qed
qed

text \<open>The references outside the tables once entry \<open>e\<close> has replaced entry \<open>old\<close>.\<close>

definition moved :: "(nat \<Rightarrow> nat) \<Rightarrow> u64 \<Rightarrow> u64 \<Rightarrow> nat \<Rightarrow> nat" where
  "moved X old e f = X f + pays old f - pays e f"

lemma vmm_map_page_spec:
  assumes inv: "vm_inv m R X" and r: "r \<in> R" "user_va va"
    and own: "\<forall>f. pays (pa OR flags) f = 1 \<longrightarrow> 0 < X f \<and> 0 < f \<and> f < npages m"
  defines "m' \<equiv> vmm_map_page r va pa flags m"
  shows "(entry_at m' r (vpath va) = pa OR flags
            \<and> vm_inv m' R (moved X (entry_at m r (vpath va)) (pa OR flags)))
       \<or> (free_frames m' = 0 \<and> free_frames m < 3 \<and> entry_at m' r (vpath va) = entry_at m r (vpath va)
            \<and> vm_inv m' R X)"
    "\<And>r' p. r' \<in> R \<Longrightarrow> user_path p \<Longrightarrow> length p = 4 \<Longrightarrow> (r', p) \<noteq> (r, vpath va) \<Longrightarrow>
       entry_at m' r' p = entry_at m r' p"
    "\<And>f. frame_state m f \<noteq> None \<Longrightarrow> frame_state m' f = frame_state m f"
    "\<And>f. frame_state m f \<noteq> None \<Longrightarrow> data_frame m R f \<Longrightarrow> data_frame m' R f \<and> phys_mem m' f = phys_mem m f"
    "npages m' = npages m" "free_frames m \<le> free_frames m' + 3"
    "\<And>r' p. r' \<in> R \<Longrightarrow> r' \<noteq> r \<Longrightarrow> user_path p \<Longrightarrow> walk m' r' p = walk m r' p"
proof -
  let ?e = "pa OR flags" and ?p = "vpath va"
  obtain res m1 where g: "reach_pt r va m = (res, m1)" by fastforce
  note sp = reach_pt_spec [OF inv r g]
  have tg: "tables_grown m R X r 3 m1" using sp by blast
  have m': "m' = (case res of None \<Rightarrow> m1 | Some pt \<Rightarrow> wr pt (pt_entry va) ?e m1)"
    by (simp add: m'_def vmm_map_page_reach g split: option.split)
  have up: "user_path (ptpath va)" "length (ptpath va) = 3" "user_path ?p" "length ?p = 4" using r by auto
  have i1: "vm_inv m1 R X" using tg by (simp add: tables_grown_def)
  have e1: "entry_at m1 r' p = entry_at m r' p" if "r' \<in> R" "user_path p" "length p = 4" for r' p
    using tg that by (simp add: tables_grown_def)
  have pm: "frame_state m' = frame_state m1" "npages m' = npages m1"
    by (simp_all add: m' frame_simps split: option.split)
  show np: "npages m' = npages m" using pm(2) tg by (simp add: tables_grown_def)
  have ff: "free_frames m' = free_frames m1" by (simp add: free_frames_def pm)
  then show "free_frames m \<le> free_frames m' + 3" using tg by (simp add: tables_grown_def)
  show "frame_state m f \<noteq> None \<Longrightarrow> frame_state m' f = frame_state m f" for f
    using tg unfolding pm(1) tables_grown_def by blast
  have leaf: "entry_at m' r' p = (if r' = r \<and> p = ?p then ?e else entry_at m r' p)"
    if "res = Some pt" "r' \<in> R" "user_path p" "length p = 4" for pt r' p
    using leaf_write_entry [OF i1 r(1) up(1,2) _ that(2,3), of pt "pt_entry va" ?e] sp that e1
    by (simp add: m')
  show "entry_at m' r' p = entry_at m r' p"
    if "r' \<in> R" "user_path p" "length p = 4" "(r', p) \<noteq> (r, ?p)" for r' p
    using leaf that e1 by (cases res) (auto simp: m')
  show "walk m' r' p = walk m r' p" if "r' \<in> R" "r' \<noteq> r" "user_path p" for r' p
  proof -
    have "walk m1 r' p = walk m r' p" using tg that by (simp add: tables_grown_def)
    then show ?thesis using walk_wr [OF i1 r(1) up(1) _ _ that(1,3)] up(2) sp that(2)
      by (cases res) (simp_all add: m')
  qed
  show "data_frame m' R f \<and> phys_mem m' f = phys_mem m f"
    if "frame_state m f \<noteq> None" "data_frame m R f" for f
  proof -
    have f1: "data_frame m1 R f" "phys_mem m1 f = phys_mem m f" using tg that by (auto simp: tables_grown_def)
    show ?thesis
    proof (cases res)
      case (Some pt)
      then have w: "walk m1 r (ptpath va) = Some pt" using sp by blast
      have "frame_no pt \<noteq> f" using data_frameD [OF f1(1) r(1) up(1) _ w] up(2) by simp
      then show ?thesis using f1 leaf_write_data [OF i1 r(1) up(1,2) w] by (simp add: m' Some)
    qed (use f1 in \<open>simp add: m'\<close>)
  qed
  show "(entry_at m' r ?p = ?e \<and> vm_inv m' R (moved X (entry_at m r ?p) ?e))
      \<or> (free_frames m' = 0 \<and> free_frames m < 3 \<and> entry_at m' r ?p = entry_at m r ?p \<and> vm_inv m' R X)"
  proof (cases res)
    case None
    then show ?thesis using sp i1 e1 [OF r(1) up(3,4)] by (simp add: m')
  next
    case (Some pt)
    have "vm_inv (wr pt (pt_entry va) ?e m1) R (moved X (entry_at m r ?p) ?e)"
    proof (rule vm_inv_write_leaf [OF i1 r(1) up(1,2)])
      show "walk m1 r (ptpath va) = Some pt" using sp Some by blast
      show "pays ?e f = 1 \<Longrightarrow> 0 < f \<and> f < npages m1" for f
        using own tg by (simp add: tables_grown_def)
      show "moved X (entry_at m r ?p) ?e f + pays ?e f = X f + pays (entry_at m1 r (ptpath va @ [pt_entry va])) f" for f
        using own [rule_format, of f] e1 [OF r(1) up(3,4)] by (auto simp: moved_def pays_def)
    qed simp
    then show ?thesis using leaf [OF Some r(1) up(3,4)] Some by (simp add: m')
  qed
qed

section \<open>Unmapping a page\<close>

lemma entry_at_vpath:
  "entry_at m r (vpath va) = (case walk m r (ptpath va) of None \<Rightarrow> 0 | Some pt \<Rightarrow> rd m pt (pt_entry va))"
  using entry_at_snoc [of m r "ptpath va" "pt_entry va"] by simp

lemma lookup_Some:
  "lookup m r va = Some e \<longleftrightarrow> has_flag e PTE_PRESENT
     \<and> (\<exists>pt. walk m r (ptpath va) = Some pt \<and> rd m pt (pt_entry va) = e)"
  by (cases "walk m r (ptpath va)") (auto simp: lookup_def entry_at_vpath Let_def)

lemma vmm_unmap_page_walk:
  "vmm_unmap_page r va m =
     (case walk m r (ptpath va) of None \<Rightarrow> m | Some pt \<Rightarrow>
        let e = rd m pt (pt_entry va); m1 = wr pt (pt_entry va) 0 m in
        if \<not> has_flag e PTE_PRESENT then m
        else if has_flag e PTE_NOPMM then m1 else pmm_free_page (entry_addr e) m1)"
  by (simp add: vmm_unmap_page_def ptpath_def Let_def)

lemma vmm_unmap_page_None: "lookup m r va = None \<Longrightarrow> vmm_unmap_page r va m = m"
  by (cases "walk m r (ptpath va)")
    (simp_all add: vmm_unmap_page_walk lookup_def entry_at_vpath Let_def split: if_splits)

lemma leaf_frame_bounds:
  assumes inv: "vm_inv m R X" and p: "r \<in> R" "user_path p" "length p = 4"
    and e: "pays (entry_at m r p) f = 1"
  shows "0 < f" "f < npages m" "0 < owners_of m f"
proof -
  have s: "(r, p) \<in> refs m R f" using refs_leaf [OF p(3)] p e by blast
  then show f: "0 < f" "f < npages m" using vm_invD(5) [OF inv, of f] by auto
  have "card (refs m R f) \<noteq> 0" using s finite_refs [OF vm_invD(3) [OF inv], of m f] by auto
  then show "0 < owners_of m f" using vm_invD(6) [OF inv f(2)] by simp
qed

lemma vmm_unmap_page_spec:
  assumes inv: "vm_inv m R X" and r: "r \<in> R" "user_va va"
  defines "m' \<equiv> vmm_unmap_page r va m"
  shows "vm_inv m' R X" "lookup m' r va = None"
    "\<And>r' p. r' \<in> R \<Longrightarrow> user_path p \<Longrightarrow> length p = 4 \<Longrightarrow> (r', p) \<noteq> (r, vpath va) \<Longrightarrow>
       entry_at m' r' p = entry_at m r' p"
    "\<And>f. data_frame m R f \<Longrightarrow> phys_mem m' f = phys_mem m f"
proof -
  let ?p = "vpath va"
  have "vm_inv m' R X \<and> lookup m' r va = None
     \<and> (\<forall>r'\<in>R. \<forall>p. user_path p \<and> length p = 4 \<and> (r', p) \<noteq> (r, ?p) \<longrightarrow> entry_at m' r' p = entry_at m r' p)
     \<and> (\<forall>f. data_frame m R f \<longrightarrow> phys_mem m' f = phys_mem m f)"
  proof (cases "lookup m r va")
    case None
    then show ?thesis using inv by (simp add: m'_def vmm_unmap_page_None)
  next
    case (Some e)
    then obtain pt where pt: "walk m r (ptpath va) = Some pt" "rd m pt (pt_entry va) = e"
        "has_flag e PTE_PRESENT" by (auto simp: lookup_Some)
    let ?f = "frame_no (entry_addr e)" and ?m1 = "wr pt (pt_entry va) 0 m"
    have up: "user_path (ptpath va)" "length (ptpath va) = 3" "user_path ?p" using r by auto
    have old: "entry_at m r ?p = e" using pt by (simp add: entry_at_vpath)
    have m': "m' = (if has_flag e PTE_NOPMM then ?m1 else pmm_free_page (entry_addr e) ?m1)"
      using pt by (simp add: m'_def vmm_unmap_page_walk Let_def)
    have mem: "phys_mem m' = phys_mem ?m1" by (simp add: m' frame_simps)
    note c = mem_cong [OF mem]
    have ent: "entry_at m' r' p = (if r' = r \<and> p = ?p then 0 else entry_at m r' p)"
      if "r' \<in> R" "user_path p" for r' p
      using leaf_write_entry [OF inv r(1) up(1,2) pt(1) that] by (simp add: c)
    have i1: "vm_inv ?m1 R (\<lambda>f. X f + pays e f)"
      by (rule vm_inv_write_leaf [OF inv r(1) up(1,2) pt(1)]) (simp_all add: old)
    have "vm_inv m' R X"
    proof (cases "has_flag e PTE_NOPMM")
      case True
      then have "(\<lambda>f. X f + pays e f) = X" by (simp add: pays_def)
      then show ?thesis using i1 True by (simp add: m')
    next
      case False
      then have p1: "pays e ?f = 1" using pt by (simp add: pays_def)
      have b: "0 < ?f" "?f < npages ?m1"
        using leaf_frame_bounds [OF inv r(1) up(3) _ p1 [folded old]] by (simp_all add: old frame_simps)
      have "(\<lambda>f. X f + pays e f)(?f := X ?f + pays e ?f - 1) = X"
        using p1 by (auto simp: fun_eq_iff pays_def)
      then show ?thesis using vm_inv_free [OF i1 b] p1 False by (simp add: m')
    qed
    moreover have "phys_mem m' f = phys_mem m f" if "data_frame m R f" for f
      using data_frameD [OF that r(1) up(1) _ pt(1)] up(2) leaf_write_data(2) [OF inv r(1) up(1,2) pt(1)]
      by (simp add: mem)
    ultimately show ?thesis using ent r up by (simp add: lookup_def Let_def)
  qed
  then show "vm_inv m' R X" "lookup m' r va = None"
    "\<And>r' p. r' \<in> R \<Longrightarrow> user_path p \<Longrightarrow> length p = 4 \<Longrightarrow> (r', p) \<noteq> (r, ?p) \<Longrightarrow>
       entry_at m' r' p = entry_at m r' p"
    "\<And>f. data_frame m R f \<Longrightarrow> phys_mem m' f = phys_mem m f" by simp_all
qed

section \<open>Flags as bits\<close>

lemma has_flag_power: "has_flag w (2 ^ k) \<longleftrightarrow> bit w k"
  by (simp add: has_flag_def word_and_bit_eq_0_iff)

lemma has_flag_bits:
  "has_flag w PTE_PRESENT \<longleftrightarrow> bit w 0" "has_flag w PTE_WRITABLE \<longleftrightarrow> bit w 1" "has_flag w PTE_USER \<longleftrightarrow> bit w 2"
  "has_flag w PTE_COW \<longleftrightarrow> bit w 9" "has_flag w PTE_SHARED \<longleftrightarrow> bit w 10" "has_flag w PTE_NOPMM \<longleftrightarrow> bit w 11"
  using has_flag_power [of w 0] has_flag_power [of w 1] has_flag_power [of w 2]
    has_flag_power [of w 9] has_flag_power [of w 10] has_flag_power [of w 11] by simp_all

lemma has_flag_or_right: "has_flag w (a OR b) \<longleftrightarrow> has_flag w a \<or> has_flag w b"
  by (auto simp: has_flag_def bit_eq_iff bit_simps)

definition address_bits :: "nat \<Rightarrow> bool" where
  "address_bits k \<longleftrightarrow> 12 \<le> k \<and> k < 52"

lemma bit_entry_addr: "bit (entry_addr e) k \<longleftrightarrow> bit e k \<and> address_bits k"
  by (auto simp: entry_addr_def bit_simps bit_ADDR_MASK address_bits_def)

lemma bit_flag_constants: "bit PTE_COW k \<longleftrightarrow> k = 9" "bit PTE_WRITABLE k \<longleftrightarrow> k = 1"
proof -
  have c: "PTE_COW = 2 ^ 9" by simp
  show "bit PTE_COW k \<longleftrightarrow> k = 9" unfolding c by (simp only: bit_exp_iff possible_bit_word) auto
  show "bit PTE_WRITABLE k \<longleftrightarrow> k = 1" by (auto simp: bit_simps bit_2_iff)
qed

lemmas bit_entry_rules = bit_or_iff bit_and_iff bit_not_iff bit_flag_constants bit_FLAG_MASK

lemma bit_writable_again:
  "bit (e AND FLAG_MASK AND NOT PTE_COW OR PTE_WRITABLE) k \<longleftrightarrow>
     k = 1 \<or> bit e k \<and> \<not> address_bits k \<and> k \<noteq> 9"
  using bit_imp_le_length [of e k]
  by (simp only: bit_entry_rules address_bits_def possible_bit_word) auto

lemma bit_downgraded:
  "bit (e AND FLAG_MASK AND NOT PTE_WRITABLE OR PTE_COW) k \<longleftrightarrow>
     k = 9 \<or> bit e k \<and> \<not> address_bits k \<and> k \<noteq> 1"
  using bit_imp_le_length [of e k]
  by (simp only: bit_entry_rules address_bits_def possible_bit_word) auto

lemma entry_addr_eqI:
  assumes "\<And>k. address_bits k \<Longrightarrow> bit v k = bit a k" "\<And>k. bit a k \<Longrightarrow> address_bits k"
  shows "entry_addr v = a"
  by (rule bit_eqI) (use assms in \<open>auto simp: bit_entry_addr\<close>)

section \<open>Copy-on-write faults\<close>

text \<open>The entry a resolved fault leaves behind: the frame \<open>a\<close>, writable, no longer copy-on-write.\<close>

definition unshared_entry :: "addr \<Rightarrow> u64 \<Rightarrow> u64" where
  "unshared_entry a e = a OR ((e AND FLAG_MASK AND NOT PTE_COW) OR PTE_WRITABLE)"

lemma entry_addr_idem [simp]: "entry_addr (entry_addr e) = entry_addr e"
  by (simp add: entry_addr_def and.assoc)

lemma entry_addr_frame: "n < 2 ^ 40 \<Longrightarrow> entry_addr (frame_addr n) = frame_addr n"
  using entry_addr_make [of n 0] by simp

lemma frame_bits: "entry_addr a = a \<Longrightarrow> bit a k \<Longrightarrow> address_bits k"
  using bit_entry_addr [of a k] by simp

lemma unshared_entry_facts:
  assumes a: "entry_addr a = a"
  shows "entry_addr (unshared_entry a e) = a"
    "has_flag (unshared_entry a e) PTE_WRITABLE" "\<not> has_flag (unshared_entry a e) PTE_COW"
    "has_flag (unshared_entry a e) PTE_PRESENT = has_flag e PTE_PRESENT"
    "has_flag (unshared_entry a e) PTE_USER = has_flag e PTE_USER"
    "has_flag (unshared_entry a e) PTE_NOPMM = has_flag e PTE_NOPMM"
proof -
  have b: "bit (unshared_entry a e) k \<longleftrightarrow> bit a k \<or> k = 1 \<or> bit e k \<and> \<not> address_bits k \<and> k \<noteq> 9" for k
    unfolding unshared_entry_def bit_or_iff [of a] bit_writable_again ..
  have na: "\<not> bit a k" "\<not> address_bits k" if "k < 12" for k
    using frame_bits [OF a, of k] that by (auto simp: address_bits_def)
  show "entry_addr (unshared_entry a e) = a"
    by (rule entry_addr_eqI) (use frame_bits [OF a] in \<open>auto simp: b address_bits_def\<close>)
  show "has_flag (unshared_entry a e) PTE_WRITABLE" "\<not> has_flag (unshared_entry a e) PTE_COW"
    "has_flag (unshared_entry a e) PTE_PRESENT = has_flag e PTE_PRESENT"
    "has_flag (unshared_entry a e) PTE_USER = has_flag e PTE_USER"
    "has_flag (unshared_entry a e) PTE_NOPMM = has_flag e PTE_NOPMM"
    using na by (simp_all add: has_flag_bits b)
qed

lemma vmm_handle_cow_fault_walk:
  "vmm_handle_cow_fault r va m =
     (case walk m r (ptpath va) of None \<Rightarrow> (False, m) | Some pt \<Rightarrow>
        let e = rd m pt (pt_entry va); phys = entry_addr e in
        if \<not> has_flag e PTE_PRESENT \<or> \<not> has_flag e PTE_COW then (False, m)
        else if pmm_page_refcount m phys = 1 then (True, wr pt (pt_entry va) (unshared_entry phys e) m)
        else case pmm_alloc_page m of (new, m1) \<Rightarrow> if new = NULL then (False, m1)
          else (True, pmm_free_page phys (wr pt (pt_entry va) (unshared_entry new e) (copy_page new phys m1))))"
  by (cases "pmm_alloc_page m") (simp add: vmm_handle_cow_fault_def ptpath_def Let_def unshared_entry_def)

lemma vmm_handle_cow_fault_refused:
  assumes "\<And>e. lookup m r va = Some e \<Longrightarrow> \<not> has_flag e PTE_COW"
  shows "vmm_handle_cow_fault r va m = (False, m)"
  using assms by (auto simp: vmm_handle_cow_fault_walk lookup_Some Let_def split: option.split)

lemma refcount_owners:
  "0 < owners_of m (frame_no a) \<Longrightarrow> pmm_page_refcount m a = 1 \<longleftrightarrow> owners_of m (frame_no a) = 1"
  by (auto simp: owners_of_def frame_state_def pmm_page_refcount_def word_unat_eq_iff split: if_splits)

text \<open>
  What a resolved fault guarantees: the page is writable at the same address with the same contents, no
  other mapping shares its frame any more, and no other entry or page changed.
\<close>

definition cow_resolved :: "'a machine_scheme \<Rightarrow> addr set \<Rightarrow> addr \<Rightarrow> addr \<Rightarrow> u64 \<Rightarrow> 'a machine_scheme \<Rightarrow> bool" where
  "cow_resolved m R r va e m' \<longleftrightarrow>
     (\<exists>e'. lookup m' r va = Some e' \<and> has_flag e' PTE_WRITABLE \<and> \<not> has_flag e' PTE_COW
        \<and> has_flag e' PTE_USER = has_flag e PTE_USER
        \<and> phys_mem m' (frame_no (entry_addr e')) = phys_mem m (frame_no (entry_addr e))
        \<and> refs m' R (frame_no (entry_addr e')) = {(r, vpath va)})
     \<and> (\<forall>r'\<in>R. \<forall>p. user_path p \<and> length p = 4 \<and> (r', p) \<noteq> (r, vpath va) \<longrightarrow>
          entry_at m' r' p = entry_at m r' p)
     \<and> (\<forall>f. frame_state m f \<noteq> None \<and> data_frame m R f \<longrightarrow> phys_mem m' f = phys_mem m f)"

lemma pays_unshared:
  "entry_addr a = a \<Longrightarrow> has_flag e PTE_PRESENT \<Longrightarrow> \<not> has_flag e PTE_NOPMM \<Longrightarrow>
   pays (unshared_entry a e) f = (if frame_no a = f then 1 else 0)"
  by (simp add: pays_def unshared_entry_facts)

lemma sole_owner_refs:
  assumes inv: "vm_inv m R X" and p: "r \<in> R" "user_path p" "length p = 4" "pays (entry_at m r p) f = 1"
    and one: "owners_of m f = 1"
  shows "refs m R f = {(r, p)}"
proof -
  have s: "(r, p) \<in> refs m R f" using p by (simp add: refs_leaf)
  have fin: "finite (refs m R f)" using finite_refs [OF vm_invD(3) [OF inv]] .
  have "card (refs m R f) \<le> 1" using vm_invD(6) [OF inv leaf_frame_bounds(2) [OF inv p]] one by simp
  then show ?thesis using s fin by (auto simp: card_le_Suc0_iff_eq)
qed

lemma cow_in_place:
  assumes inv: "vm_inv m R X" and r: "r \<in> R" "user_va va"
    and pt: "walk m r (ptpath va) = Some pt" "rd m pt (pt_entry va) = e"
    and e: "has_flag e PTE_PRESENT" "\<not> has_flag e PTE_NOPMM"
    and one: "owners_of m (frame_no (entry_addr e)) = 1"
  defines "m' \<equiv> wr pt (pt_entry va) (unshared_entry (entry_addr e) e) m"
  shows "vm_inv m' R X" "cow_resolved m R r va e m'"
proof -
  let ?a = "entry_addr e" and ?p = "vpath va"
  let ?f = "frame_no ?a" and ?v = "unshared_entry (entry_addr e) e"
  have up: "user_path (ptpath va)" "length (ptpath va) = 3" "user_path ?p" "length ?p = 4" using r by auto
  have ab: "entry_addr ?a = ?a" by simp
  have old: "entry_at m r ?p = e" using pt by (simp add: entry_at_vpath)
  have p1: "pays e ?f = 1" using e by (simp add: pays_def)
  have pv: "pays ?v = pays e" using e by (simp add: fun_eq_iff pays_unshared [OF ab]) (simp add: pays_def)
  note ent = leaf_write_entry [OF inv r(1) up(1,2) pt(1), where i = "pt_entry va" and v = ?v, folded m'_def]
  show inv': "vm_inv m' R X" unfolding m'_def
  proof (rule vm_inv_write_leaf [OF inv r(1) up(1,2) pt(1)])
    show "pays ?v f = 1 \<Longrightarrow> 0 < f \<and> f < npages m" for f
      using leaf_frame_bounds [OF inv r(1) up(3,4)] by (simp add: old pv)
  qed (simp_all add: old pv)
  have nw: "entry_at m' r ?p = ?v" using ent [OF r(1) up(3)] by simp
  have rf: "refs m' R ?f = {(r, ?p)}"
    using sole_owner_refs [OF inv' r(1) up(3,4), of ?f] one nw p1 by (simp add: pv m'_def frame_simps)
  have df: "phys_mem m' f = phys_mem m f" if "data_frame m R f" for f
    using data_frameD [OF that r(1) up(1) _ pt(1)] up(2) leaf_write_data(2) [OF inv r(1) up(1,2) pt(1)]
    by (simp add: m'_def)
  have lk: "lookup m' r va = Some ?v"
    using nw e(1) unshared_entry_facts(4) [OF ab] by (simp add: lookup_def Let_def)
  have "phys_mem m' ?f = phys_mem m ?f"
    using df leaf_data_frame [OF inv r(1) up(3,4), of ?f] p1 by (simp add: old)
  then show "cow_resolved m R r va e m'" unfolding cow_resolved_def
    using lk unshared_entry_facts [OF ab, of e] rf df ent by auto
qed

lemma cow_copy:
  assumes inv: "vm_inv m R X" and r: "r \<in> R" "user_va va"
    and pt: "walk m r (ptpath va) = Some pt" "rd m pt (pt_entry va) = e"
    and e: "has_flag e PTE_PRESENT" "\<not> has_flag e PTE_NOPMM"
    and new: "pmm_alloc_page m = (new, m1)" "new \<noteq> NULL"
  defines "m2 \<equiv> copy_page new (entry_addr e) m1"
  defines "m3 \<equiv> wr pt (pt_entry va) (unshared_entry new e) m2"
  defines "m' \<equiv> pmm_free_page (entry_addr e) m3"
  shows "vm_inv m' R X" "cow_resolved m R r va e m'"
proof -
  let ?p = "vpath va" and ?f = "frame_no (entry_addr e)" and ?n = "frame_no new"
  let ?v = "unshared_entry new e"
  have up: "user_path (ptpath va)" "length (ptpath va) = 3" "user_path ?p" "length ?p = 4" using r by auto
  note al = vm_inv_alloc [OF inv new]
  note c1 = mem_cong [OF al(9)]
  have "?n < 2 ^ 40" using al(7) vm_invD(2) [OF inv] by linarith
  then have ab: "entry_addr new = new" using entry_addr_frame [of ?n] al(5) by simp
  have old: "entry_at m r ?p = e" using pt by (simp add: entry_at_vpath)
  have p1: "pays e ?f = 1" using e by (simp add: pays_def)
  note fb = leaf_frame_bounds [OF inv r(1) up(3,4), unfolded old, OF p1]
  have nf: "?n \<noteq> ?f" using fb(3) al(4) by (auto simp: owners_of_def)
  have dn: "data_frame m1 R ?n" using al(3) by (simp add: unreferenced_data_frame c1)
  have m2: "m2 = m1\<lparr>phys_mem := (phys_mem m1)(?n := phys_mem m ?f)\<rparr>"
    by (simp add: m2_def copy_page_def al(9))
  have i2: "vm_inv m2 R (X(?n := 1))" unfolding m2 by (rule vm_inv_data_write [OF al(1) dn])
  have e2: "entry_at m2 r' p = entry_at m r' p" "walk m2 r' p = walk m r' p"
    if "r' \<in> R" "user_path p" for r' p
    using data_write [OF dn that] by (simp_all add: m2 c1)
  have w2: "walk m2 r (ptpath va) = Some pt" using e2(2) [OF r(1) up(1)] pt(1) by simp
  have np: "npages m2 = npages m" using al(10) by (simp add: m2 frame_simps)
  have pv: "pays ?v g = (if ?n = g then 1 else 0)" for g using pays_unshared [OF ab e] .
  have pe: "pays e g = (if ?f = g then 1 else 0)" for g using e by (simp add: pays_def)
  have i3: "vm_inv m3 R (X(?f := X ?f + 1))" unfolding m3_def
    by (rule vm_inv_write_leaf [OF i2 r(1) up(1,2) w2])
      (use al(2,6,7) nf np in \<open>auto simp: pv pe e2(1) [OF r(1) up(3)] old split: if_splits\<close>)
  have np3: "npages m3 = npages m" by (simp add: m3_def frame_simps np)
  show inv': "vm_inv m' R X"
    using vm_inv_free [OF i3, of "entry_addr e"] fb(1,2) np3 by (simp add: m'_def)
  have mem: "phys_mem m' = phys_mem m3" by (simp add: m'_def frame_simps)
  note c = mem_cong [OF mem]
  have ent: "entry_at m' r' p = (if r' = r \<and> p = ?p then ?v else entry_at m r' p)"
    if "r' \<in> R" "user_path p" for r' p
    using leaf_write_entry [OF i2 r(1) up(1,2) w2 that, where i = "pt_entry va" and v = ?v]
      e2(1) [OF that] by (simp add: c m3_def)
  have nw: "entry_at m' r ?p = ?v" using ent [OF r(1) up(3)] by simp
  have "frame_state m' ?n = Some 1"
    using pmm_frames.free_frame [OF vm_invD(1) [OF i3], of "entry_addr e"] fb np3 nf al(8)
    by (simp add: m'_def) (simp add: m3_def m2 frame_simps)
  then have "owners_of m' ?n = 1" by (simp add: owners_of_def)
  then have rf: "refs m' R ?n = {(r, ?p)}"
    using sole_owner_refs [OF inv' r(1) up(3,4), of ?n] by (simp add: nw pv)
  have tp: "frame_no pt \<noteq> g" if "data_frame m R g" for g
    using data_frameD [OF that r(1) up(1) _ pt(1)] up(2) by simp
  have df: "phys_mem m' g = phys_mem m g" if "frame_state m g \<noteq> None" "data_frame m R g" for g
  proof -
    have "g \<noteq> ?n" using that(1) al(4) by auto
    then show ?thesis using tp [OF that(2)] unfolding mem by (simp add: m3_def wr_def m2 al(9))
  qed
  have "?n \<noteq> frame_no pt" using tp [OF unreferenced_data_frame [OF al(3)]] by simp
  then have cp: "phys_mem m' ?n = phys_mem m ?f" unfolding mem by (simp add: m3_def wr_def m2)
  have lk: "lookup m' r va = Some ?v"
    using nw e(1) unshared_entry_facts(4) [OF ab] by (simp add: lookup_def Let_def)
  show "cow_resolved m R r va e m'" unfolding cow_resolved_def
    using lk unshared_entry_facts [OF ab, of e] rf cp df ent by auto
qed

lemma vmm_handle_cow_fault_spec:
  assumes inv: "vm_inv m R X" and r: "r \<in> R" "user_va va"
    and e: "lookup m r va = Some e" "has_flag e PTE_COW" "\<not> has_flag e PTE_NOPMM"
  shows "case vmm_handle_cow_fault r va m of
      (True, m') \<Rightarrow> vm_inv m' R X \<and> cow_resolved m R r va e m'
    | (False, m') \<Rightarrow> m' = m \<and> free_frames m = 0 \<and> owners_of m (frame_no (entry_addr e)) \<noteq> 1"
proof -
  obtain pt where pt: "walk m r (ptpath va) = Some pt" "rd m pt (pt_entry va) = e"
      and pr: "has_flag e PTE_PRESENT" using e(1) by (auto simp: lookup_Some)
  have up: "user_path (vpath va)" "length (vpath va) = 4" using r by auto
  have "entry_at m r (vpath va) = e" using pt by (simp add: entry_at_vpath)
  moreover have "pays e (frame_no (entry_addr e)) = 1" using e pr by (simp add: pays_def)
  ultimately have "0 < owners_of m (frame_no (entry_addr e))"
    using leaf_frame_bounds(3) [OF inv r(1) up] by simp
  note rc = refcount_owners [OF this]
  obtain a m1 where a: "pmm_alloc_page m = (a, m1)" by fastforce
  show ?thesis
  proof (cases "owners_of m (frame_no (entry_addr e)) = 1")
    case True
    then show ?thesis using cow_in_place [OF inv r pt pr e(3)] pt pr e rc
      by (simp add: vmm_handle_cow_fault_walk Let_def)
  next
    case False
    show ?thesis
    proof (cases "a = NULL")
      case True
      then have "m1 = m" "free_frames m = 0"
        using pmm_frames.alloc_null [OF vm_invD(1) [OF inv]] a by (auto simp: free_frames_def)
      then show ?thesis using pt pr e rc False a True by (simp add: vmm_handle_cow_fault_walk Let_def)
    next
      case False
      then show ?thesis using cow_copy [OF inv r pt pr e(3) a False] pt pr e rc
          \<open>owners_of m (frame_no (entry_addr e)) \<noteq> 1\<close> a
        by (simp add: vmm_handle_cow_fault_walk Let_def)
    qed
  qed
qed

end
