(* ===== verification/Vmm_Space.thy ===== *)
theory Vmm_Space
  imports Vmm_Ops
begin

text \<open>
  Whole address spaces: creating one (\<open>vmm_new_user_pagetable\<close>), copying one
  (\<open>vmm_clone_user_pagetable\<close>, the memory half of fork) and tearing one down
  (\<open>vmm_destroy_user_pagetable\<close>). The four nested loops of the last two are followed through
  an invariant over the set of leaf slots already visited.
\<close>

section \<open>A new address space\<close>

lemma fold_copy_entries:
  assumes "frame_no (kernel_pml4 m) \<noteq> frame_no a"
  shows "fold (\<lambda>i m. wr a i (rd m (kernel_pml4 m) i) m) is m =
     m\<lparr>phys_mem := (phys_mem m)(frame_no a :=
        (\<lambda>i. if i \<in> set is then phys_mem m (frame_no (kernel_pml4 m)) i else phys_mem m (frame_no a) i))\<rparr>"
  using assms
proof (induction "is" arbitrary: m)
  case (Cons i "is")
  let ?m = "wr a i (rd m (kernel_pml4 m) i) m"
  have k: "kernel_pml4 ?m = kernel_pml4 m" by (simp add: wr_def)
  let ?z = "\<lambda>i. if i \<in> set is then phys_mem ?m (frame_no (kernel_pml4 m)) i else phys_mem ?m (frame_no a) i"
  let ?y = "\<lambda>j. if j \<in> set (i # is) then phys_mem m (frame_no (kernel_pml4 m)) j else phys_mem m (frame_no a) j"
  have ih: "fold (\<lambda>i m. wr a i (rd m (kernel_pml4 m) i) m) is ?m =
     ?m\<lparr>phys_mem := (phys_mem ?m)(frame_no a := ?z)\<rparr>"
    using Cons.IH [of ?m] Cons.prems unfolding k .
  have "?z = ?y" using Cons.prems by (auto simp: wr_def rd_def fun_eq_iff)
  then have ih': "fold (\<lambda>i m. wr a i (rd m (kernel_pml4 m) i) m) is ?m =
     ?m\<lparr>phys_mem := (phys_mem ?m)(frame_no a := ?y)\<rparr>" using ih by (simp only:)
  have u: "?m\<lparr>phys_mem := (phys_mem ?m)(frame_no a := y)\<rparr> = m\<lparr>phys_mem := (phys_mem m)(frame_no a := y)\<rparr>" for y
    by (simp add: wr_def)
  show ?case unfolding fold_simps(2) ih' u ..
qed simp

text \<open>The kernel's own root table is outside the frames the allocator hands out.\<close>

definition kernel_root_ok :: "'a machine_scheme \<Rightarrow> bool" where
  "kernel_root_ok m \<longleftrightarrow> npages m \<le> frame_no (kernel_pml4 m) \<or> frame_state m (frame_no (kernel_pml4 m)) \<noteq> None"

lemma refs_insert_root:
  assumes "a \<notin> R" "\<And>i. i < 256 \<Longrightarrow> rd m a i = 0"
  shows "refs m (insert a R) f = (if frame_no a = f then insert (a, []) (refs m R f) else refs m R f)"
proof -
  have "walk m a p = Some t \<longleftrightarrow> p = [] \<and> t = a" if "user_path p" for p t
    using that assms(2) by (cases p) (auto simp: user_path_def)
  then show ?thesis using assms(1) by (auto simp: refs_def)
qed

lemma vmm_new_user_pagetable_spec:
  assumes inv: "vm_inv m R X" and k: "kernel_root_ok m"
    and g: "vmm_new_user_pagetable m = (Some a, m')"
  shows "vm_inv m' (insert a R) X" "a \<notin> R"
    "\<And>p. user_path p \<Longrightarrow> length p = 4 \<Longrightarrow> entry_at m' a p = 0"
    "\<And>i. 256 \<le> i \<Longrightarrow> i < 512 \<Longrightarrow> rd m' a i = rd m (kernel_pml4 m) i"
    "\<And>r p. r \<in> R \<Longrightarrow> user_path p \<Longrightarrow> entry_at m' r p = entry_at m r p \<and> walk m' r p = walk m r p"
    "\<And>f. frame_state m f \<noteq> None \<Longrightarrow> frame_state m' f = frame_state m f \<and> phys_mem m' f = phys_mem m f"
    "npages m' = npages m" "\<And>f. data_frame m R f \<Longrightarrow> frame_state m f \<noteq> None \<Longrightarrow> data_frame m' (insert a R) f"
    "free_frames m = free_frames m' + 1"
proof -
  obtain m1 where al: "pmm_alloc_page m = (a, m1)" "a \<noteq> NULL"
    using g by (auto simp: vmm_new_user_pagetable_def split: prod.splits if_splits)
  let ?f = "frame_no a" and ?k = "frame_no (kernel_pml4 m)"
  note na = vm_inv_alloc [OF inv al]
  have k1: "kernel_pml4 m1 = kernel_pml4 m" using pmm_ops_mem(2) [of m] al by simp
  have kf: "?k \<noteq> ?f" using k na(4,7) by (auto simp: kernel_root_ok_def)
  define x where "x = (\<lambda>i. if i \<in> set kernel_slots then phys_mem m ?k i else 0)"
  have "m' = fold (\<lambda>i m. wr a i (rd m (kernel_pml4 m) i) m) kernel_slots (zero_page a m1)"
    using g al by (simp add: vmm_new_user_pagetable_def)
  also have "\<dots> = (zero_page a m1)\<lparr>phys_mem := (phys_mem (zero_page a m1))(?f := x)\<rparr>"
    by (subst fold_copy_entries) (use kf in \<open>simp_all add: zero_page_def k1 na(9) x_def cong: if_cong\<close>)
  finally have m': "m' = m1\<lparr>phys_mem := (phys_mem m1)(?f := x)\<rparr>" by (simp add: zero_page_def)
  note c1 = mem_cong [OF na(9)]
  have df: "data_frame m1 R ?f" using na(3) by (simp add: unreferenced_data_frame c1)
  have i1: "vm_inv m' R (X(?f := 1))" unfolding m' by (rule vm_inv_data_write [OF na(1) df])
  have e1: "entry_at m' r p = entry_at m r p \<and> walk m' r p = walk m r p" if "r \<in> R" "user_path p" for r p
    using data_write [OF df that] by (simp add: m' c1)
  then show "\<And>r p. r \<in> R \<Longrightarrow> user_path p \<Longrightarrow> entry_at m' r p = entry_at m r p \<and> walk m' r p = walk m r p" .
  have rx: "rd m' a i = x i" for i by (simp add: m' rd_def)
  show "\<And>i. 256 \<le> i \<Longrightarrow> i < 512 \<Longrightarrow> rd m' a i = rd m (kernel_pml4 m) i"
    using rx by (simp add: x_def) (simp add: rd_def)
  have r0: "rd m' a i = 0" if "i < 256" for i using that rx by (simp add: x_def)
  have a1: "(r, []) \<notin> refs m R ?f" for r using na(3) by simp
  then show anR: "a \<notin> R" by (auto simp: refs_root)
  have refs1: "refs m' R = refs m R" by (rule refs_entry_cong) (use e1 in blast)
  note rf = refs_insert_root [OF anR r0]
  show np: "npages m' = npages m" using na(10) by (simp add: m' frame_simps)
  have fs: "frame_state m' = (frame_state m)(?f \<mapsto> 1)" using na(8) by (simp add: m' frame_simps)
  then have ow: "owners_of m' ?f = 1" by (simp add: owners_of_def)
  show "\<And>p. user_path p \<Longrightarrow> length p = 4 \<Longrightarrow> entry_at m' a p = 0"
  proof -
    fix p assume p: "user_path p" "length p = 4"
    then obtain i q where q: "p = i # q" "i < 256" "length q = 3" by (cases p) (auto simp: user_path_def)
    have "walk m' a [i] = None" "q \<noteq> []" using r0 [OF q(2)] q(3) by auto
    then show "entry_at m' a p = 0" using entry_below_None [of m' a "[i]" q] q by simp
  qed
  show "\<And>f. frame_state m f \<noteq> None \<Longrightarrow> frame_state m' f = frame_state m f \<and> phys_mem m' f = phys_mem m f"
    using fs na(4,9) by (auto simp: m')
  have wa: "p = []" if "user_path p" "walk m' a p = Some t" for p t
    using that r0 by (cases p) (auto simp: user_path_def)
  show "vm_inv m' (insert a R) X"
  proof (rule vm_invI)
    fix r p t assume "r \<in> insert a R" "user_path p" "length p \<le> 3" "walk m' r p = Some t"
    then show "owners_of m' (frame_no t) = 1" using vm_inv_table(1) [OF i1, of r p t] wa [of p t] ow by auto
  next
    fix f show "refs m' (insert a R) f \<noteq> {} \<Longrightarrow> 0 < f \<and> f < npages m'"
      using vm_invD(5) [OF i1, of f] na(6,7) np by (auto simp: rf split: if_splits)
    have "refs m' R ?f = {}" using na(3) refs1 by simp
    then show "f < npages m' \<Longrightarrow> owners_of m' f = card (refs m' (insert a R) f) + X f"
      using vm_invD(6) [OF i1, of f] na(2) by (auto simp: rf split: if_splits)
  qed (use vm_invD [OF i1] na(5) in auto)
  show "data_frame m' (insert a R) f" if d: "data_frame m R f" "frame_state m f \<noteq> None" for f
  proof -
    have "?f \<noteq> f" using d(2) na(4) by auto
    then have "frame_no t \<noteq> f" if "r \<in> insert a R" "user_path p" "length p \<le> 3" "walk m' r p = Some t" for r p t
      using that data_frameD [OF d(1), of r p t] e1 [of r p] wa [of p t] by auto
    then show ?thesis unfolding data_frame_def by blast
  qed
  show "free_frames m = free_frames m' + 1" using free_frames_alloc [OF na(4,7) fs np] .
qed

section \<open>Copying an address space\<close>

subsection \<open>Addresses rebuilt from table indices\<close>

lemma bit_small_nat: "i < 512 \<Longrightarrow> 9 \<le> k \<Longrightarrow> \<not> bit (i::nat) k"
proof
  assume i: "i < 512" and k: "9 \<le> k" "bit i k"
  have "i = take_bit 9 i" using i by (simp add: take_bit_nat_eq_self)
  then show False using k by (metis bit_take_bit_iff leD)
qed

lemma bit_va_of: "bit (va_of i4 i3 i2 i1) k \<longleftrightarrow> k < 64 \<and> (39 \<le> k \<and> bit i4 (k - 39)
    \<or> 30 \<le> k \<and> bit i3 (k - 30) \<or> 21 \<le> k \<and> bit i2 (k - 21) \<or> 12 \<le> k \<and> bit i1 (k - 12))"
  by (auto simp: va_of_def bit_simps)

lemma slot_of_va:
  assumes "s + 9 \<le> 64" "j < 512" "\<And>k. k < 9 \<Longrightarrow> bit va (s + k) = bit j k"
  shows "unat (drop_bit s (va::u64) AND 0x1FF) = j"
proof -
  have "drop_bit s va AND 0x1FF = (of_nat j :: u64)"
    unfolding and_0x1FF
  proof (rule bit_eqI)
    fix k assume "possible_bit TYPE(64 word) k"
    then show "bit (take_bit 9 (drop_bit s va)) k = bit (of_nat j :: u64) k"
      using assms bit_small_nat [OF assms(2), of k] by (cases "k < 9") (auto simp: bit_simps)
  qed
  then show ?thesis using assms(2) by (simp add: unat_of_nat)
qed

lemma vpath_va_of:
  assumes "i4 < 512" "i3 < 512" "i2 < 512" "i1 < 512"
  shows "vpath (va_of i4 i3 i2 i1) = [i4, i3, i2, i1]"
proof -
  note small = bit_small_nat [OF assms(1)] bit_small_nat [OF assms(2)] bit_small_nat [OF assms(3)]
    bit_small_nat [OF assms(4)]
  have "pml4_entry (va_of i4 i3 i2 i1) = i4" unfolding pml4_entry_def
    by (rule slot_of_va) (use assms small in \<open>auto simp: bit_va_of\<close>)
  moreover have "pdpt_entry (va_of i4 i3 i2 i1) = i3" unfolding pdpt_entry_def
    by (rule slot_of_va) (use assms small in \<open>auto simp: bit_va_of\<close>)
  moreover have "pd_entry (va_of i4 i3 i2 i1) = i2" unfolding pd_entry_def
    by (rule slot_of_va) (use assms small in \<open>auto simp: bit_va_of\<close>)
  moreover have "pt_entry (va_of i4 i3 i2 i1) = i1" unfolding pt_entry_def
    by (rule slot_of_va) (use assms small in \<open>auto simp: bit_va_of\<close>)
  ultimately show ?thesis by (simp add: vpath_def)
qed

subsection \<open>One leaf\<close>

text \<open>What sharing turns an entry into: a private writable page becomes read-only and copy-on-write.\<close>

definition cow_entry :: "u64 \<Rightarrow> u64" where
  "cow_entry e = entry_addr e OR (e AND FLAG_MASK AND NOT PTE_WRITABLE OR PTE_COW)"

definition private_writable :: "u64 \<Rightarrow> bool" where
  "private_writable e \<longleftrightarrow> has_flag e PTE_PRESENT \<and> has_flag e PTE_WRITABLE
     \<and> \<not> has_flag e PTE_SHARED \<and> \<not> has_flag e PTE_NOPMM"

definition downgrade :: "u64 \<Rightarrow> u64" where
  "downgrade e = (if private_writable e then cow_entry e else e)"

lemma bit_cow_entry: "bit (cow_entry e) k \<longleftrightarrow> k = 9 \<or> bit e k \<and> k \<noteq> 1"
  unfolding cow_entry_def bit_or_iff [of "entry_addr e"] bit_downgraded bit_entry_addr
  by (auto simp: address_bits_def)

lemma downgrade_facts:
  "entry_addr (downgrade e) = entry_addr e"
  "has_flag (downgrade e) PTE_PRESENT = has_flag e PTE_PRESENT"
  "has_flag (downgrade e) PTE_NOPMM = has_flag e PTE_NOPMM"
  "has_flag (downgrade e) PTE_USER = has_flag e PTE_USER"
  "has_flag (downgrade e) PTE_SHARED = has_flag e PTE_SHARED"
  "\<not> private_writable (downgrade e)"
proof -
  show "entry_addr (downgrade e) = entry_addr e"
    by (rule entry_addr_eqI) (auto simp: downgrade_def bit_cow_entry bit_entry_addr address_bits_def)
qed (simp_all add: has_flag_bits downgrade_def bit_cow_entry private_writable_def)

lemma pays_downgrade: "pays (downgrade e) = pays e"
  by (simp add: fun_eq_iff pays_def downgrade_facts)

lemma entry_split: "entry_addr e OR (e AND FLAG_MASK) = e"
proof (rule bit_eqI)
  fix k assume "possible_bit TYPE(64 word) k"
  then show "bit (entry_addr e OR (e AND FLAG_MASK)) k = bit e k"
    by (auto simp: bit_or_iff bit_and_iff bit_FLAG_MASK bit_entry_addr address_bits_def)
qed

lemma has_flag_FLAG_MASK:
  "has_flag (e AND FLAG_MASK) PTE_WRITABLE = has_flag e PTE_WRITABLE"
  "has_flag (e AND FLAG_MASK) PTE_NOPMM = has_flag e PTE_NOPMM"
  "has_flag (e AND FLAG_MASK) PTE_SHARED = has_flag e PTE_SHARED"
  by (simp_all add: has_flag_bits bit_and_iff bit_FLAG_MASK)

lemma vmm_map_page_entry:
  "pa OR flags = e \<Longrightarrow> vmm_map_page r va pa flags m = vmm_map_page r va (entry_addr e) (e AND FLAG_MASK) m"
  by (simp add: vmm_map_page_reach entry_split split: prod.split option.split)

lemma shared_or_nopmm: "has_flag w 0xC00 \<longleftrightarrow> has_flag w PTE_SHARED \<or> has_flag w PTE_NOPMM"
  using has_flag_or_right [of w PTE_SHARED PTE_NOPMM] by simp

lemma clone_leaf_eq:
  "clone_leaf dst i4 i3 i2 pt i1 m =
     (let e = rd m pt i1; e' = downgrade e;
          m1 = (if private_writable e then wr pt i1 e' m else m);
          m2 = (if has_flag e PTE_NOPMM then m1 else pmm_page_ref_inc (entry_addr e) m1) in
      if \<not> has_flag e PTE_PRESENT then m
      else vmm_map_page dst (va_of i4 i3 i2 i1) (entry_addr e') (e' AND FLAG_MASK) m2)"
proof -
  let ?e = "rd m pt i1"
  define f1 where "f1 = (if private_writable ?e then ?e AND FLAG_MASK AND NOT PTE_WRITABLE OR PTE_COW
                         else ?e AND FLAG_MASK)"
  have e': "entry_addr ?e OR f1 = downgrade ?e"
    by (simp add: f1_def downgrade_def cow_entry_def entry_split)
  have nf: "has_flag f1 PTE_NOPMM = has_flag ?e PTE_NOPMM"
    using bit_downgraded [of ?e 11]
    by (simp add: f1_def has_flag_FLAG_MASK)
       (simp add: has_flag_bits private_writable_def address_bits_def)
  show ?thesis
  proof (cases "has_flag ?e PTE_PRESENT")
    case True
    then have "clone_leaf dst i4 i3 i2 pt i1 m = vmm_map_page dst (va_of i4 i3 i2 i1) (entry_addr ?e) f1
       (let m1 = (if private_writable ?e then wr pt i1 (entry_addr ?e OR f1) m else m)
        in if has_flag f1 PTE_NOPMM then m1 else pmm_page_ref_inc (entry_addr ?e) m1)"
      by (simp add: clone_leaf_def Let_def has_flag_FLAG_MASK shared_or_nopmm f1_def and.assoc
          private_writable_def entry_addr_def [symmetric] cong: if_cong)
    then show ?thesis using True by (simp add: Let_def nf e' vmm_map_page_entry [OF e'] cong: if_cong)
  qed (simp add: clone_leaf_def Let_def)
qed

text \<open>The first half of a leaf's turn: the source entry is downgraded and its frame gains an owner.\<close>

definition share_leaf :: "addr \<Rightarrow> nat \<Rightarrow> 'a machine_scheme \<Rightarrow> 'a machine_scheme" where
  "share_leaf pt i m =
     (let e = rd m pt i; m1 = (if private_writable e then wr pt i (downgrade e) m else m)
      in if has_flag e PTE_NOPMM then m1 else pmm_page_ref_inc (entry_addr e) m1)"

lemma clone_leaf_share:
  "clone_leaf dst i4 i3 i2 pt i1 m =
     (let e = rd m pt i1 in if \<not> has_flag e PTE_PRESENT then m
      else vmm_map_page dst (va_of i4 i3 i2 i1) (entry_addr (downgrade e)) (downgrade e AND FLAG_MASK)
             (share_leaf pt i1 m))"
  by (simp add: clone_leaf_eq share_leaf_def Let_def)

lemma share_leaf_spec:
  assumes inv: "vm_inv m R X" and q: "r \<in> R" "user_path (q @ [i])" "length q = 3" "walk m r q = Some pt"
    and e: "entry_at m r (q @ [i]) = e" "has_flag e PTE_PRESENT"
    and room: "\<not> has_flag e PTE_NOPMM \<longrightarrow> owners_of m (frame_no (entry_addr e)) < 65535"
  defines "m' \<equiv> share_leaf pt i m"
  shows "vm_inv m' R (\<lambda>f. X f + pays e f)"
    "\<And>r' p. r' \<in> R \<Longrightarrow> user_path p \<Longrightarrow>
       entry_at m' r' p = (if r' = r \<and> p = q @ [i] then downgrade e else entry_at m r' p)"
    "\<And>r' p. r' \<in> R \<Longrightarrow> user_path p \<Longrightarrow> length p \<le> 3 \<Longrightarrow> walk m' r' p = walk m r' p"
    "\<And>f. owners_of m' f = owners_of m f + pays e f"
    "\<And>f. frame_state m' f = None \<longleftrightarrow> frame_state m f = None" "npages m' = npages m"
    "\<And>f. data_frame m R f \<Longrightarrow> data_frame m' R f \<and> phys_mem m' f = phys_mem m f"
proof -
  let ?f = "frame_no (entry_addr e)"
  have uq: "user_path q" "i < 512" using q(2) by auto
  have rde: "rd m pt i = e" using e(1) q(4) by (simp add: entry_at_snoc)
  define m1 where "m1 = (if private_writable e then wr pt i (downgrade e) m else m)"
  have m': "m' = (if has_flag e PTE_NOPMM then m1 else pmm_page_ref_inc (entry_addr e) m1)"
    by (simp add: m'_def share_leaf_def m1_def rde Let_def)
  have l4: "length (q @ [i]) = 4" using q(3) by simp
  have i1: "vm_inv m1 R X"
  proof (cases "private_writable e")
    case True
    have "vm_inv (wr pt i (downgrade e) m) R X"
      by (rule vm_inv_write_leaf [OF inv q(1) uq(1) q(3,4) uq(2)])
        (use leaf_frame_bounds [OF inv q(1,2) l4] in \<open>simp_all add: e pays_downgrade\<close>)
    then show ?thesis using True by (simp add: m1_def)
  qed (simp add: m1_def inv)
  have ent: "entry_at m1 r' p = (if r' = r \<and> p = q @ [i] then downgrade e else entry_at m r' p)"
    if "r' \<in> R" "user_path p" for r' p
    using leaf_write_entry [OF inv q(1) uq(1) q(3,4) that, where i = i and v = "downgrade e"] e(1)
    by (auto simp: m1_def downgrade_def)
  have wk: "walk m1 r' p = walk m r' p" if "r' \<in> R" "user_path p" "length p \<le> 3" for r' p
    using leaf_write_walk [OF inv q(1) uq(1) q(3,4) that] by (simp add: m1_def)
  have own1: "owners_of m1 = owners_of m" "frame_state m1 = frame_state m" "npages m1 = npages m"
    by (simp_all add: m1_def frame_simps)
  have df: "data_frame m1 R f \<and> phys_mem m1 f = phys_mem m f" if "data_frame m R f" for f
  proof -
    have "frame_no pt \<noteq> f" using data_frameD [OF that q(1) uq(1) _ q(4)] q(3) by simp
    then show ?thesis using that leaf_write_data [OF inv q(1) uq(1) q(3,4)] by (simp add: m1_def)
  qed
  have mem: "phys_mem m' = phys_mem m1" by (simp add: m' frame_simps)
  note c = mem_cong [OF mem]
  show "\<And>r' p. r' \<in> R \<Longrightarrow> user_path p \<Longrightarrow>
       entry_at m' r' p = (if r' = r \<and> p = q @ [i] then downgrade e else entry_at m r' p)"
    unfolding c by (rule ent)
  show "\<And>r' p. r' \<in> R \<Longrightarrow> user_path p \<Longrightarrow> length p \<le> 3 \<Longrightarrow> walk m' r' p = walk m r' p"
    unfolding c by (rule wk)
  show "data_frame m R f \<Longrightarrow> data_frame m' R f \<and> phys_mem m' f = phys_mem m f" for f
    using df [of f] by (simp add: data_frame_def c mem)
  have "vm_inv m' R (\<lambda>f. X f + pays e f) \<and> (\<forall>f. owners_of m' f = owners_of m f + pays e f)
     \<and> (\<forall>f. frame_state m' f = None \<longleftrightarrow> frame_state m f = None) \<and> npages m' = npages m"
  proof (cases "has_flag e PTE_NOPMM")
    case True
    then have "pays e = (\<lambda>f. 0)" by (simp add: fun_eq_iff pays_def)
    then show ?thesis using True i1 by (simp add: m' own1)
  next
    case False
    have p1: "pays (entry_at m r (q @ [i])) ?f = 1" using e False by (simp add: pays_def)
    note b = leaf_frame_bounds [OF inv q(1,2) l4 p1]
    have d: "data_frame m1 R ?f" using df leaf_data_frame [OF inv q(1,2) l4 p1] by simp
    note sh = vm_inv_share [OF i1, of "entry_addr e", unfolded own1, OF b(2) d b(3) room [rule_format, OF False]]
    obtain n where n: "frame_state m1 ?f = Some n" "n = owners_of m ?f"
      using b(3) own1 by (auto simp: owners_of_def split: option.splits)
    have pf: "X(?f := X ?f + 1) = (\<lambda>f. X f + pays e f)"
      "(owners_of m)(?f := owners_of m ?f + 1) = (\<lambda>f. owners_of m f + pays e f)"
      using e False by (auto simp: fun_eq_iff pays_def)
    have "frame_state m' = (frame_state m)(?f \<mapsto> n + 1)" "npages m' = npages m"
      using pmm_frames.share_frame [OF vm_invD(1) [OF i1], of "entry_addr e" n] b(2) n room [rule_format, OF False] False
      by (simp_all add: m' own1)
    then show ?thesis using sh n False unfolding pf by (simp add: m' own1)
  qed
  then show "vm_inv m' R (\<lambda>f. X f + pays e f)" "\<And>f. owners_of m' f = owners_of m f + pays e f"
    "\<And>f. frame_state m' f = None \<longleftrightarrow> frame_state m f = None" "npages m' = npages m" by simp_all
qed

end
