(* ===== verification/Vmm_Clone.thy ===== *)
theory Vmm_Clone
  imports Vmm_Space
begin

text \<open>
  The copy-on-write copy of an address space, \<open>vmm_clone_user_pagetable\<close>: the state of the four
  nested loops after the leaf slots \<open>D\<close> have had their turn, and what holds at the end.
\<close>

section \<open>The loop invariant\<close>

definition leaf_path :: "nat list \<Rightarrow> bool" where
  "leaf_path p \<longleftrightarrow> user_path p \<and> length p = 4"

definition present :: "u64 \<Rightarrow> bool" where
  "present e \<longleftrightarrow> has_flag e PTE_PRESENT"

text \<open>The leaf slots among \<open>D\<close> that hold a counted reference to frame \<open>f\<close>.\<close>

definition payers :: "'a machine_scheme \<Rightarrow> addr \<Rightarrow> nat list set \<Rightarrow> nat \<Rightarrow> nat list set" where
  "payers m r D f = {p \<in> D. leaf_path p \<and> pays (entry_at m r p) f = 1}"

text \<open>The leaf slots among \<open>D\<close> that are mapped at all.\<close>

definition mapped :: "'a machine_scheme \<Rightarrow> addr \<Rightarrow> nat list set \<Rightarrow> nat list set" where
  "mapped m r D = {p \<in> D. leaf_path p \<and> present (entry_at m r p)}"

definition cloned ::
  "'a machine_scheme \<Rightarrow> addr set \<Rightarrow> addr \<Rightarrow> addr \<Rightarrow> (nat \<Rightarrow> nat) \<Rightarrow> nat list set \<Rightarrow> 'a machine_scheme \<Rightarrow> bool" where
  "cloned m0 R src dst X D m \<longleftrightarrow>
     (\<exists>X'. (\<forall>f. X f \<le> X' f) \<and> vm_inv m R X' \<and> (free_frames m = 0 \<or> X' = X))
     \<and> npages m = npages m0 \<and> (\<forall>f. frame_state m0 f \<noteq> None \<longrightarrow> frame_state m f \<noteq> None)
     \<and> (\<forall>r\<in>R. \<forall>p. leaf_path p \<and> r \<noteq> src \<and> r \<noteq> dst \<longrightarrow> entry_at m r p = entry_at m0 r p)
     \<and> (\<forall>p. leaf_path p \<longrightarrow> entry_at m src p =
           (if p \<in> D then downgrade (entry_at m0 src p) else entry_at m0 src p))
     \<and> (\<forall>p. leaf_path p \<longrightarrow> (if p \<in> D \<and> present (entry_at m0 src p)
           then entry_at m dst p = downgrade (entry_at m0 src p)
                \<or> free_frames m = 0 \<and> \<not> present (entry_at m dst p)
           else \<not> present (entry_at m dst p)))
     \<and> (\<forall>p. user_path p \<and> length p \<le> 3 \<longrightarrow> walk m src p = walk m0 src p)
     \<and> (\<forall>f. frame_state m0 f \<noteq> None \<and> data_frame m0 R f \<longrightarrow> data_frame m R f \<and> phys_mem m f = phys_mem m0 f)
     \<and> (\<forall>f. 0 < owners_of m0 f \<longrightarrow> owners_of m f = owners_of m0 f + card (payers m0 src D f))
     \<and> free_frames m0 \<le> free_frames m + 3 * card (mapped m0 src D)
     \<and> (\<forall>r\<in>R. \<forall>p. r \<noteq> dst \<and> user_path p \<and> length p \<le> 3 \<longrightarrow> walk m r p = walk m0 r p)"

lemma clonedD:
  assumes "cloned m0 R src dst X D m"
  shows "\<exists>X'. (\<forall>f. X f \<le> X' f) \<and> vm_inv m R X' \<and> (free_frames m = 0 \<or> X' = X)"
    "npages m = npages m0" "\<And>f. frame_state m0 f \<noteq> None \<Longrightarrow> frame_state m f \<noteq> None"
    "\<And>r p. r \<in> R \<Longrightarrow> leaf_path p \<Longrightarrow> r \<noteq> src \<Longrightarrow> r \<noteq> dst \<Longrightarrow> entry_at m r p = entry_at m0 r p"
    "\<And>p. leaf_path p \<Longrightarrow> entry_at m src p =
       (if p \<in> D then downgrade (entry_at m0 src p) else entry_at m0 src p)"
    "\<And>p. leaf_path p \<Longrightarrow> p \<in> D \<Longrightarrow> present (entry_at m0 src p) \<Longrightarrow>
       entry_at m dst p = downgrade (entry_at m0 src p) \<or> free_frames m = 0 \<and> \<not> present (entry_at m dst p)"
    "\<And>p. leaf_path p \<Longrightarrow> \<not> (p \<in> D \<and> present (entry_at m0 src p)) \<Longrightarrow> \<not> present (entry_at m dst p)"
    "\<And>p. user_path p \<Longrightarrow> length p \<le> 3 \<Longrightarrow> walk m src p = walk m0 src p"
    "\<And>f. frame_state m0 f \<noteq> None \<Longrightarrow> data_frame m0 R f \<Longrightarrow> data_frame m R f \<and> phys_mem m f = phys_mem m0 f"
    "\<And>f. 0 < owners_of m0 f \<Longrightarrow> owners_of m f = owners_of m0 f + card (payers m0 src D f)"
    "free_frames m0 \<le> free_frames m + 3 * card (mapped m0 src D)"
    "\<And>r p. r \<in> R \<Longrightarrow> r \<noteq> dst \<Longrightarrow> user_path p \<Longrightarrow> length p \<le> 3 \<Longrightarrow> walk m r p = walk m0 r p"
  using assms unfolding cloned_def by (blast | presburger)+

lemma clonedI:
  assumes "\<And>f. X f \<le> X' f" "vm_inv m R X'" "free_frames m = 0 \<or> X' = X"
    "npages m = npages m0" "\<And>f. frame_state m0 f \<noteq> None \<Longrightarrow> frame_state m f \<noteq> None"
    "\<And>r p. r \<in> R \<Longrightarrow> leaf_path p \<Longrightarrow> r \<noteq> src \<Longrightarrow> r \<noteq> dst \<Longrightarrow> entry_at m r p = entry_at m0 r p"
    "\<And>p. leaf_path p \<Longrightarrow> entry_at m src p =
       (if p \<in> D then downgrade (entry_at m0 src p) else entry_at m0 src p)"
    "\<And>p. leaf_path p \<Longrightarrow> p \<in> D \<Longrightarrow> present (entry_at m0 src p) \<Longrightarrow>
       entry_at m dst p = downgrade (entry_at m0 src p) \<or> free_frames m = 0 \<and> \<not> present (entry_at m dst p)"
    "\<And>p. leaf_path p \<Longrightarrow> \<not> (p \<in> D \<and> present (entry_at m0 src p)) \<Longrightarrow> \<not> present (entry_at m dst p)"
    "\<And>p. user_path p \<Longrightarrow> length p \<le> 3 \<Longrightarrow> walk m src p = walk m0 src p"
    "\<And>f. frame_state m0 f \<noteq> None \<Longrightarrow> data_frame m0 R f \<Longrightarrow> data_frame m R f \<and> phys_mem m f = phys_mem m0 f"
    "\<And>f. 0 < owners_of m0 f \<Longrightarrow> owners_of m f = owners_of m0 f + card (payers m0 src D f)"
    "free_frames m0 \<le> free_frames m + 3 * card (mapped m0 src D)"
    "\<And>r p. r \<in> R \<Longrightarrow> r \<noteq> dst \<Longrightarrow> user_path p \<Longrightarrow> length p \<le> 3 \<Longrightarrow> walk m r p = walk m0 r p"
  shows "cloned m0 R src dst X D m"
  unfolding cloned_def using assms(4-) by (intro conjI exI [of _ X'] allI impI) (use assms(1-3) in simp_all)

lemma finite_payers: "finite (payers m r D f)"
  by (rule finite_subset [OF _ finite_user_paths]) (auto simp: payers_def leaf_path_def)

lemma finite_mapped: "finite (mapped m r D)"
  by (rule finite_subset [OF _ finite_user_paths]) (auto simp: mapped_def leaf_path_def)

lemma free_frames_mono:
  assumes "npages m' = npages m" "\<And>f. frame_state m f \<noteq> None \<Longrightarrow> frame_state m' f \<noteq> None"
  shows "free_frames m' \<le> free_frames m"
proof -
  have "{f. f < npages m' \<and> frame_state m' f = None} \<subseteq> {f. f < npages m \<and> frame_state m f = None}"
    using assms(1) assms(2) by fastforce
  then show ?thesis unfolding free_frames_def by (intro card_mono) auto
qed

lemma cloned_start:
  assumes "vm_inv m R X" "\<And>p. leaf_path p \<Longrightarrow> entry_at m dst p = 0"
  shows "cloned m R src dst X {} m"
  using assms by (auto simp: cloned_def present_def payers_def mapped_def)

text \<open>Slots without a present entry need no work.\<close>

lemma cloned_skip:
  assumes c: "cloned m0 R src dst X D m" and E: "\<And>p. p \<in> E \<Longrightarrow> leaf_path p \<Longrightarrow> \<not> present (entry_at m0 src p)"
  shows "cloned m0 R src dst X (D \<union> E) m"
proof -
  have pe: "payers m0 src (D \<union> E) f = payers m0 src D f" for f
    using E by (auto simp: payers_def pays_def present_def split: if_splits)
  have mp: "mapped m0 src (D \<union> E) = mapped m0 src D" using E by (auto simp: mapped_def)
  have dg: "downgrade (entry_at m0 src p) = entry_at m0 src p" if "p \<in> E" "leaf_path p" for p
    using E [OF that] by (simp add: downgrade_def private_writable_def present_def)
  have "entry_at m src p = (if p \<in> D \<union> E then downgrade (entry_at m0 src p) else entry_at m0 src p)"
    if "leaf_path p" for p
    using c dg [OF _ that] that by (cases "p \<in> D"; cases "p \<in> E") (simp_all add: cloned_def)
  moreover have "if p \<in> D \<union> E \<and> present (entry_at m0 src p)
      then entry_at m dst p = downgrade (entry_at m0 src p) \<or> free_frames m = 0 \<and> \<not> present (entry_at m dst p)
      else \<not> present (entry_at m dst p)" if "leaf_path p" for p
  proof -
    have "p \<in> D \<union> E \<and> present (entry_at m0 src p) \<longleftrightarrow> p \<in> D \<and> present (entry_at m0 src p)"
      using E that by blast
    then show ?thesis using c that unfolding cloned_def by presburger
  qed
  ultimately show ?thesis using c unfolding cloned_def pe mp by blast
qed

section \<open>One leaf\<close>

text \<open>Hypotheses of a whole copy: two different address spaces, and no frame would gain more owners than
  its 16-bit count can hold.\<close>

definition copy_room :: "'a machine_scheme \<Rightarrow> addr \<Rightarrow> bool" where
  "copy_room m src \<longleftrightarrow> (\<forall>f. owners_of m f + card (payers m src UNIV f) \<le> 65535)"

lemma payers_insert:
  assumes "leaf_path p" "p \<notin> D"
  shows "card (payers m r (insert p D) f) = card (payers m r D f) + pays (entry_at m r p) f"
proof (cases "pays (entry_at m r p) f = 1")
  case True
  then have "payers m r (insert p D) f = insert p (payers m r D f)" using assms by (auto simp: payers_def)
  then show ?thesis using True assms(2) finite_payers [of m r D f] by (simp add: payers_def)
next
  case False
  then have "payers m r (insert p D) f = payers m r D f" by (auto simp: payers_def)
  moreover have "pays (entry_at m r p) f = 0" using False by (simp add: pays_def split: if_splits)
  ultimately show ?thesis by simp
qed

lemma payers_less:
  assumes "leaf_path p" "p \<notin> D" "pays (entry_at m r p) f = 1"
  shows "card (payers m r D f) < card (payers m r UNIV f)"
  by (rule psubset_card_mono [OF finite_payers]) (use assms in \<open>auto simp: payers_def\<close>)

lemma clone_leaf_room:
  assumes inv0: "vm_inv m0 R X" and c: "cloned m0 R src dst X D m" and R: "src \<in> R"
    and room: "copy_room m0 src" and p: "leaf_path p" "p \<notin> D" "pays (entry_at m0 src p) f = 1"
  shows "owners_of m f < 65535"
proof -
  have "user_path p" "length p = 4" using p(1) by (auto simp: leaf_path_def)
  then have "0 < owners_of m0 f" using leaf_frame_bounds(3) [OF inv0 R _ _ p(3)] by blast
  then have "owners_of m f = owners_of m0 f + card (payers m0 src D f)" by (rule clonedD(10) [OF c])
  also have "\<dots> < owners_of m0 f + card (payers m0 src UNIV f)" using payers_less [OF p] by simp
  also have "\<dots> \<le> 65535" using room by (simp add: copy_room_def)
  finally show ?thesis .
qed

lemma clone_leaf_step:
  assumes inv0: "vm_inv m0 R X" and c: "cloned m0 R src dst X D m" and R: "src \<in> R" "dst \<in> R" "src \<noteq> dst"
    and room: "copy_room m0 src"
    and p: "leaf_path (q @ [i])" "q @ [i] \<notin> D" and w: "walk m0 src q = Some pt" and va: "vpath va = q @ [i]"
    and e: "entry_at m0 src (q @ [i]) = e" "present e"
  shows "cloned m0 R src dst X (insert (q @ [i]) D)
     (vmm_map_page dst va (entry_addr (downgrade e)) (downgrade e AND FLAG_MASK) (share_leaf pt i m))"
proof -
  let ?p = "q @ [i]" and ?d = "downgrade e"
  obtain X' where X': "\<And>f. X f \<le> X' f" "vm_inv m R X'" "free_frames m = 0 \<or> X' = X"
    using clonedD(1) [OF c] by blast
  have up: "user_path ?p" "length ?p = 4" "length q = 3" "user_path q" using p(1) by (auto simp: leaf_path_def)
  have wm: "walk m src q = Some pt" using clonedD(8) [OF c up(4)] w up(3) by simp
  have em: "entry_at m src ?p = e" using clonedD(5) [OF c p(1)] p(2) e(1) by simp
  have pe: "has_flag e PTE_PRESENT" using e(2) by (simp add: present_def)
  have rm: "\<not> has_flag e PTE_NOPMM \<longrightarrow> owners_of m (frame_no (entry_addr e)) < 65535"
    using clone_leaf_room [OF inv0 c R(1) room p, of "frame_no (entry_addr e)"] pe e by (simp add: pays_def)
  define ms where "ms = share_leaf pt i m"
  note sh = share_leaf_spec [OF X'(2) R(1) up(1,3) wm em pe rm, folded ms_def]
  have old: "pays (entry_at ms dst ?p) f = 0" for f
    using sh(2) [OF R(2) up(1)] clonedD(7) [OF c p(1)] p(2) R(3) by (simp add: pays_def present_def)
  have uv: "user_va va" using va up(1) user_path_vpath [of va] by simp
  have eq: "entry_addr ?d OR (?d AND FLAG_MASK) = ?d" by (rule entry_split)
  have own: "\<forall>f. pays ?d f = 1 \<longrightarrow> 0 < X' f + pays e f \<and> 0 < f \<and> f < npages ms"
    using leaf_frame_bounds [OF X'(2) R(1) up(1,2)] sh(6) by (simp add: em pays_downgrade)
  define m' where "m' = vmm_map_page dst va (entry_addr ?d) (?d AND FLAG_MASK) ms"
  note mp = vmm_map_page_spec [OF sh(1) R(2) uv, of "entry_addr ?d" "?d AND FLAG_MASK",
      unfolded eq, OF own, folded m'_def, unfolded va]
  have mv: "moved (\<lambda>f. X' f + pays e f) (entry_at ms dst ?p) ?d = X'"
    by (simp add: fun_eq_iff moved_def old pays_downgrade)
  have fs: "free_frames ms = free_frames m" by (simp add: free_frames_def sh(5,6))
  have held: "frame_state m' f \<noteq> None" if "frame_state m f \<noteq> None" for f using mp(3) [of f] sh(5) [of f] that by auto
  have ff: "free_frames m' \<le> free_frames m"
    by (rule free_frames_mono) (use held mp(5) sh(6) in auto)
  have fin: "entry_at m' dst ?p = ?d \<and> vm_inv m' R X'
      \<or> free_frames m' = 0 \<and> \<not> present (entry_at m' dst ?p) \<and> vm_inv m' R (\<lambda>f. X' f + pays e f)"
    using mp(1) unfolding mv using sh(2) [OF R(2) up(1)] clonedD(7) [OF c p(1)] p(2) R(3) by auto
  have ent: "entry_at m' r p' = entry_at ms r p'" if "r \<in> R" "leaf_path p'" "(r, p') \<noteq> (dst, ?p)" for r p'
    using mp(2) [of r p'] that by (auto simp: leaf_path_def)
  have src': "entry_at m' src p' = (if p' = ?p then ?d else entry_at m src p')" if "leaf_path p'" for p'
    using ent [OF R(1) that] sh(2) [OF R(1), of p'] that R(3) by (auto simp: leaf_path_def)
  have oth': "entry_at m' r p' = entry_at m r p'" if "r \<in> R" "leaf_path p'" "r \<noteq> src" "(r, p') \<noteq> (dst, ?p)" for r p'
    using ent [OF that(1,2,4)] sh(2) [OF that(1), of p'] that by (auto simp: leaf_path_def)
  show ?thesis unfolding m'_def [symmetric] ms_def [symmetric]
  proof (rule clonedI [where X' = "if entry_at m' dst ?p = ?d then X' else (\<lambda>f. X' f + pays e f)"])
    show "vm_inv m' R (if entry_at m' dst ?p = ?d then X' else (\<lambda>f. X' f + pays e f))"
      using fin e(2) by (auto simp: present_def downgrade_facts)
    show "free_frames m' = 0 \<or> (if entry_at m' dst ?p = ?d then X' else (\<lambda>f. X' f + pays e f)) = X"
      using fin X'(3) ff by auto
    show "npages m' = npages m0" using mp(5) sh(6) clonedD(2) [OF c] by simp
    show "frame_state m' f \<noteq> None" if "frame_state m0 f \<noteq> None" for f
      using held clonedD(3) [OF c that] .
    show "entry_at m' r p' = entry_at m0 r p'" if "r \<in> R" "leaf_path p'" "r \<noteq> src" "r \<noteq> dst" for r p'
      using oth' [OF that(1-3)] clonedD(4) [OF c that] that(4) by simp
    show "entry_at m' src p' = (if p' \<in> insert ?p D then downgrade (entry_at m0 src p') else entry_at m0 src p')"
      if "leaf_path p'" for p' using src' [OF that] clonedD(5) [OF c that] e(1) by auto
    show "entry_at m' dst p' = downgrade (entry_at m0 src p') \<or> free_frames m' = 0 \<and> \<not> present (entry_at m' dst p')"
      if "leaf_path p'" "p' \<in> insert ?p D" "present (entry_at m0 src p')" for p'
      using fin e clonedD(6) [OF c that(1)] that oth' [OF R(2) that(1)] R(3) ff by (cases "p' = ?p") auto
    show "\<not> present (entry_at m' dst p')"
      if "leaf_path p'" "\<not> (p' \<in> insert ?p D \<and> present (entry_at m0 src p'))" for p'
      using clonedD(7) [OF c that(1)] that e oth' [OF R(2) that(1)] R(3) by (cases "p' = ?p") auto
    show "walk m' src p' = walk m0 src p'" if "user_path p'" "length p' \<le> 3" for p'
      using mp(7) [OF R(1,3) that(1)] sh(3) [OF R(1) that] clonedD(8) [OF c that] by simp
    show "walk m' r p' = walk m0 r p'" if "r \<in> R" "r \<noteq> dst" "user_path p'" "length p' \<le> 3" for r p'
      using mp(7) [OF that(1-3)] sh(3) [OF that(1,3,4)] clonedD(12) [OF c that] by simp
    show "data_frame m' R f \<and> phys_mem m' f = phys_mem m0 f"
      if "frame_state m0 f \<noteq> None" "data_frame m0 R f" for f
      using clonedD(9) [OF c that] sh(7) [of f] mp(4) [of f] sh(5) [of f] clonedD(3) [OF c that(1)] by auto
    show "owners_of m' f = owners_of m0 f + card (payers m0 src (insert ?p D) f)" if "0 < owners_of m0 f" for f
    proof -
      have "owners_of ms f = owners_of m0 f + card (payers m0 src (insert ?p D) f)"
        using sh(4) [of f] clonedD(10) [OF c that] payers_insert [OF p(1,2), of m0 src f] e(1) by simp
      moreover have "frame_state ms f \<noteq> None" using that clonedD(3) [OF c, of f] sh(5) [of f]
        by (auto simp: owners_of_def split: option.splits)
      ultimately show ?thesis using mp(3) [of f] by (simp add: owners_of_def)
    qed
    have "mapped m0 src (insert ?p D) = insert ?p (mapped m0 src D)" using p(1) e by (auto simp: mapped_def)
    then have "card (mapped m0 src (insert ?p D)) = card (mapped m0 src D) + 1"
      using p(2) finite_mapped [of m0 src D] by (simp add: mapped_def)
    then show "free_frames m0 \<le> free_frames m' + 3 * card (mapped m0 src (insert ?p D))"
      using clonedD(11) [OF c] mp(6) fs by simp
  qed (use X'(1) in \<open>auto intro: trans_le_add1\<close>)
qed

section \<open>The loops\<close>

text \<open>The leaf slots below a table.\<close>

definition leaves_under :: "nat list \<Rightarrow> nat list set" where
  "leaves_under q = {p. leaf_path p \<and> prefix q p}"

lemma leaves_under_disjoint: "i \<noteq> j \<Longrightarrow> leaves_under (q @ [i]) \<inter> leaves_under (q @ [j]) = {}"
  by (auto simp: leaves_under_def prefix_def)

lemma leaves_under_children:
  assumes "length q < 4"
  shows "leaves_under q = (\<Union>i\<in>(if q = [] then {..<256} else {..<512}). leaves_under (q @ [i]))"
proof (intro set_eqI iffI)
  fix p assume "p \<in> leaves_under q"
  then obtain s where s: "p = q @ s" "leaf_path p" by (auto simp: leaves_under_def prefix_def)
  then obtain i s' where i: "s = i # s'" using assms by (cases s) (auto simp: leaf_path_def)
  have "i < (if q = [] then 256 else 512)" using s i by (auto simp: leaf_path_def user_path_def)
  moreover have "p \<in> leaves_under (q @ [i])" using s i by (simp add: leaves_under_def)
  ultimately show "p \<in> (\<Union>i\<in>(if q = [] then {..<256} else {..<512}). leaves_under (q @ [i]))"
    by (cases "q = []") auto
next
  fix p assume "p \<in> (\<Union>i\<in>(if q = [] then {..<256} else {..<512}). leaves_under (q @ [i]))"
  then show "p \<in> leaves_under q" by (auto simp: leaves_under_def prefix_def)
qed

lemma leaves_under_table:
  "length q < 4 \<Longrightarrow> q \<noteq> [] \<Longrightarrow> leaves_under q = (\<Union>i\<in>set table_slots. leaves_under (q @ [i]))"
  using leaves_under_children [of q] by simp

lemma leaves_under_sub: "leaves_under (q @ [i]) \<subseteq> leaves_under q"
  by (auto simp: leaves_under_def prefix_def)

lemma cloned_absent:
  assumes c: "cloned m0 R src dst X D m" and w: "walk m0 src q = None"
  shows "cloned m0 R src dst X (D \<union> leaves_under q) m"
proof (rule cloned_skip [OF c])
  fix p assume "p \<in> leaves_under q" "leaf_path p"
  then obtain s where "p = q @ s" by (auto simp: leaves_under_def prefix_def)
  then show "\<not> present (entry_at m0 src p)"
    using entry_below_None [OF w, of s] w walk_entry_at [of p m0 src]
    by (cases "s = []"; cases "q = []") (auto simp: present_def split: if_splits)
qed

text \<open>One iteration at an inner level: skip the slot, or work on the table it leads to.\<close>

lemma clone_slot:
  assumes c: "cloned m0 R src dst X D m" and q: "user_path (q @ [i])" "length q < 3" "walk m0 src q = Some t"
    and dis: "D \<inter> leaves_under (q @ [i]) = {}"
    and body: "\<And>u m. cloned m0 R src dst X D m \<Longrightarrow> walk m0 src (q @ [i]) = Some u \<Longrightarrow>
       cloned m0 R src dst X (D \<union> leaves_under (q @ [i])) (g u m)"
  shows "cloned m0 R src dst X (D \<union> leaves_under (q @ [i]))
     (if \<not> has_flag (rd m t i) PTE_PRESENT then m else g (entry_addr (rd m t i)) m)"
proof -
  have uq: "user_path q" "length (q @ [i]) \<le> 3" using q by auto
  have "walk m src q = Some t" using clonedD(8) [OF c uq(1)] q by simp
  then have w: "walk m0 src (q @ [i]) = (if has_flag (rd m t i) PTE_PRESENT then Some (entry_addr (rd m t i)) else None)"
    using clonedD(8) [OF c q(1) uq(2)] by (simp add: walk_snoc)
  show ?thesis
  proof (cases "has_flag (rd m t i) PTE_PRESENT")
    case True
    then show ?thesis using body [OF c] w by simp
  next
    case False
    then show ?thesis using cloned_absent [OF c] w by simp
  qed
qed

lemma clone_pt_loop:
  assumes inv0: "vm_inv m0 R X" and R: "src \<in> R" "dst \<in> R" "src \<noteq> dst" and room: "copy_room m0 src"
    and c: "cloned m0 R src dst X D m" and q: "user_path [i4, i3, i2]" "walk m0 src [i4, i3, i2] = Some pt"
    and dis: "D \<inter> leaves_under [i4, i3, i2] = {}"
  shows "cloned m0 R src dst X (D \<union> leaves_under [i4, i3, i2]) (clone_pt dst i4 i3 i2 pt m)"
proof -
  let ?q = "[i4, i3, i2]"
  have "cloned m0 R src dst X (D \<union> (\<Union>i\<in>set table_slots. leaves_under (?q @ [i]))) (clone_pt dst i4 i3 i2 pt m)"
    unfolding clone_pt_def
  proof (rule fold_visits [where P = "cloned m0 R src dst X", OF _ c])
    fix i D m assume i: "i \<in> set table_slots" and c: "cloned m0 R src dst X D m"
      and dis: "D \<inter> leaves_under (?q @ [i]) = {}"
    have lp: "leaf_path (?q @ [i])" using i q(1) by (simp add: leaf_path_def user_path_def)
    then have un: "leaves_under (?q @ [i]) = {?q @ [i]}"
      by (auto simp: leaves_under_def prefix_def leaf_path_def)
    have nd: "?q @ [i] \<notin> D" using dis un by auto
    have wm: "walk m src ?q = Some pt" using clonedD(8) [OF c q(1)] q(2) by simp
    have rde: "rd m pt i = entry_at m0 src (?q @ [i])"
      using clonedD(5) [OF c lp] nd wm entry_at_snoc [of m src ?q i] by simp
    have va: "vpath (va_of i4 i3 i2 i) = ?q @ [i]"
      using lp vpath_va_of [of i4 i3 i2 i] by (simp add: leaf_path_def user_path_def)
    show "cloned m0 R src dst X (D \<union> leaves_under (?q @ [i])) (clone_leaf dst i4 i3 i2 pt i m)"
    proof (cases "present (entry_at m0 src (?q @ [i]))")
      case True
      then have "clone_leaf dst i4 i3 i2 pt i m = vmm_map_page dst (va_of i4 i3 i2 i)
          (entry_addr (downgrade (entry_at m0 src (?q @ [i]))))
          (downgrade (entry_at m0 src (?q @ [i])) AND FLAG_MASK) (share_leaf pt i m)"
        by (simp only: clone_leaf_share rde Let_def present_def) simp
      then show ?thesis using clone_leaf_step [OF inv0 c R room lp nd q(2) va refl True] un by simp
    next
      case False
      then have "clone_leaf dst i4 i3 i2 pt i m = m" by (simp only: clone_leaf_share rde Let_def present_def) simp
      then show ?thesis using cloned_skip [OF c, of "leaves_under (?q @ [i])"] False un by simp
    qed
  next
    show "leaves_under (?q @ [i]) \<inter> leaves_under (?q @ [j]) = {}" if "i \<noteq> j" for i j
      by (rule leaves_under_disjoint [OF that])
    show "D \<inter> leaves_under (?q @ [i]) = {}" for i using dis leaves_under_sub [of ?q i] by blast
  qed simp
  moreover have "leaves_under ?q = (\<Union>i\<in>set table_slots. leaves_under (?q @ [i]))"
    by (rule leaves_under_table) simp_all
  ultimately show ?thesis by (simp only:)
qed

lemma clone_pd_loop:
  assumes inv0: "vm_inv m0 R X" and R: "src \<in> R" "dst \<in> R" "src \<noteq> dst" and room: "copy_room m0 src"
    and c: "cloned m0 R src dst X D m" and q: "user_path [i4, i3]" "walk m0 src [i4, i3] = Some pd"
    and dis: "D \<inter> leaves_under [i4, i3] = {}"
  shows "cloned m0 R src dst X (D \<union> leaves_under [i4, i3]) (clone_pd dst i4 i3 pd m)"
proof -
  let ?q = "[i4, i3]"
  have "cloned m0 R src dst X (D \<union> (\<Union>i\<in>set table_slots. leaves_under (?q @ [i]))) (clone_pd dst i4 i3 pd m)"
    unfolding clone_pd_def
  proof (rule fold_visits [where P = "cloned m0 R src dst X", OF _ c])
    fix i D m assume i: "i \<in> set table_slots" and c: "cloned m0 R src dst X D m"
      and dis: "D \<inter> leaves_under (?q @ [i]) = {}"
    have up: "user_path (?q @ [i])" using i q(1) by (simp add: user_path_def)
    show "cloned m0 R src dst X (D \<union> leaves_under (?q @ [i])) (if \<not> has_flag (rd m pd i) PTE_PRESENT then m
        else clone_pt dst i4 i3 i (entry_addr (rd m pd i)) m)"
      by (rule clone_slot [OF c up _ q(2) dis])
        (use clone_pt_loop [OF inv0 R room] up dis in simp_all)
  next
    show "leaves_under (?q @ [i]) \<inter> leaves_under (?q @ [j]) = {}" if "i \<noteq> j" for i j
      by (rule leaves_under_disjoint [OF that])
    show "D \<inter> leaves_under (?q @ [i]) = {}" for i using dis leaves_under_sub [of ?q i] by blast
  qed simp
  moreover have "leaves_under ?q = (\<Union>i\<in>set table_slots. leaves_under (?q @ [i]))"
    by (rule leaves_under_table) simp_all
  ultimately show ?thesis by (simp only:)
qed

lemma clone_pdpt_loop:
  assumes inv0: "vm_inv m0 R X" and R: "src \<in> R" "dst \<in> R" "src \<noteq> dst" and room: "copy_room m0 src"
    and c: "cloned m0 R src dst X D m" and q: "user_path [i4]" "walk m0 src [i4] = Some pdpt"
    and dis: "D \<inter> leaves_under [i4] = {}"
  shows "cloned m0 R src dst X (D \<union> leaves_under [i4]) (clone_pdpt dst i4 pdpt m)"
proof -
  let ?q = "[i4]"
  have "cloned m0 R src dst X (D \<union> (\<Union>i\<in>set table_slots. leaves_under (?q @ [i]))) (clone_pdpt dst i4 pdpt m)"
    unfolding clone_pdpt_def
  proof (rule fold_visits [where P = "cloned m0 R src dst X", OF _ c])
    fix i D m assume i: "i \<in> set table_slots" and c: "cloned m0 R src dst X D m"
      and dis: "D \<inter> leaves_under (?q @ [i]) = {}"
    have up: "user_path (?q @ [i])" using i q(1) by (simp add: user_path_def)
    show "cloned m0 R src dst X (D \<union> leaves_under (?q @ [i])) (if \<not> has_flag (rd m pdpt i) PTE_PRESENT then m
        else clone_pd dst i4 i (entry_addr (rd m pdpt i)) m)"
      by (rule clone_slot [OF c up _ q(2) dis])
        (use clone_pd_loop [OF inv0 R room] up dis in simp_all)
  next
    show "leaves_under (?q @ [i]) \<inter> leaves_under (?q @ [j]) = {}" if "i \<noteq> j" for i j
      by (rule leaves_under_disjoint [OF that])
    show "D \<inter> leaves_under (?q @ [i]) = {}" for i using dis leaves_under_sub [of ?q i] by blast
  qed simp
  moreover have "leaves_under ?q = (\<Union>i\<in>set table_slots. leaves_under (?q @ [i]))"
    by (rule leaves_under_table) simp_all
  ultimately show ?thesis by (simp only:)
qed

lemma clone_loops:
  assumes inv0: "vm_inv m0 R X" and R: "src \<in> R" "dst \<in> R" "src \<noteq> dst" and room: "copy_room m0 src"
    and start: "\<And>p. leaf_path p \<Longrightarrow> entry_at m0 dst p = 0"
  shows "cloned m0 R src dst X {p. leaf_path p} (fold (\<lambda>i4 m. if \<not> has_flag (rd m src i4) PTE_PRESENT then m
       else clone_pdpt dst i4 (entry_addr (rd m src i4)) m) user_slots m0)"
proof -
  have "cloned m0 R src dst X ({} \<union> (\<Union>i\<in>set user_slots. leaves_under ([] @ [i])))
     (fold (\<lambda>i4 m. if \<not> has_flag (rd m src i4) PTE_PRESENT then m
       else clone_pdpt dst i4 (entry_addr (rd m src i4)) m) user_slots m0)"
  proof (rule fold_visits [where P = "cloned m0 R src dst X", OF _ cloned_start [OF inv0 start]])
    fix i D m assume i: "i \<in> set user_slots" and c: "cloned m0 R src dst X D m"
      and dis: "D \<inter> leaves_under ([] @ [i]) = {}"
    have up: "user_path ([] @ [i])" using i by (simp add: user_path_def)
    show "cloned m0 R src dst X (D \<union> leaves_under ([] @ [i])) (if \<not> has_flag (rd m src i) PTE_PRESENT then m
        else clone_pdpt dst i (entry_addr (rd m src i)) m)"
      by (rule clone_slot [OF c up _ _ dis])
        (use clone_pdpt_loop [OF inv0 R room] up dis in simp_all)
  next
    show "leaves_under ([] @ [i]) \<inter> leaves_under ([] @ [j]) = {}" if "i \<noteq> j" for i j :: nat
      by (rule leaves_under_disjoint [OF that])
  qed simp_all
  moreover have "{p. leaf_path p} = leaves_under []" by (simp add: leaves_under_def)
  ultimately show ?thesis using leaves_under_children [of "[]"] by simp
qed

section \<open>The whole copy\<close>

lemma user_leaf [simp]: "user_va va \<Longrightarrow> leaf_path (vpath va)"
  by (simp add: leaf_path_def)

lemma copy_room_new:
  assumes inv: "vm_inv m R X" and R: "src \<in> R" and room: "copy_room m src"
    and new: "vmm_new_user_pagetable m = (Some dst, m1)" and k: "kernel_root_ok m"
  shows "copy_room m1 src"
  unfolding copy_room_def
proof
  fix f
  note n = vmm_new_user_pagetable_spec [OF inv k new]
  have pe: "payers m1 src UNIV f = payers m src UNIV f"
    using n(5) [OF R] by (auto simp: payers_def leaf_path_def)
  show "owners_of m1 f + card (payers m1 src UNIV f) \<le> 65535"
  proof (cases "frame_state m f")
    case (Some c)
    then have "owners_of m1 f = owners_of m f" using n(6) [of f] by (simp add: owners_of_def)
    then show ?thesis using room pe by (simp add: copy_room_def)
  next
    case None
    then have "payers m src UNIV f = {}"
      using leaf_frame_bounds(3) [OF inv R, of _ f] by (fastforce simp: payers_def leaf_path_def owners_of_def)
    moreover have "owners_of m1 f \<le> 65535" by (simp add: owners_le)
    ultimately show ?thesis using pe by simp
  qed
qed

lemma vmm_clone_spec:
  assumes inv: "vm_inv m R X" and R: "src \<in> R" and k: "kernel_root_ok m" and room: "copy_room m src"
    and g: "vmm_clone_user_pagetable src m = (Some dst, m')"
  obtains m1 where "vmm_new_user_pagetable m = (Some dst, m1)"
    "cloned m1 (insert dst R) src dst X {p. leaf_path p} m'"
proof -
  obtain m1 where new: "vmm_new_user_pagetable m = (Some dst, m1)"
    using g by (auto simp: vmm_clone_user_pagetable_def split: prod.splits option.splits)
  note n = vmm_new_user_pagetable_spec [OF inv k new]
  have m': "m' = fold (\<lambda>i4 m. if \<not> has_flag (rd m src i4) PTE_PRESENT then m
       else clone_pdpt dst i4 (entry_addr (rd m src i4)) m) user_slots m1"
    using g new by (simp add: vmm_clone_user_pagetable_def)
  have ne: "src \<noteq> dst" using n(2) R by auto
  have "cloned m1 (insert dst R) src dst X {p. leaf_path p} m'" unfolding m'
    by (rule clone_loops [OF n(1) _ _ ne copy_room_new [OF inv R room new k]])
      (use R n(3) in \<open>auto simp: leaf_path_def\<close>)
  then show thesis using that new by blast
qed

lemma lookup_entry: "lookup m r va = (let e = entry_at m r (vpath va) in if present e then Some e else None)"
  by (simp add: lookup_def present_def)

lemma present_downgrade [simp]: "present (downgrade e) = present e"
  by (simp add: present_def downgrade_facts)

end
