(* ===== verification/Vmm_Destroy.thy ===== *)
theory Vmm_Destroy
  imports Vmm_Space
begin

text \<open>
  Tearing an address space down, \<open>vmm_destroy_user_pagetable\<close>: every table and every counted page of
  the user half gives up exactly one reference, whatever order the loops visit them in.
\<close>

section \<open>The loop invariant\<close>

text \<open>The slots among \<open>D\<close> of the address space \<open>r\<close> that hold a reference to frame \<open>f\<close>.\<close>

definition released :: "'a machine_scheme \<Rightarrow> addr set \<Rightarrow> addr \<Rightarrow> nat list set \<Rightarrow> nat \<Rightarrow> nat list set" where
  "released m R r D f = {p \<in> D. (r, p) \<in> refs m R f}"

definition destroying ::
  "'a machine_scheme \<Rightarrow> addr set \<Rightarrow> addr \<Rightarrow> nat list set \<Rightarrow> 'a machine_scheme \<Rightarrow> bool" where
  "destroying m0 R r D m \<longleftrightarrow> phys_mem m = phys_mem m0 \<and> npages m = npages m0 \<and> pmm_ok m
     \<and> (\<forall>f<npages m0. owners_of m f + card (released m0 R r D f) = owners_of m0 f)"

lemma finite_released: "finite (released m R r D f)"
  by (rule finite_subset [OF _ finite_user_paths]) (auto simp: released_def refs_def)

lemma released_le: "vm_inv m R X \<Longrightarrow> f < npages m \<Longrightarrow> card (released m R r D f) + X f \<le> owners_of m f"
proof -
  assume inv: "vm_inv m R X" and f: "f < npages m"
  have "card (released m R r D f) = card (Pair r ` released m R r D f)"
    by (simp add: card_image inj_on_def)
  also have "\<dots> \<le> card (refs m R f)"
    by (rule card_mono [OF finite_refs [OF vm_invD(3) [OF inv]]]) (auto simp: released_def)
  finally show ?thesis using vm_invD(6) [OF inv f] by simp
qed

lemma released_insert:
  assumes "p \<notin> D" "(r, p) \<in> refs m R f"
  shows "card (released m R r (insert p D) g) = card (released m R r D g) + (if g = f then 1 else 0)"
proof -
  have "(r, p) \<in> refs m R g \<longleftrightarrow> g = f" using assms(2) by (auto simp: refs_def)
  then have "released m R r (insert p D) g =
      (if g = f then insert p (released m R r D g) else released m R r D g)"
    by (auto simp: released_def)
  then show ?thesis using assms(1) finite_released [of m R r D g] by (auto simp: released_def)
qed

lemma destroying_skip:
  assumes "destroying m0 R r D m" "\<And>p f. p \<in> E \<Longrightarrow> (r, p) \<notin> refs m0 R f"
  shows "destroying m0 R r (D \<union> E) m"
proof -
  have "released m0 R r (D \<union> E) f = released m0 R r D f" for f using assms(2) by (auto simp: released_def)
  then show ?thesis using assms(1) by (simp add: destroying_def)
qed

lemma destroying_free:
  assumes inv: "vm_inv m0 R X" and d: "destroying m0 R r D m"
    and p: "p \<notin> D" "(r, p) \<in> refs m0 R (frame_no a)"
  shows "destroying m0 R r (insert p D) (pmm_free_page a m)"
proof -
  let ?f = "frame_no a"
  have b: "0 < ?f" "?f < npages m0" using vm_invD(5) [OF inv] p(2) by auto
  have np: "npages m = npages m0" "pmm_ok m" using d by (auto simp: destroying_def)
  note fr = pmm_frames.free_frame [OF np(2) b(1), unfolded np(1), OF b(2)]
  have pos: "0 < owners_of m ?f"
  proof -
    have "card (released m0 R r D ?f) + 1 \<le> owners_of m0 ?f"
      using released_le [OF inv b(2), of r "insert p D"] released_insert [OF p] by simp
    moreover have "owners_of m ?f + card (released m0 R r D ?f) = owners_of m0 ?f"
      using d b(2) by (simp add: destroying_def)
    ultimately show ?thesis by linarith
  qed
  have own: "owners_of (pmm_free_page a m) g + (if g = ?f then 1 else 0) = owners_of m g" for g
    using fr pos by (auto simp: owners_of_def drop_owner_def split: option.splits)
  have "owners_of (pmm_free_page a m) g + card (released m0 R r (insert p D) g) = owners_of m0 g"
    if "g < npages m0" for g
  proof -
    have "owners_of m g + card (released m0 R r D g) = owners_of m0 g" using d that by (simp add: destroying_def)
    then show ?thesis using own [of g] released_insert [OF p, of g] by linarith
  qed
  then show ?thesis using fr d by (simp add: destroying_def frame_simps)
qed

section \<open>The loops\<close>

text \<open>The slots below a table, and those below a slot together with the slot itself.\<close>

definition paths_below :: "nat list \<Rightarrow> nat list set" where
  "paths_below q = {p. user_path p \<and> strict_prefix q p}"

definition paths_from :: "nat list \<Rightarrow> nat list set" where
  "paths_from q = {p. user_path p \<and> prefix q p}"

lemma paths_from_eq: "user_path q \<Longrightarrow> paths_from q = insert q (paths_below q)"
  by (auto simp: paths_from_def paths_below_def strict_prefix_def)

lemma paths_from_disjoint: "i \<noteq> j \<Longrightarrow> paths_from (q @ [i]) \<inter> paths_from (q @ [j]) = {}"
  by (auto simp: paths_from_def prefix_def)

lemma paths_from_sub: "paths_from (q @ [i]) \<subseteq> paths_below q"
  by (auto simp: paths_from_def paths_below_def prefix_def strict_prefix_def)

lemma paths_below_children:
  "paths_below q = (\<Union>i\<in>(if q = [] then set user_slots else set table_slots). paths_from (q @ [i]))"
proof (intro set_eqI iffI)
  fix p assume "p \<in> paths_below q"
  then obtain s where s: "p = q @ s" "s \<noteq> []" "user_path p"
    by (auto simp: paths_below_def prefix_def strict_prefix_def)
  then obtain i s' where i: "s = i # s'" by (cases s) auto
  have "i < (if q = [] then 256 else 512)" using s i by (auto simp: user_path_def)
  moreover have "p \<in> paths_from (q @ [i])" using s i by (simp add: paths_from_def)
  ultimately show "p \<in> (\<Union>i\<in>(if q = [] then set user_slots else set table_slots). paths_from (q @ [i]))"
    by (cases "q = []") auto
next
  fix p assume "p \<in> (\<Union>i\<in>(if q = [] then set user_slots else set table_slots). paths_from (q @ [i]))"
  then show "p \<in> paths_below q" using paths_from_sub by blast
qed

lemma paths_from_absent:
  assumes "walk m r q = None" "p \<in> paths_from q"
  shows "(r, p) \<notin> refs m R f"
proof -
  obtain s where "p = q @ s" using assms(2) by (auto simp: paths_from_def prefix_def)
  then have "walk m r p = None" using assms(1) by (simp add: walk_append)
  then show ?thesis by (simp add: refs_def)
qed

text \<open>One iteration at an inner level.\<close>

lemma destroy_slot:
  assumes inv: "vm_inv m0 R X" and r: "r \<in> R" and d: "destroying m0 R r D m"
    and q: "user_path (q @ [i])" "length q < 3" "walk m0 r q = Some t"
    and dis: "D \<inter> paths_from (q @ [i]) = {}"
    and body: "\<And>u. walk m0 r (q @ [i]) = Some u \<Longrightarrow> destroying m0 R r (D \<union> paths_below (q @ [i])) (g u m)"
  shows "destroying m0 R r (D \<union> paths_from (q @ [i]))
     (if \<not> has_flag (rd m t i) PTE_PRESENT then m
      else pmm_free_page (entry_addr (rd m t i)) (g (entry_addr (rd m t i)) m))"
proof -
  have mem: "rd m = rd m0" using d by (intro mem_cong(1)) (simp add: destroying_def)
  show ?thesis
  proof (cases "has_flag (rd m t i) PTE_PRESENT")
    case True
    let ?u = "entry_addr (rd m t i)" and ?p = "q @ [i]"
    have w: "walk m0 r ?p = Some ?u" using q(3) True by (simp add: walk_snoc mem)
    have "(r, ?p) \<in> refs m0 R (frame_no ?u)" using refs_table [OF r q(1) _ w] q(2) by simp
    moreover have "?p \<notin> D \<union> paths_below ?p"
      using dis q(1) by (auto simp: paths_below_def paths_from_def)
    ultimately have "destroying m0 R r (insert ?p (D \<union> paths_below ?p)) (pmm_free_page ?u (g ?u m))"
      by (intro destroying_free [OF inv body [OF w]])
    then show ?thesis using True paths_from_eq [OF q(1)] by simp
  next
    case False
    then have w: "walk m0 r (q @ [i]) = None" using q(3) by (simp add: walk_snoc mem)
    then show ?thesis using False destroying_skip [OF d paths_from_absent [OF w]] by simp
  qed
qed

lemma destroy_pt_loop:
  assumes inv: "vm_inv m0 R X" and r: "r \<in> R" and d: "destroying m0 R r D m"
    and q: "user_path q" "length q = 3" "walk m0 r q = Some pt" and dis: "D \<inter> paths_below q = {}"
  shows "destroying m0 R r (D \<union> paths_below q) (destroy_pt pt m)"
proof -
  have ne: "q \<noteq> []" using q(2) by auto
  have "destroying m0 R r (D \<union> (\<Union>i\<in>set table_slots. paths_from (q @ [i]))) (destroy_pt pt m)"
    unfolding destroy_pt_def
  proof (rule fold_visits [where P = "destroying m0 R r", OF _ d])
    fix i D m assume i: "i \<in> set table_slots" and d: "destroying m0 R r D m"
      and dis: "D \<inter> paths_from (q @ [i]) = {}"
    let ?p = "q @ [i]"
    have up: "user_path ?p" "length ?p = 4" using i q(1,2) ne by auto
    have pf: "paths_from ?p = {?p}" using up by (auto simp: paths_from_def prefix_def user_path_def)
    have mem: "rd m = rd m0" using d by (intro mem_cong(1)) (simp add: destroying_def)
    have e: "rd m pt i = entry_at m0 r ?p" using q(3) by (simp add: entry_at_snoc mem)
    have rf: "(r, ?p) \<in> refs m0 R f \<longleftrightarrow> pays (rd m pt i) f = 1" for f
      using refs_leaf [OF up(2), of r m0 R f] r up(1) by (simp add: e)
    show "destroying m0 R r (D \<union> paths_from ?p)
        (if has_flag (rd m pt i) PTE_PRESENT \<and> \<not> has_flag (rd m pt i) PTE_NOPMM
         then pmm_free_page (entry_addr (rd m pt i)) m else m)"
    proof (cases "has_flag (rd m pt i) PTE_PRESENT \<and> \<not> has_flag (rd m pt i) PTE_NOPMM")
      case True
      then have "(r, ?p) \<in> refs m0 R (frame_no (entry_addr (rd m pt i)))" by (simp add: rf pays_def)
      then show ?thesis using destroying_free [OF inv d, of ?p] dis True by (simp add: pf)
    next
      case False
      then have "(r, ?p) \<notin> refs m0 R f" for f by (auto simp: rf pays_def)
      then show ?thesis using destroying_skip [OF d, of "{?p}"] False by (auto simp: pf)
    qed
  next
    show "paths_from (q @ [i]) \<inter> paths_from (q @ [j]) = {}" if "i \<noteq> j" for i j
      by (rule paths_from_disjoint [OF that])
    show "D \<inter> paths_from (q @ [i]) = {}" for i using dis paths_from_sub [of q i] by blast
  qed simp
  then show ?thesis using paths_below_children [of q] ne by simp
qed

text \<open>A loop over a table, given what each of its slots needs.\<close>

lemma destroy_table_loop:
  assumes inv: "vm_inv m0 R X" and r: "r \<in> R" and d: "destroying m0 R r D m"
    and q: "user_path q" "length q < 3" "walk m0 r q = Some t" and dis: "D \<inter> paths_below q = {}"
    and xs: "set xs = (if q = [] then set user_slots else set table_slots)" "distinct xs"
    and body: "\<And>i u D m. destroying m0 R r D m \<Longrightarrow> user_path (q @ [i]) \<Longrightarrow> walk m0 r (q @ [i]) = Some u \<Longrightarrow>
        D \<inter> paths_below (q @ [i]) = {} \<Longrightarrow> destroying m0 R r (D \<union> paths_below (q @ [i])) (g u m)"
  shows "destroying m0 R r (D \<union> paths_below q)
     (fold (\<lambda>i m. if \<not> has_flag (rd m t i) PTE_PRESENT then m
        else pmm_free_page (entry_addr (rd m t i)) (g (entry_addr (rd m t i)) m)) xs m)"
proof -
  let ?f = "\<lambda>i m. if \<not> has_flag (rd m t i) PTE_PRESENT then m
        else pmm_free_page (entry_addr (rd m t i)) (g (entry_addr (rd m t i)) m)"
  have "destroying m0 R r (D \<union> (\<Union>i\<in>set xs. paths_from (q @ [i]))) (fold ?f xs m)"
  proof (rule fold_visits [where P = "destroying m0 R r", OF _ d xs(2)])
    fix i D m assume i: "i \<in> set xs" and d: "destroying m0 R r D m" and dis: "D \<inter> paths_from (q @ [i]) = {}"
    have up: "user_path (q @ [i])" using i q(1,2) xs(1) by (auto split: if_splits)
    have db: "D \<inter> paths_below (q @ [i]) = {}" using dis by (auto simp: paths_below_def paths_from_def)
    show "destroying m0 R r (D \<union> paths_from (q @ [i])) (?f i m)"
      by (rule destroy_slot [where g = g, OF inv r d up q(2,3) dis]) (rule body [OF d up _ db])
  next
    show "paths_from (q @ [i]) \<inter> paths_from (q @ [j]) = {}" if "i \<noteq> j" for i j
      by (rule paths_from_disjoint [OF that])
    show "D \<inter> paths_from (q @ [i]) = {}" for i using dis paths_from_sub [of q i] by blast
  qed
  then show ?thesis using paths_below_children [of q] xs(1) by simp
qed

lemma destroy_all_loops:
  assumes inv: "vm_inv m R X" and r: "r \<in> R"
  shows "destroying m R r (paths_below [])
     (fold (\<lambda>i m. if \<not> has_flag (rd m r i) PTE_PRESENT then m
        else pmm_free_page (entry_addr (rd m r i)) (destroy_pdpt (entry_addr (rd m r i)) m)) user_slots m)"
proof -
  have pd: "destroying m R r (D \<union> paths_below q) (destroy_pd pd n)"
    if "destroying m R r D n" "user_path q" "length q = 2" "walk m r q = Some pd" "D \<inter> paths_below q = {}"
    for D n q pd
    unfolding destroy_pd_def
    by (rule destroy_table_loop [OF inv r that(1,2) _ that(4,5)])
      (use that(3) destroy_pt_loop [OF inv r] in auto)
  have pdpt: "destroying m R r (D \<union> paths_below q) (destroy_pdpt pdpt n)"
    if "destroying m R r D n" "user_path q" "length q = 1" "walk m r q = Some pdpt" "D \<inter> paths_below q = {}"
    for D n q pdpt
    unfolding destroy_pdpt_def
    by (rule destroy_table_loop [OF inv r that(1,2) _ that(4,5)]) (use that(3) pd in auto)
  have "destroying m R r {} m" using vm_invD(1) [OF inv] by (simp add: destroying_def released_def)
  from destroy_table_loop [OF inv r this, of "[]" r user_slots destroy_pdpt] pdpt
  show ?thesis by simp
qed

lemma refs_remove:
  assumes inv: "vm_inv m R X" and r: "r \<in> R"
  shows "card (refs m (R - {r}) f) + card (released m R r {p. user_path p} f) = card (refs m R f)"
proof -
  let ?A = "refs m (R - {r}) f" and ?B = "Pair r ` released m R r {p. user_path p} f"
  have "refs m R f = ?A \<union> ?B" "?A \<inter> ?B = {}" using r by (auto simp: refs_def released_def)
  moreover have "finite ?A" by (rule finite_refs) (simp add: vm_invD(3) [OF inv])
  moreover have "finite ?B" by (rule finite_imageI [OF finite_released])
  moreover have "card ?B = card (released m R r {p. user_path p} f)" by (simp add: card_image inj_on_def)
  ultimately show ?thesis using card_Un_disjoint [of ?A ?B] by simp
qed

lemma vmm_destroy_spec:
  assumes inv: "vm_inv m R X" and r: "r \<in> R"
  defines "m' \<equiv> vmm_destroy_user_pagetable (Some r) m"
  shows "vm_inv m' (R - {r}) X" "phys_mem m' = phys_mem m" "npages m' = npages m"
proof -
  have all: "insert [] (paths_below []) = {p. user_path p}"
    using paths_from_eq [of "[]"] by (auto simp: paths_from_def)
  have "destroying m R r (insert [] (paths_below [])) m'"
    unfolding m'_def vmm_destroy_user_pagetable_def option.case
    by (rule destroying_free [OF inv destroy_all_loops [OF inv r]])
      (use r in \<open>auto simp: paths_below_def refs_root\<close>)
  then have d: "phys_mem m' = phys_mem m" "npages m' = npages m" "pmm_ok m'"
      and own: "\<And>f. f < npages m \<Longrightarrow> owners_of m' f + card (released m R r {p. user_path p} f) = owners_of m f"
    unfolding all by (auto simp: destroying_def)
  show "phys_mem m' = phys_mem m" "npages m' = npages m" by (rule d)+
  note c = mem_cong [OF d(1)]
  have sub: "refs m (R - {r}) f \<subseteq> refs m R f" for f by (auto simp: refs_def)
  have acc: "owners_of m' f = card (refs m (R - {r}) f) + X f" if "f < npages m" for f
    using own [OF that] vm_invD(6) [OF inv that] refs_remove [OF inv r, of f] by linarith
  show "vm_inv m' (R - {r}) X"
  proof (rule vm_invI)
    fix r' p t assume p: "r' \<in> R - {r}" "user_path p" "length p \<le> 3" "walk m' r' p = Some t"
    then have w: "r' \<in> R" "walk m r' p = Some t" by (auto simp: c)
    note tb = vm_inv_table [OF inv w(1) p(2,3) w(2)]
    have "(r', p) \<in> refs m (R - {r}) (frame_no t)" using refs_table [OF p(1-3), of m t] w by simp
    then have "refs m (R - {r}) (frame_no t) = {(r', p)}" using tb(4) sub [of "frame_no t"] by auto
    then show "owners_of m' (frame_no t) = 1" using acc [OF tb(3)] tb(5) by simp
  next
    fix f assume "refs m' (R - {r}) f \<noteq> {}"
    then show "0 < f \<and> f < npages m'" using vm_invD(5) [OF inv, of f] sub [of f] by (auto simp: c d)
  qed (use vm_invD [OF inv] d acc in \<open>simp_all add: c\<close>)
qed

end
