(* ===== verification/Vmm_Props.thy ===== *)
theory Vmm_Props
  imports Vmm_Clone Vmm_Destroy
begin

text \<open>
  The properties of the virtual memory manager, stated over the processor's view of an address space
  (\<open>lookup\<close>) and the accounting invariant, each with a run on a small concrete machine.
\<close>

section \<open>A small machine\<close>

text \<open>
  Sixteen frames, page 0 reserved, the kernel's root table outside them; one address space with one
  page mapped at \<^verbatim>\<open>0x400000\<close>, built by the operations themselves.
\<close>

definition demo0 :: machine where
  "demo0 = \<lparr>hhdm_offset = 0xFFFF800000000000, bitmap = [0x01, 0x00], highest_address = 0x10000,
            bitmap_index = 0, refcounts = 1 # replicate 15 0, phys_mem = (\<lambda>_ _. 0),
            kernel_pml4 = 0x20000, msr_pat = 0\<rparr>"

definition demo1 :: machine where
  "demo1 = snd (vmm_new_user_pagetable demo0)"

definition demo2 :: machine where
  "demo2 = snd (pmm_alloc_page demo1)"

definition demo3 :: machine where
  "demo3 = vmm_map_page 0x1000 0x400000 0x2000 (PTE_PRESENT OR PTE_WRITABLE OR PTE_USER) demo2"

lemma demo0_npages: "npages demo0 = 16"
  by (simp add: demo0_def npages_def)

lemma demo0_bitmap: "f < 16 \<Longrightarrow> bitmap_test demo0 f \<longleftrightarrow> f = 0"
proof -
  assume f: "f < 16"
  have b: "bit (1::u8) k \<longleftrightarrow> k = 0" for k by (simp add: bit_1_iff)
  show ?thesis
  proof (cases "f < 8")
    case True
    then show ?thesis using b by (simp add: demo0_def bitmap_test_bit bitmap_byte_def)
  next
    case False
    then have "f div 8 = 1" using f by simp
    then show ?thesis using False by (simp add: demo0_def bitmap_test_bit bitmap_byte_def)
  qed
qed

lemma demo0_state: "frame_state demo0 f = (if f = 0 then Some 1 else None)"
proof (cases "f < 16")
  case True
  then show ?thesis using demo0_bitmap [OF True]
    by (simp add: frame_state_def demo0_npages) (simp add: demo0_def)
qed (simp add: frame_state_def demo0_npages)

lemma demo0_ok: "pmm_ok demo0"
proof -
  have "refcounts demo0 ! i = 0" if "i < 16" "i \<noteq> 0" for i
    using that by (simp add: demo0_def nth_Cons')
  then show ?thesis using demo0_bitmap
    by (simp add: pmm_ok_def pmm_wf_def page0_reserved_def demo0_npages) (simp add: demo0_def)
qed

lemma demo0_inv: "vm_inv demo0 {} (owners_of demo0)"
  by (rule vm_invI) (simp_all add: demo0_ok demo0_npages refs_def)

lemma demo0_free: "free_frames demo0 = 15"
proof -
  have "{f. f < npages demo0 \<and> frame_state demo0 f = None} = {1..<16}"
    by (auto simp: demo0_npages demo0_state)
  then show ?thesis by (simp add: free_frames_def)
qed

lemma demo0_alloc: "fst (pmm_alloc_page demo0) = 0x1000"
proof -
  have "find (\<lambda>i. \<not> bitmap_test demo0 i) [0..<16] = Some 1"
    using demo0_bitmap by (auto simp: find_upt_Some)
  then show ?thesis
    by (simp add: pmm_alloc_page_def demo0_npages pmm_take_def Let_def frame_addr_def) (simp add: demo0_def frame_addr_def pmm_take_def Let_def)
qed

lemma demo1_new: "vmm_new_user_pagetable demo0 = (Some 0x1000, demo1)"
  using demo0_alloc by (auto simp: demo1_def vmm_new_user_pagetable_def split: prod.split)

lemma demo0_kernel: "kernel_root_ok demo0"
  by (simp add: kernel_root_ok_def demo0_npages) (simp add: demo0_def frame_no_def)

lemmas demo1_spec = vmm_new_user_pagetable_spec [OF demo0_inv demo0_kernel demo1_new]

lemma demo1_facts:
  "vm_inv demo1 {0x1000} (owners_of demo0)" "npages demo1 = 16" "free_frames demo1 = 14"
  "\<And>p. user_path p \<Longrightarrow> length p = 4 \<Longrightarrow> entry_at demo1 0x1000 p = 0"
  using demo1_spec(1,3,7,9) by (simp_all add: demo0_npages demo0_free)

lemma demo1_state: "frame_state demo1 f = (if f \<le> 1 then Some 1 else None)"
proof -
  obtain m1 where m1: "pmm_alloc_page demo0 = (0x1000, m1)" using demo0_alloc by (cases "pmm_alloc_page demo0") auto
  have "frame_state m1 = (frame_state demo0)(1 \<mapsto> 1)"
    using vm_inv_alloc(8) [OF demo0_inv m1] by (simp add: frame_no_def)
  moreover have "frame_state demo1 = frame_state m1"
  proof -
    have "frame_state (fold (\<lambda>i m. wr 0x1000 i (rd m (kernel_pml4 m) i) m) xs m) = frame_state m" for xs and m :: machine
      by (induction xs arbitrary: m) (simp_all add: frame_simps)
    then show ?thesis using m1 by (simp add: demo1_def vmm_new_user_pagetable_def frame_simps)
  qed
  ultimately show ?thesis by (auto simp: demo0_state fun_eq_iff)
qed

lemma demo2_alloc: "pmm_alloc_page demo1 = (0x2000, demo2)"
proof -
  have ok: "pmm_wf demo1" "pmm_ok demo1" using vm_invD(1) [OF demo1_facts(1)] by (auto simp: pmm_ok_def)
  have t: "bitmap_test demo1 f \<longleftrightarrow> f \<le> 1" if "f < 16" for f
    using demo1_state [of f] that demo1_facts(2) by (auto simp: frame_state_def split: if_splits)
  have ix: "bitmap_index demo1 = 1"
  proof -
    have "bitmap_index (fold (\<lambda>i m. wr 0x1000 i (rd m (kernel_pml4 m) i) m) xs m) = bitmap_index m" for xs and m :: machine
      by (induction xs arbitrary: m) (simp_all add: wr_def)
    moreover have "find (\<lambda>i. \<not> bitmap_test demo0 i) [0..<16] = Some 1"
      using demo0_bitmap by (auto simp: find_upt_Some)
    moreover have "bitmap_index demo0 = 0" by (simp add: demo0_def)
    ultimately show ?thesis
      by (simp add: demo1_def vmm_new_user_pagetable_def pmm_alloc_page_def demo0_npages pmm_take_def
          Let_def frame_addr_def zero_page_def)
  qed
  have "find (\<lambda>i. \<not> bitmap_test demo1 i) [1..<16] = Some 2" using t by (auto simp: find_upt_Some)
  then have "fst (pmm_alloc_page demo1) = 0x2000"
    by (simp add: pmm_alloc_page_def demo1_facts(2) ix pmm_take_def Let_def frame_addr_def)
  then show ?thesis by (cases "pmm_alloc_page demo1") (simp add: demo2_def)
qed

lemma demo2_facts:
  "vm_inv demo2 {0x1000} ((owners_of demo0)(2 := 1))" "npages demo2 = 16" "free_frames demo2 = 13"
  "\<And>va. user_va va \<Longrightarrow> lookup demo2 0x1000 va = None"
proof -
  have nz: "(0x2000::addr) \<noteq> NULL" by simp
  have f2: "frame_no 0x2000 = 2" by (simp add: frame_no_def)
  note a = vm_inv_alloc [OF demo1_facts(1) demo2_alloc nz, unfolded f2]
  show "vm_inv demo2 {0x1000} ((owners_of demo0)(2 := 1))" "npages demo2 = 16"
    using a demo1_facts(2) by simp_all
  show "free_frames demo2 = 13" using free_frames_alloc [OF a(4,7,8,10)] demo1_facts(3) by simp
  show "lookup demo2 0x1000 va = None" if "user_va va" for va
    using demo1_facts(4) [of "vpath va"] that by (simp add: mem_cong [OF a(9)] lookup_def)
qed

section \<open>Mapping and unmapping\<close>

lemma pays_made_entry:
  assumes "f < 2 ^ 40" "flags AND ADDR_MASK = 0" "has_flag flags PTE_PRESENT" "\<not> has_flag flags PTE_NOPMM"
  shows "pays (frame_addr f OR flags) g = (if g = f then 1 else 0)"
proof -
  have n: "\<not> has_flag (frame_addr f) PTE_NOPMM"
    using has_flag_frame_addr [OF assms(1), of PTE_NOPMM] by (simp add: ADDR_MASK_def)
  have "f < 2 ^ 52" using assms(1) by simp
  then show ?thesis using assms n by (auto simp: pays_def has_flag_or entry_addr_make)
qed

lemma lookup_None_pays: "lookup m r va = None \<Longrightarrow> pays (entry_at m r (vpath va)) f = 0"
  by (simp add: lookup_def pays_def Let_def split: if_splits)

text \<open>
  C6: mapping a page. In a well-accounted machine, mapping an owned frame at an unmapped user address
  either makes exactly that translation appear or, when page-table frames run out on the way, changes no
  translation at all; with three free frames it cannot fail. The mapping takes over the caller's
  reference to the frame, and no other translation of any address space changes.
\<close>

theorem vmm_map_page_correct:
  assumes inv: "vm_inv m R X" and r: "r \<in> R" "user_va va" and new: "lookup m r va = None"
    and f: "0 < f" "f < npages m" "0 < X f"
    and flags: "flags AND ADDR_MASK = 0" "has_flag flags PTE_PRESENT" "\<not> has_flag flags PTE_NOPMM"
  shows "let m' = vmm_map_page r va (frame_addr f) flags m; e = frame_addr f OR flags in
     entry_addr e = frame_addr f
     \<and> (lookup m' r va = Some e \<and> vm_inv m' R (X(f := X f - 1))
        \<or> free_frames m < 3 \<and> lookup m' r va = None \<and> vm_inv m' R X)
     \<and> (\<forall>r'\<in>R. \<forall>va'. user_va va' \<and> (r' \<noteq> r \<or> vpath va' \<noteq> vpath va) \<longrightarrow> lookup m' r' va' = lookup m r' va')"
proof -
  let ?e = "frame_addr f OR flags"
  have f40: "f < 2 ^ 40" using f(2) vm_invD(2) [OF inv] by linarith
  note pe = pays_made_entry [OF f40 flags]
  have own: "\<forall>g. pays ?e g = 1 \<longrightarrow> 0 < X g \<and> 0 < g \<and> g < npages m" using f by (simp add: pe)
  note mp = vmm_map_page_spec [OF inv r own]
  have mv: "moved X (entry_at m r (vpath va)) ?e = X(f := X f - 1)"
    by (simp add: fun_eq_iff moved_def pe lookup_None_pays [OF new])
  have pr: "has_flag ?e PTE_PRESENT" using flags by (simp add: has_flag_or)
  have ab: "\<not> has_flag (entry_at m r (vpath va)) PTE_PRESENT"
    using new by (simp add: lookup_def Let_def split: if_splits)
  have "lookup (vmm_map_page r va (frame_addr f) flags m) r' va' = lookup m r' va'"
    if "r' \<in> R" "user_va va'" "r' \<noteq> r \<or> vpath va' \<noteq> vpath va" for r' va'
    using mp(2) [OF that(1), of "vpath va'"] that by (auto simp: lookup_def)
  then show ?thesis
    using mp(1) entry_addr_make [OF f40 flags(1)] pr ab unfolding mv by (auto simp: Let_def lookup_def)
qed

theorem vmm_map_page_correct_witness:
  "vm_inv demo2 {0x1000} ((owners_of demo0)(2 := 1)) \<and> lookup demo2 0x1000 0x400000 = None
   \<and> lookup demo3 0x1000 0x400000 = Some 0x2007 \<and> vm_inv demo3 {0x1000} (owners_of demo0)"
proof -
  have u: "user_va 0x400000" by (simp add: user_va_def pml4_entry_def)
  have a: "frame_addr 2 = 0x2000" by (simp add: frame_addr_def)
  have l: "lookup demo2 0x1000 0x400000 = None" using demo2_facts(4) [OF u] .
  have o: "owners_of demo0 2 = 0" by (simp add: owners_of_def demo0_state)
  have "((owners_of demo0)(2 := 1))(2 := 0) = owners_of demo0" using o by auto
  then show ?thesis
    using vmm_map_page_correct [OF demo2_facts(1) _ u l, where f = 2 and flags = "PTE_PRESENT OR PTE_WRITABLE OR PTE_USER"]
      demo2_facts l by (simp add: Let_def a demo3_def ADDR_MASK_def has_flag_def)
qed

text \<open>
  C7: unmapping a page. After \<open>vmm_unmap_page\<close> the address no longer translates, every other translation
  of every address space is as before, the contents of every page are untouched, and exactly the
  reference the mapping held is given back, so the accounting is exact with the same outside references.
\<close>

theorem vmm_unmap_page_correct:
  assumes "vm_inv m R X" "r \<in> R" "user_va va"
  shows "let m' = vmm_unmap_page r va m in
     vm_inv m' R X \<and> lookup m' r va = None
     \<and> (\<forall>r'\<in>R. \<forall>va'. user_va va' \<and> (r' \<noteq> r \<or> vpath va' \<noteq> vpath va) \<longrightarrow> lookup m' r' va' = lookup m r' va')
     \<and> (\<forall>f. data_frame m R f \<longrightarrow> phys_mem m' f = phys_mem m f)"
proof -
  note u = vmm_unmap_page_spec [OF assms]
  have "lookup (vmm_unmap_page r va m) r' va' = lookup m r' va'"
    if "r' \<in> R" "user_va va'" "r' \<noteq> r \<or> vpath va' \<noteq> vpath va" for r' va'
    using u(3) [OF that(1), of "vpath va'"] that by (auto simp: lookup_def)
  then show ?thesis using u(1,2,4) by (simp add: Let_def)
qed

lemma demo_va: "user_va 0x400000"
  by (simp add: user_va_def pml4_entry_def)

lemma demo3_facts:
  "vm_inv demo3 {0x1000} (owners_of demo0)" "npages demo3 = 16" "10 \<le> free_frames demo3"
  "entry_at demo3 0x1000 (vpath 0x400000) = 0x2007" "lookup demo3 0x1000 0x400000 = Some 0x2007"
  "\<And>p. leaf_path p \<Longrightarrow> p \<noteq> vpath 0x400000 \<Longrightarrow> \<not> present (entry_at demo3 0x1000 p)"
proof -
  have e: "(0x2000::u64) OR (PTE_PRESENT OR PTE_WRITABLE OR PTE_USER) = 0x2007" by simp
  have fa: "frame_addr 2 = 0x2000" by (simp add: frame_addr_def)
  have pe: "pays 0x2007 g = (if g = 2 then 1 else 0)" for g
    using pays_made_entry [of 2 7 g] by (simp add: fa ADDR_MASK_def has_flag_def)
  have own: "\<forall>f. pays (0x2000 OR (PTE_PRESENT OR PTE_WRITABLE OR PTE_USER)) f = 1 \<longrightarrow>
      0 < ((owners_of demo0)(2 := 1)) f \<and> 0 < f \<and> f < npages demo2"
    unfolding e using pe demo2_facts(2) by auto
  have r: "0x1000 \<in> {0x1000::addr}" by simp
  note mp = vmm_map_page_spec [OF demo2_facts(1) r demo_va own, folded demo3_def, unfolded e]
  have new: "lookup demo2 0x1000 0x400000 = None" by (rule demo2_facts(4) [OF demo_va])
  have mv: "moved ((owners_of demo0)(2 := 1)) (entry_at demo2 0x1000 (vpath 0x400000)) 0x2007 = owners_of demo0"
    by (auto simp: fun_eq_iff moved_def pe lookup_None_pays [OF new] owners_of_def demo0_state)
  show inv: "vm_inv demo3 {0x1000} (owners_of demo0)" and e3: "entry_at demo3 0x1000 (vpath 0x400000) = 0x2007"
    using mp(1) demo2_facts(3) unfolding mv by auto
  show "npages demo3 = 16" "10 \<le> free_frames demo3" using mp(5,6) demo2_facts(2,3) by auto
  show "lookup demo3 0x1000 0x400000 = Some 0x2007" using e3 by (simp add: lookup_def has_flag_def)
  show "\<not> present (entry_at demo3 0x1000 p)" if "leaf_path p" "p \<noteq> vpath 0x400000" for p
  proof -
    have "phys_mem demo2 = phys_mem demo1" using vm_inv_alloc(9) [OF demo1_facts(1) demo2_alloc] by simp
    then have "entry_at demo2 0x1000 p = 0"
      using demo1_facts(4) [of p] that mem_cong(3) [of demo2 demo1] by (simp add: leaf_path_def)
    then show ?thesis using mp(2) [OF r, of p] that by (simp add: leaf_path_def present_def)
  qed
qed

theorem vmm_unmap_page_correct_witness:
  "lookup demo3 0x1000 0x400000 = Some 0x2007
   \<and> lookup (vmm_unmap_page 0x1000 0x400000 demo3) 0x1000 0x400000 = None
   \<and> vm_inv (vmm_unmap_page 0x1000 0x400000 demo3) {0x1000} (owners_of demo0)"
  using vmm_unmap_page_correct [OF demo3_facts(1) _ demo_va] demo3_facts(5) by (simp add: Let_def)

section \<open>Copy-on-write\<close>

text \<open>
  C2: copying an address space. When \<open>vmm_clone_user_pagetable\<close> returns an address space, it is a new
  one; every page of the source stays mapped to the same frame, a private writable one now read-only and
  copy-on-write; the copy maps every page with the same entry as the source, or lacks it because
  frames ran out; no other address space and no page content changed. With one frame for the root and
  three per mapped page to spare the copy is complete and every reference is accounted for.
\<close>

theorem vmm_clone_user_pagetable_correct:
  assumes inv: "vm_inv m R X" and src: "src \<in> R" and k: "kernel_root_ok m" and room: "copy_room m src"
    and g: "vmm_clone_user_pagetable src m = (Some dst, m')"
  shows "dst \<notin> R
    \<and> (\<forall>va. user_va va \<longrightarrow> lookup m' src va = map_option downgrade (lookup m src va))
    \<and> (\<forall>va. user_va va \<longrightarrow> lookup m' dst va = lookup m' src va \<or> free_frames m' = 0 \<and> lookup m' dst va = None)
    \<and> (\<forall>r\<in>R. \<forall>va. r \<noteq> src \<and> user_va va \<longrightarrow> lookup m' r va = lookup m r va)
    \<and> (\<forall>va e. user_va va \<and> lookup m src va = Some e \<and> \<not> has_flag e PTE_NOPMM \<longrightarrow>
         phys_mem m' (frame_no (entry_addr e)) = phys_mem m (frame_no (entry_addr e)))
    \<and> (3 * card (mapped m src UNIV) + 1 < free_frames m \<longrightarrow> 0 < free_frames m' \<and> vm_inv m' (insert dst R) X)"
proof -
  obtain m1 where new: "vmm_new_user_pagetable m = (Some dst, m1)"
    and c: "cloned m1 (insert dst R) src dst X {p. leaf_path p} m'"
    using vmm_clone_spec [OF inv src k room g] by blast
  note n = vmm_new_user_pagetable_spec [OF inv k new]
  have e1: "entry_at m1 r p = entry_at m r p" if "r \<in> R" "leaf_path p" for r p
    using n(5) [OF that(1), of p] that(2) by (simp add: leaf_path_def)
  have s: "lookup m' src va = map_option downgrade (lookup m src va)" if "user_va va" for va
    using clonedD(5) [OF c, of "vpath va"] e1 [OF src, of "vpath va"] that by (simp add: lookup_entry Let_def)
  have d: "lookup m' dst va = lookup m' src va \<or> free_frames m' = 0 \<and> lookup m' dst va = None" if "user_va va" for va
    using clonedD(5,6,7) [OF c, of "vpath va"] that
    by (cases "present (entry_at m1 src (vpath va))") (auto simp: lookup_entry Let_def)
  have o: "lookup m' r va = lookup m r va" if "r \<in> R" "r \<noteq> src" "user_va va" for r va
  proof -
    have "r \<noteq> dst" using that(1) n(2) by auto
    then show ?thesis using clonedD(4) [OF c, of r "vpath va"] e1 [OF that(1), of "vpath va"] that
      by (simp add: lookup_entry)
  qed
  have pg: "phys_mem m' (frame_no (entry_addr e)) = phys_mem m (frame_no (entry_addr e))"
    if va: "user_va va" "lookup m src va = Some e" "\<not> has_flag e PTE_NOPMM" for va e
  proof -
    let ?f = "frame_no (entry_addr e)"
    have up: "user_path (vpath va)" "length (vpath va) = 4" using va(1) by auto
    have p1: "pays (entry_at m src (vpath va)) ?f = 1"
      using va by (auto simp: lookup_def pays_def Let_def split: if_splits)
    have "0 < owners_of m ?f" using leaf_frame_bounds(3) [OF inv src up p1] .
    then have fs: "frame_state m ?f \<noteq> None" by (auto simp: owners_of_def split: option.splits)
    have "data_frame m1 (insert dst R) ?f" using n(8) [OF leaf_data_frame [OF inv src up p1] fs] .
    then show ?thesis using clonedD(9) [OF c, of ?f] n(6) [OF fs] fs by simp
  qed
  have mp: "mapped m1 src {p. leaf_path p} = mapped m src UNIV" using e1 [OF src] by (auto simp: mapped_def)
  have "0 < free_frames m' \<and> vm_inv m' (insert dst R) X" if "3 * card (mapped m src UNIV) + 1 < free_frames m"
    using clonedD(1,11) [OF c] n(9) that unfolding mp by auto
  then show ?thesis using n(2) s d o pg by blast
qed

lemma clone_returns:
  assumes "pmm_ok m" "0 < free_frames m"
  shows "\<exists>dst m'. vmm_clone_user_pagetable src m = (Some dst, m')"
proof -
  obtain a m1 where a: "pmm_alloc_page m = (a, m1)" by fastforce
  have "a \<noteq> NULL"
  proof
    assume "a = NULL"
    then have "{f. f < npages m \<and> frame_state m f = None} = {}"
      using pmm_frames.alloc_null [OF assms(1), of m1] a by auto
    then have "free_frames m = 0" unfolding free_frames_def by (simp only: card.empty)
    then show False using assms(2) by simp
  qed
  then show ?thesis by (simp add: vmm_clone_user_pagetable_def vmm_new_user_pagetable_def a)
qed

lemma get_next_level_kernel: "get_next_level t i m = (x, m') \<Longrightarrow> kernel_pml4 m' = kernel_pml4 m"
  using pmm_ops_mem(2) [of m] by (auto simp: get_next_level_def wr_def zero_page_def split: prod.splits if_splits)

lemma vmm_map_page_kernel: "kernel_pml4 (vmm_map_page r va pa flags m) = kernel_pml4 m"
  by (auto simp: vmm_map_page_def wr_def split: prod.split option.split dest!: get_next_level_kernel)

lemma demo3_kernel: "kernel_root_ok demo3"
proof -
  have k: "kernel_pml4 (fold (\<lambda>i m. wr 0x1000 i (rd m (kernel_pml4 m) i) m) xs m) = kernel_pml4 m" for xs and m :: machine
    by (induction xs arbitrary: m) (simp_all add: wr_def)
  have "kernel_pml4 demo1 = 0x20000"
    using demo0_alloc pmm_ops_mem(2) [of demo0]
    by (auto simp: demo1_def vmm_new_user_pagetable_def k zero_page_def demo0_def split: prod.split)
  then have "kernel_pml4 demo3 = 0x20000"
    using pmm_ops_mem(2) [of demo1] by (simp add: demo3_def demo2_def vmm_map_page_kernel)
  then show ?thesis by (simp add: kernel_root_ok_def demo3_facts(2) frame_no_def)
qed

lemma demo3_owners: "owners_of demo3 2 = 1"
proof -
  have a: "frame_no 0x2000 = 2" "(0x2000::addr) \<noteq> NULL" by (simp_all add: frame_no_def)
  have "frame_state demo2 2 = Some 1"
    using vm_inv_alloc(8) [OF demo1_facts(1) demo2_alloc a(2)] by (simp add: a(1))
  moreover have "pays 0x2007 g = (if g = 2 then 1 else 0)" for g
    using pays_made_entry [of 2 7 g] by (simp add: frame_addr_def ADDR_MASK_def has_flag_def)
  then have "\<forall>f. pays (0x2000 OR (PTE_PRESENT OR PTE_WRITABLE OR PTE_USER)) f = 1 \<longrightarrow>
      0 < ((owners_of demo0)(2 := 1)) f \<and> 0 < f \<and> f < npages demo2"
    using demo2_facts(2) by auto
  from vmm_map_page_spec(3) [OF demo2_facts(1) insertI1 demo_va this]
  have "frame_state demo2 2 \<noteq> None \<Longrightarrow> frame_state demo3 2 = frame_state demo2 2" unfolding demo3_def .
  ultimately show ?thesis by (simp add: owners_of_def)
qed

lemma demo3_mapped: "mapped demo3 0x1000 UNIV = {vpath 0x400000}"
  using demo3_facts(4,6) demo_va by (auto simp: mapped_def present_def has_flag_def)

lemma demo3_room: "copy_room demo3 0x1000"
  unfolding copy_room_def
proof
  fix f
  have sub: "payers demo3 0x1000 UNIV f \<subseteq> mapped demo3 0x1000 UNIV"
    by (auto simp: payers_def mapped_def present_def pays_def split: if_splits)
  show "owners_of demo3 f + card (payers demo3 0x1000 UNIV f) \<le> 65535"
  proof (cases "f = 2")
    case True
    have "card (payers demo3 0x1000 UNIV f) \<le> 1"
      using card_mono [OF _ sub] by (simp add: demo3_mapped)
    then show ?thesis using True demo3_owners by simp
  next
    case False
    have "pays 0x2007 f = 0" using False pays_made_entry [of 2 7 f]
      by (simp add: frame_addr_def ADDR_MASK_def has_flag_def)
    then have "payers demo3 0x1000 UNIV f = {}" using sub demo3_facts(4) by (auto simp: demo3_mapped payers_def)
    then show ?thesis using owners_le [of demo3 f] by simp
  qed
qed

theorem vmm_clone_user_pagetable_correct_witness:
  "\<exists>dst m'. vmm_clone_user_pagetable 0x1000 demo3 = (Some dst, m') \<and> dst \<noteq> 0x1000
     \<and> lookup m' 0x1000 0x400000 = Some 0x2205 \<and> lookup m' dst 0x400000 = Some 0x2205
     \<and> vm_inv m' {dst, 0x1000} (owners_of demo0)"
proof -
  have ok: "pmm_ok demo3" "0 < free_frames demo3"
    using vm_invD(1) [OF demo3_facts(1)] demo3_facts(3) by simp_all
  obtain dst m' where g: "vmm_clone_user_pagetable 0x1000 demo3 = (Some dst, m')"
    using clone_returns [OF ok] by blast
  have dg: "downgrade 0x2007 = 0x2205"
    by (simp add: downgrade_def private_writable_def has_flag_def cow_entry_def entry_addr_def
        ADDR_MASK_def FLAG_MASK_def)
  show ?thesis
    using vmm_clone_user_pagetable_correct [OF demo3_facts(1) _ demo3_kernel demo3_room g]
      demo3_facts(3,5) demo_va g dg by (auto simp: demo3_mapped insert_commute)
qed

text \<open>
  No frame behind a private writable page is reachable through any other page-table slot: what the
  copy-on-write scheme must guarantee for processes not to see each other's writes.
\<close>

definition cow_safe :: "'a machine_scheme \<Rightarrow> addr set \<Rightarrow> bool" where
  "cow_safe m R \<longleftrightarrow> (\<forall>r\<in>R. \<forall>p. leaf_path p \<and> private_writable (entry_at m r p) \<longrightarrow>
     refs m R (frame_no (entry_addr (entry_at m r p))) = {(r, p)})"

lemma private_writable_pays: "private_writable e \<Longrightarrow> pays e (frame_no (entry_addr e)) = 1"
  by (simp add: private_writable_def pays_def)

lemma private_writable_present: "private_writable e \<Longrightarrow> present e"
  by (simp add: private_writable_def present_def)

lemma refs_leaf_only:
  assumes inv: "vm_inv m R X" and s: "(r, p) \<in> refs m R f" "length p = 4" and t: "(r', p') \<in> refs m R f"
  shows "length p' = 4"
proof (rule ccontr)
  assume "length p' \<noteq> 4"
  moreover have "r' \<in> R" "user_path p'" "length p' \<le> 4" using t by (auto simp: refs_def user_path_def)
  moreover obtain u where "walk m r' p' = Some u" "frame_no u = f" using t by (auto simp: refs_def)
  ultimately have "refs m R f = {(r', p')}" using vm_inv_table(4) [OF inv, of r' p' u] by simp
  then show False using s \<open>length p' \<noteq> 4\<close> by auto
qed

text \<open>
  C1: copying an address space keeps memory isolated. If before the copy every private writable page had
  its frame to itself, the same holds afterwards for all address spaces including the new one, also
  when the copy ran out of frames.
\<close>

theorem vmm_clone_keeps_isolation:
  assumes inv: "vm_inv m R X" and src: "src \<in> R" and k: "kernel_root_ok m" and room: "copy_room m src"
    and g: "vmm_clone_user_pagetable src m = (Some dst, m')" and safe: "cow_safe m R"
  shows "cow_safe m' (insert dst R)"
  unfolding cow_safe_def
proof (intro ballI allI impI)
  fix r p assume r: "r \<in> insert dst R" and p: "leaf_path p \<and> private_writable (entry_at m' r p)"
  obtain m1 where new: "vmm_new_user_pagetable m = (Some dst, m1)"
    and c: "cloned m1 (insert dst R) src dst X {p. leaf_path p} m'"
    using vmm_clone_spec [OF inv src k room g] by blast
  note n = vmm_new_user_pagetable_spec [OF inv k new]
  obtain X' where inv': "vm_inv m' (insert dst R) X'" using clonedD(1) [OF c] by blast
  have e1: "entry_at m1 r p = entry_at m r p" if "r \<in> R" "leaf_path p" for r p
    using n(5) [OF that(1), of p] that(2) by (simp add: leaf_path_def)
  have up: "user_path q" "length q = 4" if "leaf_path q" for q using that by (auto simp: leaf_path_def)
  have srce: "entry_at m' src q = downgrade (entry_at m src q)" if "leaf_path q" for q
    using clonedD(5) [OF c that] e1 [OF src that] that by simp
  have dste: "entry_at m' dst q = downgrade (entry_at m src q) \<or> \<not> present (entry_at m' dst q)" if "leaf_path q" for q
    using clonedD(6,7) [OF c that] e1 [OF src that] by auto
  have pw: "private_writable (entry_at m' r p)" "leaf_path p" using p by auto
  have ne: "r \<noteq> src" "r \<noteq> dst"
    using pw srce [OF pw(2)] dste [OF pw(2)] downgrade_facts(6) private_writable_present by metis+
  have rR: "r \<in> R" using r ne by simp
  have oth: "entry_at m' r' q = entry_at m r' q" if "r' \<in> R" "r' \<noteq> src" "leaf_path q" for r' q
    using clonedD(4) [OF c, of r' q] e1 [of r' q] that n(2) by auto
  let ?e = "entry_at m' r p" and ?f = "frame_no (entry_addr (entry_at m' r p))"
  have e: "?e = entry_at m r p" using oth rR ne(1) pw(2) by simp
  have old: "refs m R ?f = {(r, p)}" using safe rR pw unfolding cow_safe_def e by blast
  have s: "(r, p) \<in> refs m' (insert dst R) ?f"
    using up(1) [OF pw(2)] rR private_writable_pays [OF pw(1)] by (simp add: refs_leaf [OF up(2) [OF pw(2)]])
  have "x = (r, p)" if x: "x \<in> refs m' (insert dst R) ?f" for x
  proof -
    obtain r' q where rq: "x = (r', q)" by fastforce
    have l4: "length q = 4" using refs_leaf_only [OF inv' s up(2) [OF pw(2)]] x rq by blast
    have q: "r' \<in> insert dst R" "leaf_path q" "pays (entry_at m' r' q) ?f = 1"
      using x l4 by (auto simp: rq leaf_path_def refs_leaf [OF l4])
    have "\<exists>r''\<in>R. pays (entry_at m r'' q) ?f = 1 \<and> (r'' = r' \<or> r'' = src)"
    proof (cases "r' \<in> R \<and> r' \<noteq> src")
      case True
      then show ?thesis using q oth [of r' q] by auto
    next
      case False
      then have "entry_at m' r' q = downgrade (entry_at m src q)"
        using q srce [OF q(2)] dste [OF q(2)] by (auto simp: pays_def present_def split: if_splits)
      then show ?thesis using src q(3) by (auto simp: pays_downgrade)
    qed
    then obtain r'' where r'': "r'' \<in> R" "pays (entry_at m r'' q) ?f = 1" "r'' = r' \<or> r'' = src" by blast
    then have "(r'', q) \<in> refs m R ?f" using up(1) [OF q(2)] by (simp add: refs_leaf [OF l4])
    then have "r'' = r" "q = p" using old by auto
    then show ?thesis using r''(3) ne(1) rq by auto
  qed
  then show "refs m' (insert dst R) ?f = {(r, p)}" using s by blast
qed

lemma demo3_safe: "cow_safe demo3 {0x1000}"
  unfolding cow_safe_def
proof (intro ballI allI impI)
  fix r p assume "r \<in> {0x1000::addr}" "leaf_path p \<and> private_writable (entry_at demo3 r p)"
  then have r: "r = 0x1000" "leaf_path p" "present (entry_at demo3 0x1000 p)" by (auto simp: private_writable_present)
  then have p: "p = vpath 0x400000" using demo3_facts(6) by blast
  have f2: "frame_no (entry_addr 0x2007) = 2" by (simp add: entry_addr_def ADDR_MASK_def frame_no_def)
  have "refs demo3 {0x1000} 2 = {(0x1000, vpath 0x400000)}"
    by (rule sole_owner_refs [OF demo3_facts(1)])
      (use demo_va demo3_owners f2 in \<open>simp_all add: demo3_facts(4) pays_def has_flag_def\<close>)
  then show "refs demo3 {0x1000} (frame_no (entry_addr (entry_at demo3 r p))) = {(r, p)}"
    using r(1) p f2 by (simp add: demo3_facts(4))
qed

theorem vmm_clone_keeps_isolation_witness:
  "\<exists>dst m'. vmm_clone_user_pagetable 0x1000 demo3 = (Some dst, m') \<and> cow_safe demo3 {0x1000}
     \<and> private_writable (entry_at demo3 0x1000 (vpath 0x400000)) \<and> cow_safe m' {dst, 0x1000}"
proof -
  have ok: "pmm_ok demo3" "0 < free_frames demo3"
    using vm_invD(1) [OF demo3_facts(1)] demo3_facts(3) by simp_all
  obtain dst m' where g: "vmm_clone_user_pagetable 0x1000 demo3 = (Some dst, m')"
    using clone_returns [OF ok] by blast
  have "private_writable (entry_at demo3 0x1000 (vpath 0x400000))"
    by (simp add: demo3_facts(4) private_writable_def has_flag_def)
  then show ?thesis
    using vmm_clone_keeps_isolation [OF demo3_facts(1) _ demo3_kernel demo3_room g demo3_safe] g demo3_safe by auto
qed

text \<open>
  C3: a write fault on a copy-on-write page. If the fault is resolved, the faulting address is mapped
  writable with the same contents, no other page-table slot of any address space refers to its frame, no
  other entry and no other page content changed, and every reference is still accounted for. It is
  refused only when the frame is shared and no frame is free for a copy, and then nothing changed.
\<close>

theorem vmm_handle_cow_fault_correct:
  assumes "vm_inv m R X" "r \<in> R" "user_va va" "lookup m r va = Some e" "has_flag e PTE_COW"
    "\<not> has_flag e PTE_NOPMM"
  shows "case vmm_handle_cow_fault r va m of
      (True, m') \<Rightarrow> vm_inv m' R X \<and> cow_resolved m R r va e m'
    | (False, m') \<Rightarrow> m' = m \<and> free_frames m = 0 \<and> owners_of m (frame_no (entry_addr e)) \<noteq> 1"
  by (rule vmm_handle_cow_fault_spec [OF assms])

text \<open>The copied address space of the demonstration machine, where both processes then write.\<close>

lemma demo4_ex:
  "\<exists>dst (m' :: machine). vm_inv m' {dst, 0x1000} (owners_of demo0) \<and> dst \<noteq> 0x1000
     \<and> lookup m' 0x1000 0x400000 = Some 0x2205 \<and> 0 < free_frames m'"
proof -
  have ok: "pmm_ok demo3" "0 < free_frames demo3"
    using vm_invD(1) [OF demo3_facts(1)] demo3_facts(3) by simp_all
  obtain dst m' where g: "vmm_clone_user_pagetable 0x1000 demo3 = (Some dst, m')"
    using clone_returns [OF ok] by blast
  obtain m1 where new: "vmm_new_user_pagetable demo3 = (Some dst, m1)"
    and c: "cloned m1 {dst, 0x1000} 0x1000 dst (owners_of demo0) {p. leaf_path p} m'"
    using vmm_clone_spec [OF demo3_facts(1) _ demo3_kernel demo3_room g] by (auto simp: insert_commute)
  note n = vmm_new_user_pagetable_spec [OF demo3_facts(1) demo3_kernel new]
  have e: "entry_at m1 0x1000 p = entry_at demo3 0x1000 p" if "leaf_path p" for p
    using n(5) [of _ p] that by (simp add: leaf_path_def)
  have "mapped m1 0x1000 {p. leaf_path p} = mapped demo3 0x1000 UNIV" using e by (auto simp: mapped_def)
  then have ff: "0 < free_frames m'" using clonedD(11) [OF c] n(9) demo3_facts(3) by (simp add: demo3_mapped)
  have dg: "downgrade 0x2007 = 0x2205"
    by (simp add: downgrade_def private_writable_def has_flag_def cow_entry_def entry_addr_def
        ADDR_MASK_def FLAG_MASK_def)
  have "lookup m' 0x1000 0x400000 = Some 0x2205"
    using clonedD(5) [OF c, of "vpath 0x400000"] e [of "vpath 0x400000"] demo_va demo3_facts(4) dg
    by (simp add: lookup_def has_flag_def)
  then show ?thesis using clonedD(1) [OF c] ff n(2) by auto
qed

theorem vmm_handle_cow_fault_correct_witness:
  "\<exists>m R r e. lookup m r 0x400000 = Some e \<and> r \<in> R \<and> has_flag e PTE_COW
     \<and> (\<exists>m'. vmm_handle_cow_fault r 0x400000 m = (True, m') \<and> cow_resolved m R r 0x400000 e (m' :: machine))"
proof -
  obtain dst and m :: machine where m: "vm_inv m {dst, 0x1000} (owners_of demo0)"
      "lookup m 0x1000 0x400000 = Some 0x2205" "0 < free_frames m" using demo4_ex by blast
  have "case vmm_handle_cow_fault 0x1000 0x400000 m of
      (True, m') \<Rightarrow> vm_inv m' {dst, 0x1000} (owners_of demo0) \<and> cow_resolved m {dst, 0x1000} 0x1000 0x400000 0x2205 m'
    | (False, m') \<Rightarrow> m' = m \<and> free_frames m = 0 \<and> owners_of m (frame_no (entry_addr 0x2205)) \<noteq> 1"
    by (rule vmm_handle_cow_fault_correct [OF m(1) _ demo_va m(2)]) (simp_all add: has_flag_def)
  then show ?thesis using m
    by (intro exI [of _ m] exI [of _ "{dst, 0x1000}"] exI [of _ "0x1000"] exI [of _ "0x2205"])
      (auto simp: has_flag_def split: prod.splits bool.splits)
qed

section \<open>Creating and tearing down address spaces\<close>

text \<open>
  C10: a new address space. \<open>vmm_new_user_pagetable\<close> fails exactly when no frame is free; otherwise the new
  root is different from every existing one, maps no user address, shares the kernel's upper half slot
  by slot, and leaves every existing address space as it was.
\<close>

theorem vmm_new_user_pagetable_correct:
  assumes inv: "vm_inv m R X" and k: "kernel_root_ok m"
  shows "case vmm_new_user_pagetable m of
      (None, m') \<Rightarrow> m' = m \<and> free_frames m = 0
    | (Some a, m') \<Rightarrow> a \<notin> R \<and> vm_inv m' (insert a R) X \<and> (\<forall>va. user_va va \<longrightarrow> lookup m' a va = None)
        \<and> (\<forall>i. 256 \<le> i \<and> i < 512 \<longrightarrow> rd m' a i = rd m (kernel_pml4 m) i)
        \<and> (\<forall>r\<in>R. \<forall>va. user_va va \<longrightarrow> lookup m' r va = lookup m r va)"
proof (cases "vmm_new_user_pagetable m")
  case (Pair res m')
  show ?thesis
  proof (cases res)
    case None
    obtain a m1 where a: "pmm_alloc_page m = (a, m1)" by fastforce
    then have "a = NULL" "m' = m1"
      using Pair None by (auto simp: vmm_new_user_pagetable_def split: if_splits)
    then have "m' = m" "\<forall>f<npages m. frame_state m f \<noteq> None"
      using pmm_frames.alloc_null [OF vm_invD(1) [OF inv]] a by auto
    then show ?thesis using Pair None by (auto simp: free_frames_def)
  next
    case (Some a)
    note n = vmm_new_user_pagetable_spec [OF inv k Pair [unfolded Some]]
    have "lookup m' a va = None" if "user_va va" for va using n(3) [of "vpath va"] that by (simp add: lookup_def)
    moreover have "lookup m' r va = lookup m r va" if "r \<in> R" "user_va va" for r va
      using n(5) [OF that(1), of "vpath va"] that(2) by (simp add: lookup_def)
    ultimately show ?thesis using Pair Some n(1,2,4) by simp
  qed
qed

theorem vmm_new_user_pagetable_correct_witness:
  "vm_inv demo0 {} (owners_of demo0) \<and> kernel_root_ok demo0 \<and> vmm_new_user_pagetable demo0 = (Some 0x1000, demo1)
   \<and> lookup demo1 0x1000 0x400000 = None"
  using vmm_new_user_pagetable_correct [OF demo0_inv demo0_kernel] demo1_new demo0_inv demo0_kernel demo_va by simp

lemma destroy_owners:
  assumes inv: "vm_inv m R X" and r: "r \<in> R" and f: "f < npages m"
  shows "owners_of (vmm_destroy_user_pagetable (Some r) m) f + card {p. (r, p) \<in> refs m R f} = owners_of m f"
proof -
  note d = vmm_destroy_spec [OF inv r]
  have "{p. (r, p) \<in> refs m R f} = released m R r {p. user_path p} f" by (auto simp: released_def refs_def)
  then show ?thesis
    using vm_invD(6) [OF d(1), of f] vm_invD(6) [OF inv f] refs_remove [OF inv r, of f] f d(3) by (simp add: mem_cong [OF d(2)])
qed

text \<open>
  C4: tearing an address space down. \<open>vmm_destroy_user_pagetable\<close> gives up exactly one reference for every
  table of the address space and for every counted page mapped in it, so the machine is accounted for
  without it and with the same outside references; the other address spaces are untouched.
\<close>

theorem vmm_destroy_user_pagetable_correct:
  assumes inv: "vm_inv m R X" and r: "r \<in> R"
  shows "let m' = vmm_destroy_user_pagetable (Some r) m in
     vm_inv m' (R - {r}) X \<and> phys_mem m' = phys_mem m
     \<and> (\<forall>r'\<in>R - {r}. \<forall>va. lookup m' r' va = lookup m r' va)
     \<and> (\<forall>f<npages m. owners_of m' f + card {p. (r, p) \<in> refs m R f} = owners_of m f)"
proof -
  let ?m' = "vmm_destroy_user_pagetable (Some r) m"
  note d = vmm_destroy_spec [OF inv r]
  then show ?thesis using destroy_owners [OF inv r] by (simp add: Let_def mem_cong [OF d(2)])
qed

theorem vmm_destroy_user_pagetable_correct_witness:
  "let m' = vmm_destroy_user_pagetable (Some 0x1000) demo3 in
     vm_inv demo3 {0x1000} (owners_of demo0) \<and> vm_inv m' {} (owners_of demo0)
     \<and> owners_of demo3 2 = 1 \<and> owners_of m' 2 = 0"
proof -
  let ?m' = "vmm_destroy_user_pagetable (Some 0x1000) demo3"
  have d: "vm_inv ?m' {} (owners_of demo0)"
    "\<And>f. f < 16 \<Longrightarrow> owners_of ?m' f + card {p. (0x1000, p) \<in> refs demo3 {0x1000} f} = owners_of demo3 f"
    using vmm_destroy_user_pagetable_correct [OF demo3_facts(1) insertI1] by (simp_all add: Let_def demo3_facts(2))
  have f2: "frame_no (entry_addr 0x2007) = 2" by (simp add: entry_addr_def ADDR_MASK_def frame_no_def)
  have "refs demo3 {0x1000} 2 = {(0x1000, vpath 0x400000)}"
    by (rule sole_owner_refs [OF demo3_facts(1)])
      (use demo_va demo3_owners f2 in \<open>simp_all add: demo3_facts(4) pays_def has_flag_def\<close>)
  then have "owners_of ?m' 2 = 0" using d(2) [of 2] demo3_owners by simp
  then show ?thesis using d(1) demo3_facts(1) demo3_owners by (simp add: Let_def)
qed

lemma clone_keeps_refs:
  assumes inv: "vm_inv m R X" and src: "src \<in> R" and k: "kernel_root_ok m" and room: "copy_room m src"
    and g: "vmm_clone_user_pagetable src m = (Some dst, m')"
  shows "refs m' R f = refs m R f" "dst \<notin> R" "npages m' = npages m"
    "3 * card (mapped m src UNIV) + 1 < free_frames m \<Longrightarrow> vm_inv m' (insert dst R) X"
proof -
  obtain m1 where new: "vmm_new_user_pagetable m = (Some dst, m1)"
    and c: "cloned m1 (insert dst R) src dst X {p. leaf_path p} m'"
    using vmm_clone_spec [OF inv src k room g] by blast
  note n = vmm_new_user_pagetable_spec [OF inv k new]
  show "dst \<notin> R" by (rule n)
  show "npages m' = npages m" using clonedD(2) [OF c] n(7) by simp
  have mp: "mapped m1 src {p. leaf_path p} = mapped m src UNIV"
    using n(5) [OF src] by (auto simp: mapped_def leaf_path_def)
  show "vm_inv m' (insert dst R) X" if "3 * card (mapped m src UNIV) + 1 < free_frames m"
    using clonedD(1,11) [OF c] n(9) that unfolding mp by auto
  have "(r, p) \<in> refs m' R f \<longleftrightarrow> (r, p) \<in> refs m R f" if r: "r \<in> R" "user_path p" for r p
  proof (cases "length p = 4")
    case True
    then have lp: "leaf_path p" using r by (simp add: leaf_path_def)
    have "r \<noteq> dst" using r(1) n(2) by auto
    then have "pays (entry_at m' r p) f = pays (entry_at m r p) f"
      using clonedD(5) [OF c lp] clonedD(4) [OF c, of r p] n(5) [OF r] r n(2) lp
      by (cases "r = src") (auto simp: pays_downgrade)
    then show ?thesis using r by (simp add: refs_leaf [OF True])
  next
    case False
    then have "length p \<le> 3" using r by (auto simp: user_path_def)
    then have "walk m' r p = walk m r p" using clonedD(12) [OF c, of r p] n(2) n(5) [OF r] r by auto
    then show ?thesis using False by (simp add: refs_def)
  qed
  moreover have "fst x \<in> R \<and> user_path (snd x)" if "x \<in> refs n R f" for x and n :: "'a machine_scheme"
    using that by (auto simp: refs_def)
  ultimately have "x \<in> refs m' R f \<longleftrightarrow> x \<in> refs m R f" for x by (cases x) fastforce
  then show "refs m' R f = refs m R f" by blast
qed

text \<open>The pages of the source in frame \<open>f\<close> that the copy lacks because a table for them could not be allocated.\<close>

definition lost_pages :: "'a machine_scheme \<Rightarrow> addr \<Rightarrow> 'a machine_scheme \<Rightarrow> addr \<Rightarrow> nat \<Rightarrow> nat list set" where
  "lost_pages m src m' dst f = {p \<in> payers m src UNIV f. \<not> present (entry_at m' dst p)}"

lemma clone_payers:
  assumes inv: "vm_inv m R X" and src: "src \<in> R" and k: "kernel_root_ok m" and room: "copy_room m src"
    and g: "vmm_clone_user_pagetable src m = (Some dst, m')" and f: "payers m src UNIV f \<noteq> {}"
  shows "owners_of m' f = owners_of m f + card (payers m src UNIV f)"
    "payers m' dst UNIV f = payers m src UNIV f - lost_pages m src m' dst f"
    "\<exists>X'. vm_inv m' (insert dst R) X'" "{p. (dst, p) \<in> refs m' (insert dst R) f} = payers m' dst UNIV f" "f < npages m"
proof -
  obtain m1 where new: "vmm_new_user_pagetable m = (Some dst, m1)"
    and c: "cloned m1 (insert dst R) src dst X {p. leaf_path p} m'"
    using vmm_clone_spec [OF inv src k room g] by blast
  note n = vmm_new_user_pagetable_spec [OF inv k new]
  obtain q where q: "leaf_path q" "pays (entry_at m src q) f = 1" using f by (auto simp: payers_def)
  have uq: "user_path q" "length q = 4" using q(1) by (simp_all add: leaf_path_def)
  note lb = leaf_frame_bounds [OF inv src uq q(2)]
  show "f < npages m" by (rule lb)
  have "frame_state m f \<noteq> None" using lb(3) by (auto simp: owners_of_def split: option.splits)
  then have o1: "owners_of m1 f = owners_of m f" using n(6) [of f] by (simp add: owners_of_def)
  have e1: "entry_at m1 src p = entry_at m src p" if "leaf_path p" for p using n(5) [OF src] that by (simp add: leaf_path_def)
  have p1: "payers m1 src {p. leaf_path p} f = payers m src UNIV f" using e1 by (auto simp: payers_def)
  show "owners_of m' f = owners_of m f + card (payers m src UNIV f)" using clonedD(10) [OF c, of f] lb(3) unfolding o1 p1 by simp
  have dst: "pays (entry_at m' dst p) f = 1 \<longleftrightarrow> pays (entry_at m src p) f = 1 \<and> present (entry_at m' dst p)" if p: "leaf_path p" for p
  proof (cases "present (entry_at m' dst p)")
    case True
    then have "entry_at m' dst p = downgrade (entry_at m src p)" using clonedD(6) [OF c p] clonedD(7) [OF c p] e1 [OF p] p by auto
    then show ?thesis using True by (simp add: pays_downgrade)
  qed (simp add: pays_def present_def)
  then show "payers m' dst UNIV f = payers m src UNIV f - lost_pages m src m' dst f" by (auto simp: payers_def lost_pages_def)
  obtain X' where v: "vm_inv m' (insert dst R) X'" using clonedD(1) [OF c] by blast
  then show "\<exists>X'. vm_inv m' (insert dst R) X'" by blast
  have "pays (entry_at m' src q) f = 1" using clonedD(5) [OF c q(1)] e1 [OF q(1)] q by (simp add: pays_downgrade)
  then have s: "(src, q) \<in> refs m' (insert dst R) f" using src uq by (simp add: refs_leaf)
  show "{p. (dst, p) \<in> refs m' (insert dst R) f} = payers m' dst UNIV f"
  proof (rule set_eqI)
    fix p
    have "length p = 4" if "(dst, p) \<in> refs m' (insert dst R) f" using refs_leaf_only [OF v s uq(2) that] .
    then show "p \<in> {p. (dst, p) \<in> refs m' (insert dst R) f} \<longleftrightarrow> p \<in> payers m' dst UNIV f"
      by (auto simp: payers_def leaf_path_def refs_leaf)
  qed
qed

text \<open>
  C5: fork and exit leave no trace if memory suffices. With one frame for the root and three per mapped page to spare,
  copying an address space and tearing the copy down again gives every frame back exactly the owners it had. When frames
  run out the copy still takes a reference for each page of the source that it then fails to map, and
  tearing it down does not give that reference back: each frame of the source keeps one owner too many for every
  page of it that the copy lacks.
\<close>

theorem vmm_clone_destroy_restores:
  assumes inv: "vm_inv m R X" and src: "src \<in> R" and k: "kernel_root_ok m" and room: "copy_room m src"
    and g: "vmm_clone_user_pagetable src m = (Some dst, m')"
  shows "(3 * card (mapped m src UNIV) + 1 < free_frames m \<longrightarrow>
       (\<forall>f < npages m. owners_of (vmm_destroy_user_pagetable (Some dst) m') f = owners_of m f))
    \<and> (\<forall>f. payers m src UNIV f \<noteq> {} \<longrightarrow>
       owners_of (vmm_destroy_user_pagetable (Some dst) m') f = owners_of m f + card (lost_pages m src m' dst f))"
proof (intro conjI impI allI)
  note ck = clone_keeps_refs [OF inv src k room g]
  have dst: "dst \<in> insert dst R" "insert dst R - {dst} = R" using ck(2) by auto
  show "owners_of (vmm_destroy_user_pagetable (Some dst) m') f = owners_of m f"
    if budget: "3 * card (mapped m src UNIV) + 1 < free_frames m" and f: "f < npages m" for f
  proof -
    note d = vmm_destroy_spec [OF ck(4) [OF budget] dst(1), unfolded dst(2)]
    have "owners_of (vmm_destroy_user_pagetable (Some dst) m') f = card (refs m R f) + X f"
      using vm_invD(6) [OF d(1), of f] d(3) ck(3) f by (simp add: mem_cong [OF d(2)] ck(1))
    then show ?thesis using vm_invD(6) [OF inv f] by simp
  qed
  fix f assume f: "payers m src UNIV f \<noteq> {}"
  note cp = clone_payers [OF inv src k room g f]
  obtain X' where v: "vm_inv m' (insert dst R) X'" using cp(3) by blast
  have le: "lost_pages m src m' dst f \<subseteq> payers m src UNIV f" by (auto simp: lost_pages_def)
  have "card (payers m' dst UNIV f) + card (lost_pages m src m' dst f) = card (payers m src UNIV f)"
    unfolding cp(2) using card_Diff_subset [OF finite_subset [OF le finite_payers] le] card_mono [OF finite_payers le] by simp
  then show "owners_of (vmm_destroy_user_pagetable (Some dst) m') f = owners_of m f + card (lost_pages m src m' dst f)"
    using destroy_owners [OF v dst(1), of f] cp(1,4,5) ck(3) by simp
qed

theorem vmm_clone_destroy_restores_witness:
  "\<exists>dst m'. vmm_clone_user_pagetable 0x1000 demo3 = (Some dst, m')
     \<and> owners_of (vmm_destroy_user_pagetable (Some dst) m') 2 = 1"
proof -
  have ok: "pmm_ok demo3" "0 < free_frames demo3"
    using vm_invD(1) [OF demo3_facts(1)] demo3_facts(3) by simp_all
  obtain dst m' where g: "vmm_clone_user_pagetable 0x1000 demo3 = (Some dst, m')"
    using clone_returns [OF ok] by blast
  have "owners_of (vmm_destroy_user_pagetable (Some dst) m') 2 = owners_of demo3 2"
    using vmm_clone_destroy_restores [OF demo3_facts(1) _ demo3_kernel demo3_room g] demo3_facts(2,3) by (simp add: demo3_mapped)
  then show ?thesis using g demo3_owners by auto
qed

end
