(* ===== verification/Vmm_Frame.thy ===== *)
theory Vmm_Frame
  imports Vmm_Clone Vmm_Destroy
begin

text \<open>
  How the memory managers sit inside a larger kernel state. The state of every later component is a record
  that extends \<open>machine\<close>: the operations of \<^verbatim>\<open>pmm.c\<close> and \<^verbatim>\<open>vmm.c\<close> leave the added fields alone, and the
  accounting of memory depends on nothing but the fields of \<open>machine\<close>.
\<close>

section \<open>Nothing outside the machine is touched\<close>

lemma rest_upd [simp]:
  "machine.more (wr t i v m) = machine.more m" "machine.more (zero_page a m) = machine.more m"
  "machine.more (copy_page a b m) = machine.more m"
  by (simp_all add: wr_def zero_page_def copy_page_def)

lemma rest_pmm [simp]:
  "machine.more (snd (pmm_alloc_page m)) = machine.more m" "machine.more (pmm_free_page a m) = machine.more m"
  "machine.more (pmm_page_ref_inc a m) = machine.more m"
  using pmm_alloc_page_upd [of m] pmm_free_page_upd [of a m] pmm_page_ref_inc_upd [of a m] by auto

lemma rest_alloc [simp]: "pmm_alloc_page m = (a, m') \<Longrightarrow> machine.more m' = machine.more m"
  using rest_pmm(1) [of m] by simp

lemma rest_fold: "(\<And>i m. machine.more (f i m) = machine.more m) \<Longrightarrow> machine.more (fold f xs m) = machine.more m"
  by (induction xs arbitrary: m) simp_all

lemma rest_get_next_level [simp]: "machine.more (snd (get_next_level t i m)) = machine.more m"
  by (auto simp: get_next_level_def Let_def split: prod.split)

lemma rest_get_next_level' [simp]: "get_next_level t i m = (r, m') \<Longrightarrow> machine.more m' = machine.more m"
  using rest_get_next_level [of t i m] by simp

lemma rest_vmm_map_page [simp]: "machine.more (vmm_map_page r va pa fl m) = machine.more m"
  by (auto simp: vmm_map_page_def Let_def split: prod.splits option.splits)

lemma rest_vmm_unmap_page [simp]: "machine.more (vmm_unmap_page r va m) = machine.more m"
  by (auto simp: vmm_unmap_page_def Let_def split: option.splits)

lemma rest_new_user_pagetable [simp]: "machine.more (snd (vmm_new_user_pagetable m)) = machine.more m"
  by (auto simp: vmm_new_user_pagetable_def Let_def split: prod.splits intro!: trans [OF rest_fold])

lemma rest_new_user_pagetable' [simp]:
  "vmm_new_user_pagetable m = (r, m') \<Longrightarrow> machine.more m' = machine.more m"
  using rest_new_user_pagetable [of m] by simp

lemma rest_destroy [simp]: "machine.more (vmm_destroy_user_pagetable r m) = machine.more m"
proof -
  have pt: "machine.more (destroy_pt t m) = machine.more m" for t and m :: "'a machine_scheme"
    unfolding destroy_pt_def by (rule rest_fold) simp
  have pd: "machine.more (destroy_pd t m) = machine.more m" for t and m :: "'a machine_scheme"
    unfolding destroy_pd_def by (rule rest_fold) (simp add: pt)
  have pdpt: "machine.more (destroy_pdpt t m) = machine.more m" for t and m :: "'a machine_scheme"
    unfolding destroy_pdpt_def by (rule rest_fold) (simp add: pd)
  show ?thesis unfolding vmm_destroy_user_pagetable_def
    by (auto simp: pdpt intro!: rest_fold split: option.split)
qed

lemma rest_clone [simp]: "machine.more (snd (vmm_clone_user_pagetable r m)) = machine.more m"
proof -
  have lf: "machine.more (clone_leaf d i4 i3 i2 t i m) = machine.more m" for d i4 i3 i2 t i and m :: "'a machine_scheme"
    unfolding clone_leaf_def by (simp add: Let_def)
  have pt: "machine.more (clone_pt d i4 i3 i2 t m) = machine.more m" for d i4 i3 i2 t and m :: "'a machine_scheme"
    unfolding clone_pt_def by (rule rest_fold) (rule lf)
  have pd: "machine.more (clone_pd d i4 i3 t m) = machine.more m" for d i4 i3 t and m :: "'a machine_scheme"
    unfolding clone_pd_def by (rule rest_fold) (simp add: pt)
  have pdpt: "machine.more (clone_pdpt d i4 t m) = machine.more m" for d i4 t and m :: "'a machine_scheme"
    unfolding clone_pdpt_def by (rule rest_fold) (simp add: pd)
  show ?thesis unfolding vmm_clone_user_pagetable_def
    by (auto simp: pdpt intro!: trans [OF rest_fold] split: option.split prod.splits)
qed

lemma rest_cow_fault [simp]: "machine.more (snd (vmm_handle_cow_fault r va m)) = machine.more m"
  unfolding vmm_handle_cow_fault_def by (auto simp: Let_def split: prod.split)

section \<open>The accounting depends on the machine only\<close>

lemma pmm_same:
  assumes "pmm.truncate p = pmm.truncate q"
  shows "npages p = npages q" "bitmap_test p = bitmap_test q" "frame_state p = frame_state q"
    "pmm_ok p \<longleftrightarrow> pmm_ok q" "owners_of p = owners_of q" "free_frames p = free_frames q"
proof -
  have f: "highest_address p = highest_address q" "bitmap p = bitmap q" "refcounts p = refcounts q"
      "bitmap_index p = bitmap_index q"
    using assms by (simp_all add: pmm.truncate_def)
  show n: "npages p = npages q" by (simp add: npages_def f)
  show b: "bitmap_test p = bitmap_test q"
    by (simp add: fun_eq_iff bitmap_test_def bitmap_byte_def refcount_byte_def f)
  show s: "frame_state p = frame_state q" by (simp add: fun_eq_iff frame_state_def n b f)
  show "pmm_ok p \<longleftrightarrow> pmm_ok q" by (simp add: pmm_ok_def pmm_wf_def page0_reserved_def n b f)
  show "owners_of p = owners_of q" by (simp add: fun_eq_iff owners_of_def s)
  show "free_frames p = free_frames q" by (simp add: free_frames_def n s)
qed

lemma machine_same_pmm: "machine.truncate m = machine.truncate m' \<Longrightarrow> pmm.truncate m = pmm.truncate m'"
  by (simp add: machine.truncate_def pmm.truncate_def)

lemma machine_same:
  assumes "machine.truncate m = machine.truncate m'"
  shows "phys_mem m = phys_mem m'" "kernel_pml4 m = kernel_pml4 m'" "vm_inv m R X \<longleftrightarrow> vm_inv m' R X"
    "npages m = npages m'" "owners_of m = owners_of m'" "data_frame m = data_frame m'"
proof -
  show pm: "phys_mem m = phys_mem m'" and "kernel_pml4 m = kernel_pml4 m'"
    using assms by (simp_all add: machine.truncate_def)
  note c = mem_cong [OF pm] and s = pmm_same [OF machine_same_pmm [OF assms]]
  show "vm_inv m R X \<longleftrightarrow> vm_inv m' R X" unfolding vm_inv_def c s ..
  show "npages m = npages m'" "owners_of m = owners_of m'" by (simp_all add: s)
  show "data_frame m = data_frame m'" unfolding fun_eq_iff data_frame_def c by simp
qed

section \<open>Address spaces left as they are\<close>

text \<open>
  The address spaces \<open>R\<close> are the same in both states: the same entries in their tables, and the same
  contents in every frame they refer to.
\<close>

definition same_spaces :: "addr set \<Rightarrow> 'a machine_scheme \<Rightarrow> 'b machine_scheme \<Rightarrow> bool" where
  "same_spaces R m m' \<longleftrightarrow> (\<forall>r\<in>R. \<forall>p. user_path p \<longrightarrow> entry_at m' r p = entry_at m r p)
     \<and> (\<forall>f. refs m R f \<noteq> {} \<longrightarrow> phys_mem m' f = phys_mem m f)"

lemma same_spacesD:
  assumes "same_spaces R m m'"
  shows "r \<in> R \<Longrightarrow> user_path p \<Longrightarrow> entry_at m' r p = entry_at m r p"
    "r \<in> R \<Longrightarrow> user_path p \<Longrightarrow> walk m' r p = walk m r p"
    "r \<in> R \<Longrightarrow> user_va va \<Longrightarrow> lookup m' r va = lookup m r va"
    "refs m' R = refs m R" "refs m R f \<noteq> {} \<Longrightarrow> phys_mem m' f = phys_mem m f"
proof -
  show e: "r \<in> R \<Longrightarrow> user_path p \<Longrightarrow> entry_at m' r p = entry_at m r p" for r p
    using assms by (simp add: same_spaces_def)
  then show "r \<in> R \<Longrightarrow> user_path p \<Longrightarrow> walk m' r p = walk m r p" by (intro walk_entry_cong)
  show "r \<in> R \<Longrightarrow> user_va va \<Longrightarrow> lookup m' r va = lookup m r va" using e [of r "vpath va"] by (simp add: lookup_def)
  show "refs m' R = refs m R" by (rule refs_entry_cong) (rule e)
  show "refs m R f \<noteq> {} \<Longrightarrow> phys_mem m' f = phys_mem m f" using assms by (simp add: same_spaces_def)
qed

lemma same_spaces_refl: "same_spaces R m m"
  by (simp add: same_spaces_def)

lemma same_spaces_trans:
  assumes "same_spaces R m m1" "same_spaces R m1 m2"
  shows "same_spaces R m m2"
  unfolding same_spaces_def
proof (intro conjI ballI allI impI)
  show "entry_at m2 r p = entry_at m r p" if "r \<in> R" "user_path p" for r p
    using same_spacesD(1) [OF assms(1) that] same_spacesD(1) [OF assms(2) that] by simp
  show "phys_mem m2 f = phys_mem m f" if "refs m R f \<noteq> {}" for f
    using same_spacesD(5) [OF assms(1) that] same_spacesD(5) [OF assms(2), of f] same_spacesD(4) [OF assms(1)] that
    by simp
qed

lemma same_spaces_mem:
  assumes "phys_mem m' = phys_mem m"
  shows "same_spaces R m m'"
  unfolding same_spaces_def mem_cong(3) [OF assms] assms by simp

lemma same_spaces_write:
  assumes "phys_mem m' = (phys_mem m)(f := x)" "refs m R f = {}"
  shows "same_spaces R m m'"
proof -
  let ?m = "m\<lparr>phys_mem := (phys_mem m)(f := x)\<rparr>"
  have c: "phys_mem m' = phys_mem ?m" using assms(1) by simp
  have "entry_at m' r p = entry_at m r p" if "r \<in> R" "user_path p" for r p
    using data_write(1) [OF unreferenced_data_frame [OF assms(2)] that] mem_cong(3) [OF c] by simp
  then show ?thesis using assms by (auto simp: same_spaces_def)
qed

lemma same_spaces_subset: "same_spaces R m m' \<Longrightarrow> S \<subseteq> R \<Longrightarrow> same_spaces S m m'"
  unfolding same_spaces_def refs_def by blast

text \<open>With the references unchanged, the accounting pins the number of owners of every frame.\<close>

lemma same_owners:
  assumes "vm_inv m R X" "vm_inv m' R X" "refs m' R = refs m R" "f < npages m" "npages m' = npages m"
  shows "owners_of m' f = owners_of m f"
  using vm_invD(6) [OF assms(1), of f] vm_invD(6) [OF assms(2), of f] assms(3-5) by simp

end
