(* ===== verification/Links.thy ===== *)
theory Links
  imports Aeryk_Prelude
begin

text \<open>
  Doubly linked lists over two pointer functions. The kernel links its objects in four ways: the
  ready queues and wait queues (head and tail, \<^verbatim>\<open>scheduler.c\<close>, \<^verbatim>\<open>process.c\<close>), the slab lists (head only,
  \<^verbatim>\<open>slab.rs\<close>) and the ring of all processes (\<^verbatim>\<open>process.c\<close>). All of them are one predicate, \<open>chain\<close>,
  with different ends; the lemmas say what the pointer updates of each operation do to it.
\<close>

section \<open>Chains\<close>

text \<open>
  The nodes \<open>xs\<close> are linked both ways; the first one's previous link is \<open>b\<close> and the last one's next
  link is \<open>e\<close>.
\<close>

fun chain :: "(addr \<Rightarrow> addr) \<Rightarrow> (addr \<Rightarrow> addr) \<Rightarrow> addr \<Rightarrow> addr list \<Rightarrow> addr \<Rightarrow> bool" where
  "chain nx pv b [] e \<longleftrightarrow> True"
| "chain nx pv b (x # xs) e \<longleftrightarrow> pv x = b \<and> nx x = hd (xs @ [e]) \<and> chain nx pv x xs e"

lemma chain_append:
  "chain nx pv b (xs @ ys) e \<longleftrightarrow>
     chain nx pv b xs (hd (ys @ [e])) \<and> chain nx pv (last (b # xs)) ys e"
  by (induction xs arbitrary: b) (auto simp: hd_append)

lemma chain_cong:
  assumes "\<And>x. x \<in> set xs \<Longrightarrow> nx' x = nx x" "\<And>x. x \<in> set xs \<Longrightarrow> pv' x = pv x"
  shows "chain nx' pv' b xs e = chain nx pv b xs e"
  using assms by (induction xs arbitrary: b) auto

lemma chain_nx:
  "chain nx pv b (xs @ x # ys) e \<Longrightarrow> nx x = hd (ys @ [e])"
  by (simp add: chain_append)

lemma chain_pv:
  "chain nx pv b (xs @ x # ys) e \<Longrightarrow> pv x = last (b # xs)"
  by (simp add: chain_append)

text \<open>Changing only what lies at the two ends.\<close>

lemma chain_last:
  assumes "chain nx pv b xs e" "xs \<noteq> []" "last xs \<notin> set (butlast xs)"
    "\<And>x. x \<in> set xs \<Longrightarrow> x \<noteq> last xs \<Longrightarrow> nx' x = nx x" "nx' (last xs) = e'"
    "\<And>x. x \<in> set xs \<Longrightarrow> pv' x = pv x"
  shows "chain nx' pv' b xs e'"
proof -
  obtain ys y where xs: "xs = ys @ [y]" using assms(2) by (cases xs rule: rev_cases) auto
  have c: "chain nx' pv' b ys z = chain nx pv b ys z" for z
    by (rule chain_cong) (use assms xs in auto)
  show ?thesis using assms by (simp add: xs chain_append c)
qed

lemma chain_first:
  assumes "chain nx pv b xs e" "xs \<noteq> []" "hd xs \<notin> set (tl xs)"
    "\<And>x. x \<in> set xs \<Longrightarrow> x \<noteq> hd xs \<Longrightarrow> pv' x = pv x" "pv' (hd xs) = b'"
    "\<And>x. x \<in> set xs \<Longrightarrow> nx' x = nx x"
  shows "chain nx' pv' b' xs e"
proof -
  obtain y ys where xs: "xs = y # ys" using assms(2) by (cases xs) auto
  have c: "chain nx' pv' z ys e = chain nx pv z ys e" for z
    by (rule chain_cong) (use assms xs in auto)
  show ?thesis using assms by (simp add: xs c)
qed

section \<open>Lists with a head pointer\<close>

definition dlist :: "(addr \<Rightarrow> addr) \<Rightarrow> (addr \<Rightarrow> addr) \<Rightarrow> addr \<Rightarrow> addr list \<Rightarrow> bool" where
  "dlist nx pv h xs \<longleftrightarrow> h = hd (xs @ [NULL]) \<and> chain nx pv NULL xs NULL \<and> distinct xs \<and> NULL \<notin> set xs"

lemma dlist_Nil [simp]: "dlist nx pv h [] \<longleftrightarrow> h = NULL"
  by (auto simp: dlist_def)

lemma dlist_NULL: "dlist nx pv NULL xs \<longleftrightarrow> xs = []"
  by (cases xs) (auto simp: dlist_def)

lemma dlist_ConsD: "dlist nx pv h (x # xs) \<Longrightarrow> h = x \<and> x \<noteq> NULL \<and> nx x = hd (xs @ [NULL])"
  by (auto simp: dlist_def)

lemma dlist_cong:
  assumes "\<And>x. x \<in> set xs \<Longrightarrow> nx' x = nx x" "\<And>x. x \<in> set xs \<Longrightarrow> pv' x = pv x"
  shows "dlist nx' pv' h xs = dlist nx pv h xs"
  using chain_cong [of xs nx' nx pv' pv] assms by (auto simp: dlist_def)

lemma dlist_distinct: "dlist nx pv h xs \<Longrightarrow> distinct xs"
  by (simp add: dlist_def)

lemma hd_null: "NULL \<notin> set xs \<Longrightarrow> hd (xs @ [NULL]) = NULL \<longleftrightarrow> xs = []"
  by (cases xs) auto

lemma dlist_unique: "dlist nx pv h xs \<Longrightarrow> dlist nx pv' h ys \<Longrightarrow> xs = ys"
proof -
  have "chain nx pv b xs NULL \<Longrightarrow> NULL \<notin> set xs \<Longrightarrow> chain nx pv' b' ys NULL \<Longrightarrow> NULL \<notin> set ys \<Longrightarrow>
      hd (xs @ [NULL]) = hd (ys @ [NULL]) \<Longrightarrow> xs = ys" for b b'
  proof (induction xs arbitrary: b b' ys)
    case Nil
    then show ?case by (cases ys) auto
  next
    case (Cons x xs)
    from Cons.prems obtain zs where ys: "ys = x # zs" by (cases ys) auto
    have "xs = zs" by (rule Cons.IH [of x x zs]) (use Cons.prems ys in auto)
    then show ?case by (simp add: ys)
  qed
  then show "dlist nx pv h xs \<Longrightarrow> dlist nx pv' h ys \<Longrightarrow> xs = ys"
    unfolding dlist_def by blast
qed

text \<open>Adding a node in front.\<close>

lemma dlist_add:
  assumes d: "dlist nx pv h xs" and s: "s \<notin> set xs" "s \<noteq> NULL"
    and nx: "nx' s = h" "\<And>x. x \<in> set xs \<Longrightarrow> nx' x = nx x"
    and pv: "pv' s = NULL" "h \<noteq> NULL \<Longrightarrow> pv' h = s" "\<And>x. x \<in> set xs \<Longrightarrow> x \<noteq> h \<Longrightarrow> pv' x = pv x"
  shows "dlist nx' pv' s (s # xs)"
proof (cases xs)
  case Nil
  then show ?thesis using d s nx pv by (simp add: dlist_def)
next
  case (Cons y ys)
  have hy: "h = y" "y \<noteq> NULL" using d Cons by (auto simp: dlist_def)
  have "chain nx' pv' s xs NULL"
    by (rule chain_first [of nx pv NULL]) (use d Cons nx pv hy in \<open>auto simp: dlist_def\<close>)
  then show ?thesis using d s nx pv Cons hy by (auto simp: dlist_def)
qed

text \<open>Unlinking a node from anywhere in the list.\<close>

lemma chain_remove:
  assumes c: "chain nx pv b (xs @ s # ys) e" and d: "distinct (xs @ s # ys)"
    and nx: "xs \<noteq> [] \<Longrightarrow> nx' (last xs) = hd (ys @ [e])"
      "\<And>x. x \<in> set xs \<union> set ys \<Longrightarrow> (xs = [] \<or> x \<noteq> last xs) \<Longrightarrow> nx' x = nx x"
    and pv: "ys \<noteq> [] \<Longrightarrow> pv' (hd ys) = last (b # xs)"
      "\<And>x. x \<in> set xs \<union> set ys \<Longrightarrow> (ys = [] \<or> x \<noteq> hd ys) \<Longrightarrow> pv' x = pv x"
  shows "chain nx' pv' b (xs @ ys) e"
  unfolding chain_append
proof
  have dj: "xs \<noteq> [] \<Longrightarrow> last xs \<notin> set ys" "ys \<noteq> [] \<Longrightarrow> hd ys \<notin> set xs"
    using d by (auto dest: last_in_set hd_in_set)
  have cx: "chain nx pv b xs s" and cy: "chain nx pv s ys e" using c by (simp_all add: chain_append)
  show "chain nx' pv' b xs (hd (ys @ [e]))"
  proof (cases "xs = []")
    case False
    then have "distinct (butlast xs @ [last xs])" using d by simp
    then have l: "last xs \<notin> set (butlast xs)" by simp
    show ?thesis
      by (rule chain_last [OF cx False l]) (use False nx pv dj in auto)
  qed simp
  show "chain nx' pv' (last (b # xs)) ys e"
  proof (cases "ys = []")
    case False
    then have h: "hd ys \<notin> set (tl ys)" using d by (cases ys) auto
    show ?thesis by (rule chain_first [OF cy False h]) (use False nx pv dj in auto)
  qed simp
qed

lemma dlist_remove:
  assumes d: "dlist nx pv h (xs @ s # ys)"
    and nx: "pv s \<noteq> NULL \<Longrightarrow> nx' (pv s) = nx s" "\<And>x. x \<noteq> pv s \<Longrightarrow> x \<noteq> s \<Longrightarrow> nx' x = nx x"
    and pv: "nx s \<noteq> NULL \<Longrightarrow> pv' (nx s) = pv s" "\<And>x. x \<noteq> nx s \<Longrightarrow> x \<noteq> s \<Longrightarrow> pv' x = pv x"
    and h: "h' = (if h = s then nx s else h)"
  shows "dlist nx' pv' h' (xs @ ys)"
proof -
  have c: "chain nx pv NULL (xs @ s # ys) NULL" and dd: "distinct (xs @ s # ys)"
    and n: "NULL \<notin> set (xs @ s # ys)" and hh: "h = hd (xs @ s # ys @ [NULL])"
    using d by (auto simp: dlist_def)
  have ps: "pv s = last (NULL # xs)" and ns: "nx s = hd (ys @ [NULL])"
    using c by (auto simp: chain_append)
  have lx: "xs \<noteq> [] \<Longrightarrow> last xs \<noteq> NULL" "ys \<noteq> [] \<Longrightarrow> hd ys \<noteq> NULL"
    using n last_in_set [of xs] hd_in_set [of ys] by (auto simp del: last_in_set hd_in_set)
  have "chain nx' pv' NULL (xs @ ys) NULL"
  proof (rule chain_remove [OF c dd])
    show "nx' x = nx x" if "x \<in> set xs \<union> set ys" "xs = [] \<or> x \<noteq> last xs" for x
      using that nx(2) [of x] ps n dd by (cases "xs = []") auto
    show "pv' x = pv x" if "x \<in> set xs \<union> set ys" "ys = [] \<or> x \<noteq> hd ys" for x
      using that pv(2) [of x] ns n dd by (cases "ys = []") auto
  qed (use nx(1) pv(1) ps ns lx in auto)
  moreover have "h' = hd ((xs @ ys) @ [NULL])" using hh h ns dd by (cases xs) auto
  ultimately show ?thesis using dd n by (auto simp: dlist_def)
qed

section \<open>Queues with a head and a tail pointer\<close>

definition dqueue :: "(addr \<Rightarrow> addr) \<Rightarrow> (addr \<Rightarrow> addr) \<Rightarrow> addr \<Rightarrow> addr \<Rightarrow> addr list \<Rightarrow> bool" where
  "dqueue nx pv h t xs \<longleftrightarrow> dlist nx pv h xs \<and> t = last (NULL # xs)"

lemma dqueue_Nil [simp]: "dqueue nx pv h t [] \<longleftrightarrow> h = NULL \<and> t = NULL"
  by (auto simp: dqueue_def)

lemma dqueue_head: "dqueue nx pv h t xs \<Longrightarrow> h = hd (xs @ [NULL])"
  by (simp add: dqueue_def dlist_def)

lemma dqueue_head_NULL: "dqueue nx pv h t xs \<Longrightarrow> h = NULL \<longleftrightarrow> xs = []"
  by (auto simp: dqueue_def dlist_def hd_null)

lemma dqueue_tail_NULL: "dqueue nx pv h t xs \<Longrightarrow> t = NULL \<longleftrightarrow> xs = []"
  by (cases xs rule: rev_cases) (auto simp: dqueue_def dlist_def)

lemma dqueue_cong:
  assumes "\<And>x. x \<in> set xs \<Longrightarrow> nx' x = nx x" "\<And>x. x \<in> set xs \<Longrightarrow> pv' x = pv x"
  shows "dqueue nx' pv' h t xs = dqueue nx pv h t xs"
  using dlist_cong [of xs nx' nx pv' pv] assms by (auto simp: dqueue_def)

lemma dqueue_distinct: "dqueue nx pv h t xs \<Longrightarrow> distinct xs \<and> NULL \<notin> set xs"
  by (simp add: dqueue_def dlist_def)

lemma dqueue_unique: "dqueue nx pv h t xs \<Longrightarrow> dqueue nx pv' h t' ys \<Longrightarrow> xs = ys"
  by (auto simp: dqueue_def intro: dlist_unique)

lemma dqueue_push:
  assumes q: "dqueue nx pv h t xs" and p: "p \<notin> set xs" "p \<noteq> NULL"
    and nx: "nx' p = NULL" "t \<noteq> NULL \<Longrightarrow> nx' t = p" "\<And>x. x \<in> set xs \<Longrightarrow> x \<noteq> t \<Longrightarrow> nx' x = nx x"
    and pv: "pv' p = t" "\<And>x. x \<in> set xs \<Longrightarrow> pv' x = pv x"
  shows "dqueue nx' pv' (if h = NULL then p else h) p (xs @ [p])"
proof (cases "xs = []")
  case True
  then show ?thesis using q p nx pv by (auto simp: dqueue_def dlist_def)
next
  case False
  have d: "distinct xs" "NULL \<notin> set xs" "chain nx pv NULL xs NULL" "t = last xs" "h = hd xs"
    using q False by (auto simp: dqueue_def dlist_def)
  have "distinct (butlast xs @ [last xs])" using d False by simp
  then have l: "last xs \<notin> set (butlast xs)" by simp
  have t0: "t \<noteq> NULL" "h \<noteq> NULL" using d False last_in_set [of xs] hd_in_set [of xs] by (auto simp del: last_in_set hd_in_set)
  have "chain nx' pv' NULL xs p"
    by (rule chain_last [OF d(3) False l]) (use nx pv d t0 in auto)
  then show ?thesis using d p nx pv False t0 by (auto simp: dqueue_def dlist_def chain_append)
qed

lemma dqueue_pop:
  assumes q: "dqueue nx pv h t (x # xs)"
    and nx: "\<And>y. y \<in> set xs \<Longrightarrow> nx' y = nx y"
    and pv: "nx x \<noteq> NULL \<Longrightarrow> pv' (nx x) = NULL" "\<And>y. y \<in> set xs \<Longrightarrow> y \<noteq> nx x \<Longrightarrow> pv' y = pv y"
  shows "dqueue nx' pv' (nx x) (if nx x = NULL then NULL else t) xs"
proof (cases "xs = []")
  case True
  then show ?thesis using q by (auto simp: dqueue_def dlist_def)
next
  case False
  have d: "distinct xs" "NULL \<notin> set xs" "chain nx pv x xs NULL" "t = last xs" "nx x = hd xs"
    using q False by (auto simp: dqueue_def dlist_def)
  have h: "hd xs \<notin> set (tl xs)" "hd xs \<noteq> NULL" using d False hd_in_set [of xs] by (cases xs; auto)+
  have "chain nx' pv' NULL xs NULL"
    by (rule chain_first [OF d(3) False h(1)]) (use nx pv d h in auto)
  then show ?thesis using d h False by (auto simp: dqueue_def dlist_def)
qed

section \<open>Rings\<close>

definition ring :: "(addr \<Rightarrow> addr) \<Rightarrow> (addr \<Rightarrow> addr) \<Rightarrow> addr \<Rightarrow> addr list \<Rightarrow> bool" where
  "ring nx pv h xs \<longleftrightarrow> (if xs = [] then h = NULL
     else h = hd xs \<and> chain nx pv (last xs) xs (hd xs) \<and> distinct xs \<and> NULL \<notin> set xs)"

lemma ring_NULL: "ring nx pv h xs \<Longrightarrow> h = NULL \<longleftrightarrow> xs = []"
  by (cases xs) (auto simp: ring_def)

lemma ring_cong:
  assumes "\<And>x. x \<in> set xs \<Longrightarrow> nx' x = nx x" "\<And>x. x \<in> set xs \<Longrightarrow> pv' x = pv x"
  shows "ring nx' pv' h xs = ring nx pv h xs"
  using chain_cong [of xs nx' nx pv' pv] assms by (auto simp: ring_def)

lemma ring_distinct: "ring nx pv h xs \<Longrightarrow> distinct xs \<and> NULL \<notin> set xs"
  by (cases "xs = []") (auto simp: ring_def)

lemma ring_single: "x \<noteq> NULL \<Longrightarrow> nx x = x \<Longrightarrow> pv x = x \<Longrightarrow> ring nx pv x [x]"
  by (simp add: ring_def)

text \<open>Appending at the end, just before the head.\<close>

lemma ring_push:
  assumes r: "ring nx pv h xs" "h \<noteq> NULL" and p: "p \<notin> set xs" "p \<noteq> NULL"
    and nx: "nx' p = h" "nx' (pv h) = p" "\<And>x. x \<in> set xs \<Longrightarrow> x \<noteq> pv h \<Longrightarrow> nx' x = nx x"
    and pv: "pv' p = pv h" "pv' h = p" "\<And>x. x \<in> set xs \<Longrightarrow> x \<noteq> h \<Longrightarrow> pv' x = pv x"
  shows "ring nx' pv' h (xs @ [p])"
proof -
  obtain ys where xs: "xs = h # ys" and d: "distinct xs" "NULL \<notin> set xs" and c: "chain nx pv (last xs) xs h"
    using r by (cases xs) (auto simp: ring_def)
  have ph: "pv h = last xs" using c xs by auto
  have ne: "xs \<noteq> []" using xs by simp
  have "distinct (butlast xs @ [last xs])" using d ne by simp
  then have l: "last xs \<notin> set (butlast xs)" by simp
  have "chain nx' pv (last xs) xs p"
    by (rule chain_last [OF c ne l]) (use nx ph in auto)
  then have "chain nx' pv' p xs p"
    by (rule chain_first) (use xs d pv in auto)
  then show ?thesis using xs d p nx pv ph by (auto simp: ring_def chain_append hd_append)
qed

text \<open>Unlinking a node of a ring; a ring of one becomes empty.\<close>

lemma ring_remove:
  assumes r: "ring nx pv h (xs @ s # ys)" and ne: "xs @ ys \<noteq> []"
    and nx: "nx' (pv s) = nx s" "\<And>x. x \<noteq> pv s \<Longrightarrow> x \<noteq> s \<Longrightarrow> nx' x = nx x"
    and pv: "pv' (nx s) = pv s" "\<And>x. x \<noteq> nx s \<Longrightarrow> x \<noteq> s \<Longrightarrow> pv' x = pv x"
    and h: "h' = (if h = s then nx s else h)"
  shows "ring nx' pv' h' (xs @ ys)" "nx s \<noteq> s" "nx s \<noteq> NULL"
proof -
  let ?l = "last (xs @ s # ys)" and ?h = "hd (xs @ s # ys)"
  have c: "chain nx pv ?l (xs @ s # ys) ?h" and d: "distinct (xs @ s # ys)" "NULL \<notin> set (xs @ s # ys)"
    and hh: "h = ?h" using r by (auto simp: ring_def)
  have ps: "pv s = last (?l # xs)" and ns: "nx s = hd (ys @ [?h])" using c by (auto simp: chain_append)
  show "nx s \<noteq> s" using ns ne d by (cases ys; cases xs) auto
  show "nx s \<noteq> NULL" using ns d ne by (cases ys; cases xs) auto
  have c1: "chain nx' pv' ?l (xs @ ys) ?h" if "xs \<noteq> []" "ys \<noteq> []"
  proof (rule chain_remove [OF c d(1)])
    show "nx' x = nx x" if "x \<in> set xs \<union> set ys" "xs = [] \<or> x \<noteq> last xs" for x
      using that nx(2) [of x] ps d \<open>xs \<noteq> []\<close> by auto
    show "pv' x = pv x" if "x \<in> set xs \<union> set ys" "ys = [] \<or> x \<noteq> hd ys" for x
      using that pv(2) [of x] ns d \<open>ys \<noteq> []\<close> by auto
  qed (use nx(1) pv(1) ps ns that in auto)
  show "ring nx' pv' h' (xs @ ys)"
  proof (cases "xs = []")
    case True
    then have yn: "ys \<noteq> []" using ne by simp
    have cy: "chain nx pv s ys s" and ps': "pv s = last ys" and ns': "nx s = hd ys"
      using c ps ns True yn by auto
    have "distinct (butlast ys @ [last ys])" using d yn by simp
    then have l: "last ys \<notin> set (butlast ys)" by simp
    have hy: "hd ys \<notin> set (tl ys)" using d yn by (cases ys) auto
    have "chain nx' pv s ys (hd ys)"
      by (rule chain_last [OF cy yn l]) (use nx ps' ns' d True in auto)
    then have "chain nx' pv' (last ys) ys (hd ys)"
      by (rule chain_first [OF _ yn hy]) (use pv ps' ns' d True in auto)
    then show ?thesis using True yn h hh ns' d by (auto simp: ring_def)
  next
    case False
    show ?thesis
    proof (cases "ys = []")
      case True
      have cx: "chain nx pv s xs s" and ps': "pv s = last xs" and ns': "nx s = hd xs"
        using c ps ns True False by (auto simp: chain_append)
      have "distinct (butlast xs @ [last xs])" using d False by simp
      then have l: "last xs \<notin> set (butlast xs)" by simp
      have hx: "hd xs \<notin> set (tl xs)" using d False by (cases xs) auto
      have "chain nx' pv s xs (hd xs)"
        by (rule chain_last [OF cx False l]) (use nx ps' ns' d True in auto)
      then have "chain nx' pv' (last xs) xs (hd xs)"
        by (rule chain_first [OF _ False hx]) (use pv ps' ns' d True in auto)
      moreover have "h \<noteq> s" using hh False d by (cases xs) auto
      ultimately show ?thesis using True False h hh d by (auto simp: ring_def)
    next
      case yn: False
      have "h \<noteq> s" using hh False d by (cases xs) auto
      then show ?thesis using c1 [OF False yn] False yn h hh d by (auto simp: ring_def)
    qed
  qed
qed

lemma ring_remove_last: "ring nx pv h [s] \<Longrightarrow> h = s \<and> nx s = s \<and> pv s = s"
  by (simp add: ring_def)

text \<open>
  Walking a ring: the counting loop \<^verbatim>\<open>do { count++; p = p->next; } while (p != node);\<close> and the sweep that
  visits one node per count go through exactly the nodes of the ring.
\<close>

fun ring_visit :: "(addr \<Rightarrow> addr) \<Rightarrow> addr \<Rightarrow> nat \<Rightarrow> addr list" where
  "ring_visit nx p 0 = []"
| "ring_visit nx p (Suc n) = p # ring_visit nx (nx p) n"

lemma chain_visit: "chain nx pv b xs e \<Longrightarrow> ring_visit nx (hd (xs @ [e])) (length xs) = xs"
  by (induction xs arbitrary: b) auto

lemma ring_visit_all: "ring nx pv h xs \<Longrightarrow> ring_visit nx h (length xs) = xs"
proof (cases xs)
  case (Cons y ys)
  assume "ring nx pv h xs"
  then have "h = hd (xs @ [hd xs])" "chain nx pv (last xs) xs (hd xs)" using Cons by (auto simp: ring_def)
  then show ?thesis using chain_visit [of nx pv "last xs" xs "hd xs"] by simp
qed simp

end
