(* ===== verification/Slab.thy ===== *)
theory Slab
  imports Vmm_Frame Links
begin

text \<open>
  The kernel heap, \<^verbatim>\<open>src/crates/kernel/src/slab.rs\<close>: eight caches of fixed-size chunks carved out of whole
  pages of the physical memory manager. A page in use by the heap is a slab; its header lies at the start
  of the page and its free chunks are linked through their first word. The headers and the links are kept
  in stores of their own (\<open>slab_at\<close>, \<open>chunk_next\<close>), indexed by the address of the page and of the chunk; the
  objects the clients keep in allocated chunks are in the stores of the client theories. A pointer to
  \<^verbatim>\<open>KMALLOC_CACHES[i]\<close> is the index \<open>i\<close>.
\<close>

section \<open>State\<close>

abbreviation SLAB_MAGIC :: u32 where "SLAB_MAGIC \<equiv> 0x51AB51AB"
abbreviation NUM_CACHES :: nat where "NUM_CACHES \<equiv> 8"

definition CACHE_SIZES :: "u64 list" where
  "CACHE_SIZES = [16, 32, 64, 128, 256, 512, 1024, 2048]"

record slab =
  slab_magic :: u32
  slab_next :: addr
  slab_prev :: addr
  slab_cache_ix :: nat
  slab_free_list :: addr
  slab_free_chunks :: u64
  slab_total_chunks :: u64

record slab_cache =
  object_size :: u64
  slabs_partial :: addr
  slabs_free :: addr
  slabs_full :: addr

definition EMPTY_CACHE :: slab_cache where
  "EMPTY_CACHE = \<lparr>object_size = 0, slabs_partial = NULL, slabs_free = NULL, slabs_full = NULL\<rparr>"

record kheap = machine +
  slab_at :: "addr \<Rightarrow> slab"
  chunk_next :: "addr \<Rightarrow> addr"
  kmalloc_caches :: "slab_cache list"

section \<open>Operations\<close>

text \<open>Which of the three list heads of a cache a list operation works on.\<close>

datatype slab_list = Partial | Free | Full

fun head_of :: "slab_list \<Rightarrow> slab_cache \<Rightarrow> addr" where
  "head_of Partial c = slabs_partial c"
| "head_of Free c = slabs_free c"
| "head_of Full c = slabs_full c"

fun with_head :: "slab_list \<Rightarrow> addr \<Rightarrow> slab_cache \<Rightarrow> slab_cache" where
  "with_head Partial h c = c\<lparr>slabs_partial := h\<rparr>"
| "with_head Free h c = c\<lparr>slabs_free := h\<rparr>"
| "with_head Full h c = c\<lparr>slabs_full := h\<rparr>"

definition cache_head :: "nat \<Rightarrow> slab_list \<Rightarrow> 'a kheap_scheme \<Rightarrow> addr" where
  "cache_head i l k = head_of l (kmalloc_caches k ! i)"

definition set_cache_head :: "nat \<Rightarrow> slab_list \<Rightarrow> addr \<Rightarrow> 'a kheap_scheme \<Rightarrow> 'a kheap_scheme" where
  "set_cache_head i l h k =
     k\<lparr>kmalloc_caches := (kmalloc_caches k)[i := with_head l h (kmalloc_caches k ! i)]\<rparr>"

definition upd_slab :: "addr \<Rightarrow> (slab \<Rightarrow> slab) \<Rightarrow> 'a kheap_scheme \<Rightarrow> 'a kheap_scheme" where
  "upd_slab s f k = k\<lparr>slab_at := (slab_at k)(s := f (slab_at k s))\<rparr>"

definition list_remove :: "nat \<Rightarrow> slab_list \<Rightarrow> addr \<Rightarrow> 'a kheap_scheme \<Rightarrow> 'a kheap_scheme" where
  "list_remove i l s k =
     (let p = slab_prev (slab_at k s);
          k1 = (if p \<noteq> NULL then upd_slab p (slab_next_update (\<lambda>_. slab_next (slab_at k s))) k else k);
          n = slab_next (slab_at k1 s);
          k2 = (if n \<noteq> NULL then upd_slab n (slab_prev_update (\<lambda>_. slab_prev (slab_at k1 s))) k1 else k1)
      in if cache_head i l k2 = s then set_cache_head i l (slab_next (slab_at k2 s)) k2 else k2)"

definition list_add :: "nat \<Rightarrow> slab_list \<Rightarrow> addr \<Rightarrow> 'a kheap_scheme \<Rightarrow> 'a kheap_scheme" where
  "list_add i l s k =
     (let k1 = upd_slab s (slab_next_update (\<lambda>_. cache_head i l k)) k;
          k2 = upd_slab s (slab_prev_update (\<lambda>_. NULL)) k1;
          h = cache_head i l k2;
          k3 = (if h \<noteq> NULL then upd_slab h (slab_prev_update (\<lambda>_. s)) k2 else k2)
      in set_cache_head i l s k3)"

definition init_slab :: "'a kheap_scheme \<Rightarrow> 'a kheap_scheme" where
  "init_slab k = k\<lparr>kmalloc_caches := map (\<lambda>i. EMPTY_CACHE\<lparr>object_size := CACHE_SIZES ! i\<rparr>) [0..<NUM_CACHES]\<rparr>"

text \<open>
  The carving loop of \<^verbatim>\<open>allocate_new_slab\<close>. The smallest chunk has 16 bytes, so the loop stops after at
  most 252 rounds; \<open>carve_rounds\<close> allows 256.
\<close>

fun carve :: "nat \<Rightarrow> addr \<Rightarrow> u64 \<Rightarrow> addr \<Rightarrow> addr \<Rightarrow> 'a kheap_scheme \<Rightarrow> 'a kheap_scheme" where
  "carve 0 s obj data_end c k = k"
| "carve (Suc fuel) s obj data_end c k =
     (if c + obj \<le> data_end then
        let k1 = k\<lparr>chunk_next := (chunk_next k)(c := slab_free_list (slab_at k s))\<rparr>;
            k2 = upd_slab s (\<lambda>x. x\<lparr>slab_free_list := c, slab_free_chunks := slab_free_chunks x + 1\<rparr>) k1
        in carve fuel s obj data_end (c + obj) k2
      else k)"

definition carve_rounds :: nat where "carve_rounds = 256"

abbreviation slab_header_bytes :: u64 where "slab_header_bytes \<equiv> 56"

definition allocate_new_slab :: "nat \<Rightarrow> 'a kheap_scheme \<Rightarrow> addr \<times> 'a kheap_scheme" where
  "allocate_new_slab i k =
     (case pmm_alloc_page k of (page, k1) \<Rightarrow>
        if page = NULL then (NULL, k1)
        else
          let k2 = zero_page page k1;
              k3 = upd_slab page (\<lambda>_. \<lparr>slab_magic = SLAB_MAGIC, slab_next = NULL, slab_prev = NULL,
                     slab_cache_ix = i, slab_free_list = NULL, slab_free_chunks = 0, slab_total_chunks = 0\<rparr>) k2;
              data_start = (page + slab_header_bytes + 15) AND NOT 15;
              data_end = page + PAGE_SIZE;
              k4 = carve carve_rounds page (object_size (kmalloc_caches k3 ! i)) data_end data_start k3
          in (page, upd_slab page (\<lambda>x. x\<lparr>slab_total_chunks := slab_free_chunks x\<rparr>) k4))"

text \<open>The slab an allocation is served from, moved to the partial list if it was not there.\<close>

definition target_slab :: "nat \<Rightarrow> 'a kheap_scheme \<Rightarrow> addr \<times> 'a kheap_scheme" where
  "target_slab i k =
     (if cache_head i Partial k \<noteq> NULL then (cache_head i Partial k, k)
      else if cache_head i Free k \<noteq> NULL then
        (let s = cache_head i Free k in (s, list_add i Partial s (list_remove i Free s k)))
      else case allocate_new_slab i k of (s, k1) \<Rightarrow>
        if s = NULL then (NULL, k1) else (s, list_add i Partial s k1))"

definition take_chunk :: "nat \<Rightarrow> addr \<Rightarrow> 'a kheap_scheme \<Rightarrow> addr \<times> 'a kheap_scheme" where
  "take_chunk i s k =
     (let c = slab_free_list (slab_at k s);
          k1 = upd_slab s (slab_free_list_update (\<lambda>_. chunk_next k c)) k;
          k2 = upd_slab s (slab_free_chunks_update (\<lambda>n. n - 1)) k1
      in (c, if slab_free_chunks (slab_at k2 s) = 0
             then list_add i Full s (list_remove i Partial s k2) else k2))"

definition kmalloc :: "u64 \<Rightarrow> 'a kheap_scheme \<Rightarrow> addr \<times> 'a kheap_scheme" where
  "kmalloc sz k =
     (if sz = 0 then (NULL, k)
      else if sz > 2048 then (NULL, k)
      else case find (\<lambda>i. sz \<le> CACHE_SIZES ! i) [0..<NUM_CACHES] of
        None \<Rightarrow> (NULL, k)
      | Some i \<Rightarrow>
          (case target_slab i k of (s, k1) \<Rightarrow> if s = NULL then (NULL, k1) else take_chunk i s k1))"

text \<open>Putting a chunk back on the free list of its slab, which leaves the full list if it was there.\<close>

definition give_chunk :: "nat \<Rightarrow> addr \<Rightarrow> addr \<Rightarrow> 'a kheap_scheme \<Rightarrow> 'a kheap_scheme" where
  "give_chunk i s p k =
     (let k1 = (if slab_free_chunks (slab_at k s) = 0
                then list_add i Partial s (list_remove i Full s k) else k);
          k2 = k1\<lparr>chunk_next := (chunk_next k1)(p := slab_free_list (slab_at k1 s))\<rparr>
      in upd_slab s (\<lambda>x. x\<lparr>slab_free_list := p, slab_free_chunks := slab_free_chunks x + 1\<rparr>) k2)"

definition kfree :: "addr \<Rightarrow> 'a kheap_scheme \<Rightarrow> 'a kheap_scheme" where
  "kfree p k =
     (if p = NULL then k
      else
        let s = p AND NOT 0xFFF in
        if slab_magic (slab_at k s) \<noteq> SLAB_MAGIC then k
        else
          let i = slab_cache_ix (slab_at k s);
              k1 = give_chunk i s p k
          in if slab_free_chunks (slab_at k1 s) = slab_total_chunks (slab_at k1 s)
             then pmm_free_page s (list_remove i Partial s k1) else k1)"

section \<open>Chunks of a page\<close>

definition csize :: "nat \<Rightarrow> nat" where
  "csize i = 16 * 2 ^ i"

definition nchunks :: "nat \<Rightarrow> nat" where
  "nchunks i = 4032 div csize i"

definition chunk :: "nat \<Rightarrow> addr \<Rightarrow> nat \<Rightarrow> addr" where
  "chunk i s j = s + of_nat (64 + j * csize i)"

definition chunks :: "nat \<Rightarrow> addr \<Rightarrow> addr set" where
  "chunks i s = chunk i s ` {..<nchunks i}"

text \<open>A page the heap may use: aligned, not page 0, and inside the memory the page tables can name.\<close>

definition heap_page :: "addr \<Rightarrow> bool" where
  "heap_page s \<longleftrightarrow> frame_addr (frame_no s) = s \<and> 0 < frame_no s \<and> frame_no s < 2 ^ 40"

lemma less_8_cases: "i < 8 \<Longrightarrow> i \<in> {0, 1, 2, 3, 4, 5, 6, 7}" for i :: nat
  by auto

lemma CACHE_SIZES_nth: "i < 8 \<Longrightarrow> CACHE_SIZES ! i = of_nat (csize i)"
  using less_8_cases [of i] by (auto simp: CACHE_SIZES_def csize_def)

lemma csize_bounds: "i < 8 \<Longrightarrow> 16 \<le> csize i \<and> csize i \<le> 2048"
  using less_8_cases [of i] by (auto simp: csize_def)

lemma nchunks_bounds: "i < 8 \<Longrightarrow> 0 < nchunks i \<and> nchunks i \<le> 252"
  using less_8_cases [of i] by (auto simp: csize_def nchunks_def)

lemma chunk_fits: "i < 8 \<Longrightarrow> j < nchunks i \<Longrightarrow> 64 + j * csize i + csize i \<le> 4096"
proof -
  assume i: "i < 8" and j: "j < nchunks i"
  have "Suc j * csize i \<le> nchunks i * csize i" using j by (intro mult_le_mono1) simp
  also have "\<dots> \<le> 4032" by (simp add: nchunks_def)
  finally show ?thesis by simp
qed

lemma unat_heap_page: "heap_page s \<Longrightarrow> unat s = frame_no s * page_bytes"
proof -
  assume "heap_page s"
  then have f: "frame_no s < 2 ^ 40" "s = frame_addr (frame_no s)" by (auto simp: heap_page_def)
  have "frame_no s * page_bytes < 2 ^ 64" using f(1) by simp
  then have "unat (frame_addr (frame_no s)) = frame_no s * page_bytes"
    unfolding frame_addr_def by (simp add: unsigned_of_nat take_bit_nat_eq_self del: of_nat_mult)
  then show ?thesis using f(2) by simp
qed

lemma unat_page_offset:
  assumes "heap_page s" "n \<le> 8192"
  shows "unat (s + of_nat n) = unat s + n"
proof -
  have "frame_no s < 2 ^ 40" using assms by (simp add: heap_page_def)
  then have "unat s + n < 2 ^ 64" using unat_heap_page [OF assms(1)] assms(2) by simp
  then show ?thesis by (simp add: unat_word_ariths unat_of_nat take_bit_eq_mod) 
qed

lemma page_base:
  assumes "heap_page s" "n < 4096"
  shows "(s + of_nat n) AND NOT 0xFFF = s" "frame_no (s + of_nat n) = frame_no s" "s + of_nat n \<noteq> NULL"
proof -
  have u: "unat (s + of_nat n) = frame_no s * page_bytes + n"
    using unat_page_offset [of s n] unat_heap_page [of s] assms by simp
  show f: "frame_no (s + of_nat n) = frame_no s" using u assms(2) by (simp add: frame_no_def)
  have "0 < frame_no s" using assms by (simp add: heap_page_def)
  then show "s + of_nat n \<noteq> NULL" using u assms(2) by (metis add_is_0 mult_is_0 neq0_conv unat_0 zero_neq_numeral)
  have m: "(0xFFF::u64) = mask 12" by (simp add: mask_eq_exp_minus_1)
  have "w AND NOT 0xFFF = frame_addr (frame_no w)" for w :: u64
    by (rule bit_word_eqI)
      (auto simp: frame_addr_push_bit frame_no_drop_bit m bit_simps)
  then show "(s + of_nat n) AND NOT 0xFFF = s" using f assms(1) by (simp add: heap_page_def)
qed

section \<open>The slab lists\<close>

abbreviation snx :: "'a kheap_scheme \<Rightarrow> addr \<Rightarrow> addr" where "snx k \<equiv> \<lambda>a. slab_next (slab_at k a)"
abbreviation spv :: "'a kheap_scheme \<Rightarrow> addr \<Rightarrow> addr" where "spv k \<equiv> \<lambda>a. slab_prev (slab_at k a)"

definition on_list :: "'a kheap_scheme \<Rightarrow> nat \<Rightarrow> slab_list \<Rightarrow> addr list \<Rightarrow> bool" where
  "on_list k i l xs \<longleftrightarrow> dlist (snx k) (spv k) (cache_head i l k) xs"

text \<open>The part of a header the list operations do not touch.\<close>

definition slab_core :: "slab \<Rightarrow> u32 \<times> nat \<times> addr \<times> u64 \<times> u64" where
  "slab_core x = (slab_magic x, slab_cache_ix x, slab_free_list x, slab_free_chunks x, slab_total_chunks x)"

lemma slab_core_upd [simp]:
  "slab_core (slab_next_update f x) = slab_core x" "slab_core (slab_prev_update f x) = slab_core x"
  by (simp_all add: slab_core_def)

lemma upd_slab_simps [simp]:
  "slab_at (upd_slab s f k) a = (if a = s then f (slab_at k s) else slab_at k a)"
  "chunk_next (upd_slab s f k) = chunk_next k" "kmalloc_caches (upd_slab s f k) = kmalloc_caches k"
  "cache_head i l (upd_slab s f k) = cache_head i l k"
  by (auto simp: upd_slab_def cache_head_def)

lemma set_cache_head_simps [simp]:
  "slab_at (set_cache_head i l h k) = slab_at k" "chunk_next (set_cache_head i l h k) = chunk_next k"
  "length (kmalloc_caches (set_cache_head i l h k)) = length (kmalloc_caches k)"
  by (auto simp: set_cache_head_def)

lemma head_with_head [simp]: "head_of l (with_head l' h c) = (if l' = l then h else head_of l c)"
  "object_size (with_head l' h c) = object_size c"
  by (cases l; cases l'; simp)+

lemma cache_head_set [simp]:
  "i < length (kmalloc_caches k) \<Longrightarrow>
     cache_head j l' (set_cache_head i l h k) = (if j = i \<and> l' = l then h else cache_head j l' k)"
  by (auto simp: cache_head_def set_cache_head_def nth_list_update)

lemma object_size_set [simp]:
  "object_size (kmalloc_caches (set_cache_head i l h k) ! j) = object_size (kmalloc_caches k ! j)"
  by (cases "i < length (kmalloc_caches k)") (auto simp: set_cache_head_def nth_list_update list_update_beyond)

lemma list_remove_fields:
  assumes "spv k s \<noteq> s" "snx k s \<noteq> s"
  shows "snx (list_remove i l s k) a = (if a = spv k s \<and> a \<noteq> NULL then snx k s else snx k a)"
    "spv (list_remove i l s k) a = (if a = snx k s \<and> a \<noteq> NULL then spv k s else spv k a)"
    "slab_core (slab_at (list_remove i l s k) a) = slab_core (slab_at k a)"
    "chunk_next (list_remove i l s k) = chunk_next k"
    "length (kmalloc_caches (list_remove i l s k)) = length (kmalloc_caches k)"
    "object_size (kmalloc_caches (list_remove i l s k) ! j) = object_size (kmalloc_caches k ! j)"
    "i < length (kmalloc_caches k) \<Longrightarrow> cache_head j l' (list_remove i l s k) =
       (if j = i \<and> l' = l \<and> cache_head i l k = s then snx k s else cache_head j l' k)"
  using assms by (auto simp: list_remove_def Let_def)

lemma list_add_fields:
  assumes "cache_head i l k \<noteq> s"
  shows "snx (list_add i l s k) a = (if a = s then cache_head i l k else snx k a)"
    "spv (list_add i l s k) a = (if a = s then NULL else if a = cache_head i l k \<and> a \<noteq> NULL then s else spv k a)"
    "slab_core (slab_at (list_add i l s k) a) = slab_core (slab_at k a)"
    "chunk_next (list_add i l s k) = chunk_next k"
    "length (kmalloc_caches (list_add i l s k)) = length (kmalloc_caches k)"
    "object_size (kmalloc_caches (list_add i l s k) ! j) = object_size (kmalloc_caches k ! j)"
    "i < length (kmalloc_caches k) \<Longrightarrow> cache_head j l' (list_add i l s k) =
       (if j = i \<and> l' = l then s else cache_head j l' k)"
  using assms by (auto simp: list_add_def Let_def)

lemma on_list_remove:
  assumes r: "on_list k i l (xs @ s # ys)" and i: "i < length (kmalloc_caches k)"
  shows "on_list (list_remove i l s k) i l (xs @ ys)" "spv k s \<noteq> s" "snx k s \<noteq> s"
    "on_list k j l' zs \<Longrightarrow> set zs \<inter> set (xs @ s # ys) = {} \<Longrightarrow> (j, l') \<noteq> (i, l) \<Longrightarrow>
       on_list (list_remove i l s k) j l' zs"
proof -
  have d: "dlist (snx k) (spv k) (cache_head i l k) (xs @ s # ys)" using r by (simp add: on_list_def)
  then have ds: "distinct (xs @ s # ys)" "NULL \<notin> set (xs @ s # ys)"
    and n: "snx k s = hd (ys @ [NULL])" and p: "spv k s = last (NULL # xs)"
    by (auto simp: dlist_def chain_append)
  have nin: "snx k s \<in> insert NULL (set ys)" using n by (cases ys) auto
  have pin: "spv k s \<in> insert NULL (set xs)" using p last_in_set [of xs] by (auto simp del: last_in_set)
  show ne: "spv k s \<noteq> s" "snx k s \<noteq> s" using nin pin ds by auto
  note f = list_remove_fields [OF ne]
  show "on_list (list_remove i l s k) i l (xs @ ys)" unfolding on_list_def
    by (rule dlist_remove [OF d]) (use f i in auto)
  assume z: "on_list k j l' zs" "set zs \<inter> set (xs @ s # ys) = {}" "(j, l') \<noteq> (i, l)"
  have nz: "NULL \<notin> set zs" using z(1) by (auto simp: on_list_def dlist_def)
  have "dlist (snx (list_remove i l s k)) (spv (list_remove i l s k)) (cache_head j l' k) zs
      = dlist (snx k) (spv k) (cache_head j l' k) zs"
    by (rule dlist_cong) (use f nin pin z nz in auto)
  moreover have "cache_head j l' (list_remove i l s k) = cache_head j l' k" using f(7) [OF i] z(3) by auto
  ultimately show "on_list (list_remove i l s k) j l' zs" using z(1) by (simp add: on_list_def)
qed

lemma on_list_add:
  assumes r: "on_list k i l xs" and s: "s \<notin> set xs" "s \<noteq> NULL" and i: "i < length (kmalloc_caches k)"
  shows "on_list (list_add i l s k) i l (s # xs)" "cache_head i l k \<noteq> s"
    "on_list k j l' zs \<Longrightarrow> set zs \<inter> set (s # xs) = {} \<Longrightarrow> (j, l') \<noteq> (i, l) \<Longrightarrow>
       on_list (list_add i l s k) j l' zs"
proof -
  have d: "dlist (snx k) (spv k) (cache_head i l k) xs" using r by (simp add: on_list_def)
  have hin: "cache_head i l k \<in> insert NULL (set xs)" using d by (cases xs) (auto simp: dlist_def)
  then show ne: "cache_head i l k \<noteq> s" using s by auto
  note f = list_add_fields [OF ne]
  have "cache_head i l (list_add i l s k) = s" using f(7) [OF i] by simp
  moreover have "dlist (snx (list_add i l s k)) (spv (list_add i l s k)) s (s # xs)"
    by (rule dlist_add [OF d s]) (use f s ne in auto)
  ultimately show "on_list (list_add i l s k) i l (s # xs)" by (simp add: on_list_def)
  assume z: "on_list k j l' zs" "set zs \<inter> set (s # xs) = {}" "(j, l') \<noteq> (i, l)"
  have nz: "NULL \<notin> set zs" using z(1) by (auto simp: on_list_def dlist_def)
  have "dlist (snx (list_add i l s k)) (spv (list_add i l s k)) (cache_head j l' k) zs
      = dlist (snx k) (spv k) (cache_head j l' k) zs"
    by (rule dlist_cong) (use f hin z nz in auto)
  moreover have "cache_head j l' (list_add i l s k) = cache_head j l' k" using f(7) [OF i] z(3) by auto
  ultimately show "on_list (list_add i l s k) j l' zs" using z(1) by (simp add: on_list_def)
qed

section \<open>The invariant of the heap\<close>

fun link_path :: "(addr \<Rightarrow> addr) \<Rightarrow> addr \<Rightarrow> addr list \<Rightarrow> bool" where
  "link_path nx h [] \<longleftrightarrow> h = NULL"
| "link_path nx h (x # xs) \<longleftrightarrow> h = x \<and> x \<noteq> NULL \<and> link_path nx (nx x) xs"

lemma link_path_cong: "(\<And>x. x \<in> set xs \<Longrightarrow> nx' x = nx x) \<Longrightarrow> link_path nx' h xs = link_path nx h xs"
  by (induction xs arbitrary: h) auto

lemma link_path_upd [simp]: "c \<notin> set xs \<Longrightarrow> link_path (nx(c := v)) h xs = link_path nx h xs"
  by (rule link_path_cong) auto

text \<open>A slab of cache \<open>i\<close> whose free chunks are \<open>fs\<close>, in the order of its free list.\<close>

definition slab_page_ok :: "'a kheap_scheme \<Rightarrow> nat \<Rightarrow> addr \<Rightarrow> addr list \<Rightarrow> bool" where
  "slab_page_ok k i s fs \<longleftrightarrow> heap_page s
     \<and> slab_core (slab_at k s) =
         (SLAB_MAGIC, i, slab_free_list (slab_at k s), of_nat (length fs), of_nat (nchunks i))
     \<and> link_path (chunk_next k) (slab_free_list (slab_at k s)) fs
     \<and> distinct fs \<and> set fs \<subseteq> chunks i s"

text \<open>
  The three lists of every cache: \<open>L i l\<close> are the pages on list \<open>l\<close> of cache \<open>i\<close>, and \<open>fl s\<close> the free
  chunks of page \<open>s\<close>. No page is ever put on the free list.
\<close>

type_synonym slab_lists = "nat \<Rightarrow> slab_list \<Rightarrow> addr list"

definition slab_shape :: "'a kheap_scheme \<Rightarrow> slab_lists \<Rightarrow> (addr \<Rightarrow> addr list) \<Rightarrow> bool" where
  "slab_shape k L fl \<longleftrightarrow> length (kmalloc_caches k) = NUM_CACHES
     \<and> (\<forall>i<8. object_size (kmalloc_caches k ! i) = CACHE_SIZES ! i \<and> L i Free = []
           \<and> (\<forall>l. on_list k i l (L i l)) \<and> (\<forall>l l'. l \<noteq> l' \<longrightarrow> set (L i l) \<inter> set (L i l') = {})
           \<and> (\<forall>l. \<forall>s\<in>set (L i l). slab_page_ok k i s (fl s)))"

lemma slab_shapeD:
  assumes "slab_shape k L fl"
  shows "length (kmalloc_caches k) = 8"
    and "i < 8 \<Longrightarrow> object_size (kmalloc_caches k ! i) = CACHE_SIZES ! i"
    and "i < 8 \<Longrightarrow> L i Free = []" and "i < 8 \<Longrightarrow> on_list k i l (L i l)"
    and "i < 8 \<Longrightarrow> l \<noteq> l' \<Longrightarrow> set (L i l) \<inter> set (L i l') = {}"
    and "i < 8 \<Longrightarrow> s \<in> set (L i l) \<Longrightarrow> slab_page_ok k i s (fl s)"
  using assms unfolding slab_shape_def by blast+

lemma slab_page_ok_cong:
  assumes "slab_core (slab_at k' s) = slab_core (slab_at k s)"
    "\<And>a. frame_no a = frame_no s \<Longrightarrow> chunk_next k' a = chunk_next k a" "i < 8"
  shows "slab_page_ok k' i s fs \<longleftrightarrow> slab_page_ok k i s fs"
proof -
  have "link_path (chunk_next k') h fs = link_path (chunk_next k) h fs" if fs: "set fs \<subseteq> chunks i s" "heap_page s" for h
  proof (rule link_path_cong)
    fix x assume "x \<in> set fs"
    then obtain j where "j < nchunks i" "x = chunk i s j" using fs unfolding chunks_def by blast
    then have "frame_no x = frame_no s"
      using page_base(2) [OF fs(2), of "64 + j * csize i"] chunk_fits [OF assms(3), of j] csize_bounds [OF assms(3)]
      by (simp add: chunk_def)
    then show "chunk_next k' x = chunk_next k x" by (rule assms(2))
  qed
  moreover have "slab_free_list (slab_at k' s) = slab_free_list (slab_at k s)"
    using assms(1) by (simp add: slab_core_def)
  ultimately show ?thesis using assms(1) by (auto simp: slab_page_ok_def)
qed

lemma chunk_facts:
  assumes "heap_page s" "i < 8" "j < nchunks i"
  shows "frame_no (chunk i s j) = frame_no s" "chunk i s j AND NOT 0xFFF = s" "chunk i s j \<noteq> NULL"
    "unat (chunk i s j) = unat s + 64 + j * csize i"
proof -
  have n: "64 + j * csize i < 4096" using chunk_fits [OF assms(2,3)] csize_bounds [OF assms(2)] by linarith
  show "frame_no (chunk i s j) = frame_no s" "chunk i s j AND NOT 0xFFF = s" "chunk i s j \<noteq> NULL"
    unfolding chunk_def using page_base [OF assms(1) n] by auto
  show "unat (chunk i s j) = unat s + 64 + j * csize i"
    unfolding chunk_def using unat_page_offset [OF assms(1), of "64 + j * csize i"] n by simp
qed

lemma chunk_inj:
  assumes "heap_page s" "i < 8" "j < nchunks i" "j' < nchunks i" "chunk i s j = chunk i s j'"
  shows "j = j'"
proof -
  have "j * csize i = j' * csize i"
    using chunk_facts(4) [OF assms(1,2,3)] chunk_facts(4) [OF assms(1,2,4)] unfolding assms(5)
    by (metis add_left_cancel)
  moreover have "csize i \<noteq> 0" using csize_bounds [OF assms(2)] by simp
  ultimately show ?thesis by (metis mult_cancel2)
qed

lemma card_chunks: "heap_page s \<Longrightarrow> i < 8 \<Longrightarrow> card (chunks i s) = nchunks i \<and> finite (chunks i s)"
  using chunk_inj [of s i] unfolding chunks_def by (subst card_image) (auto simp: inj_on_def)

text \<open>Pages of different caches are different pages, and every page is on one list.\<close>

lemma slab_page_unique:
  "slab_page_ok k i s fs \<Longrightarrow> slab_page_ok k j s fs' \<Longrightarrow> i = j"
  by (simp add: slab_page_ok_def)

lemma slab_shape_disjoint:
  assumes "slab_shape k L fl" "i < 8" "j < 8" "(i, l) \<noteq> (j, l')"
  shows "set (L i l) \<inter> set (L j l') = {}"
proof (cases "i = j")
  case True
  then show ?thesis using slab_shapeD(5) [OF assms(1,2), of l l'] assms(4) by simp
next
  case False
  have "s \<notin> set (L j l')" if "s \<in> set (L i l)" for s
    using slab_shapeD(6) [OF assms(1,2) that] slab_shapeD(6) [OF assms(1,3), of s l'] slab_page_unique False
    by blast
  then show ?thesis by blast
qed

subsection \<open>Moving a page from one list to another\<close>

text \<open>\<open>list_remove\<close> followed by \<open>list_add\<close>, the way both \<^verbatim>\<open>kmalloc\<close> and \<^verbatim>\<open>kfree\<close> use them.\<close>

definition moved_list :: "slab_lists \<Rightarrow> nat \<Rightarrow> slab_list \<Rightarrow> slab_list \<Rightarrow> addr \<Rightarrow> slab_lists" where
  "moved_list L i l l' s = L(i := (L i)(l := remove1 s (L i l), l' := s # L i l'))"

lemma slab_shape_remove:
  assumes sh: "slab_shape k L fl" and i: "i < 8" and s: "s \<in> set (L i l)"
  defines "k' \<equiv> list_remove i l s k"
  shows "slab_shape k' (L(i := (L i)(l := remove1 s (L i l)))) fl"
    "slab_core (slab_at k' a) = slab_core (slab_at k a)" "chunk_next k' = chunk_next k"
proof -
  note D = slab_shapeD [OF sh]
  have il: "i < length (kmalloc_caches k)" using D(1) i by simp
  have d: "distinct (L i l)" using D(4) [OF i, of l] by (auto simp: on_list_def dlist_def)
  obtain xs ys where xy: "L i l = xs @ s # ys" using s by (meson split_list)
  then have rm: "remove1 s (L i l) = xs @ ys" using d by (simp add: remove1_append)
  note r = on_list_remove [OF D(4) [OF i, of l, unfolded xy] il]
  note rf = list_remove_fields [OF r(2,3)]
  show core: "slab_core (slab_at k' a) = slab_core (slab_at k a)" and cn: "chunk_next k' = chunk_next k" for a
    by (simp_all add: k'_def rf(3,4))
  let ?L = "L(i := (L i)(l := remove1 s (L i l)))"
  have sub: "set (?L j m) \<subseteq> set (L j m)" for j m using set_remove1_subset [of s "L i l"] by auto
  have lists: "on_list k' j m (?L j m)" if j: "j < 8" for j m
  proof (cases "(j, m) = (i, l)")
    case True
    then show ?thesis using r(1) by (simp add: k'_def rm)
  next
    case False
    have "on_list k' j m (L j m)" unfolding k'_def
      by (rule r(4) [OF D(4) [OF j] _ False]) (use slab_shape_disjoint [OF sh j i False] xy in simp)
    then show ?thesis using False by auto
  qed
  show "slab_shape k' ?L fl" unfolding slab_shape_def
  proof (intro conjI allI impI ballI)
    show "length (kmalloc_caches k') = NUM_CACHES" using D(1) by (simp add: k'_def rf(5))
    fix j :: nat assume j: "j < 8"
    show "object_size (kmalloc_caches k' ! j) = CACHE_SIZES ! j" using D(2) [OF j] by (simp add: k'_def rf(6))
    show "?L j Free = []" using D(3) [OF j] sub [of j Free] by simp
    show "on_list k' j m (?L j m)" for m by (rule lists [OF j])
    show "set (?L j m) \<inter> set (?L j m') = {}" if "m \<noteq> m'" for m m'
      using D(5) [OF j that] sub [of j m] sub [of j m'] by blast
    show "slab_page_ok k' j x (fl x)" if "x \<in> set (?L j m)" for m x
    proof -
      have "slab_page_ok k j x (fl x)" using D(6) [OF j, of x m] sub [of j m] that by blast
      then show ?thesis using slab_page_ok_cong [of k' x k j] core cn j by simp
    qed
  qed
qed

lemma slab_shape_add:
  assumes sh: "slab_shape k L fl" and i: "i < 8" and s: "\<And>j m. j < 8 \<Longrightarrow> s \<notin> set (L j m)" "slab_page_ok k i s (fl s)"
    and l: "l \<noteq> Free"
  defines "k' \<equiv> list_add i l s k"
  shows "slab_shape k' (L(i := (L i)(l := s # L i l))) fl"
    "slab_core (slab_at k' a) = slab_core (slab_at k a)" "chunk_next k' = chunk_next k"
proof -
  note D = slab_shapeD [OF sh]
  have il: "i < length (kmalloc_caches k)" using D(1) i by simp
  have "heap_page s" using s(2) by (simp add: slab_page_ok_def)
  then have s0: "s \<noteq> NULL" using page_base(3) [of s 0] by simp
  note a = on_list_add [OF D(4) [OF i, of l] s(1) [OF i] s0 il]
  note af = list_add_fields [OF a(2)]
  show core: "slab_core (slab_at k' a) = slab_core (slab_at k a)" and cn: "chunk_next k' = chunk_next k" for a
    by (simp_all add: k'_def af(3,4))
  let ?L = "L(i := (L i)(l := s # L i l))"
  have lists: "on_list k' j m (?L j m)" if j: "j < 8" for j m
  proof (cases "(j, m) = (i, l)")
    case False
    have "on_list k' j m (L j m)" unfolding k'_def
      by (rule a(3) [OF D(4) [OF j] _ False]) (use slab_shape_disjoint [OF sh j i False] s(1) [OF j, of m] in simp)
    then show ?thesis using False by auto
  qed (use a(1) in \<open>simp add: k'_def\<close>)
  show "slab_shape k' ?L fl" unfolding slab_shape_def
  proof (intro conjI allI impI ballI)
    show "length (kmalloc_caches k') = NUM_CACHES" using D(1) by (simp add: k'_def af(5))
    fix j :: nat assume j: "j < 8"
    show "object_size (kmalloc_caches k' ! j) = CACHE_SIZES ! j" using D(2) [OF j] by (simp add: k'_def af(6))
    show "?L j Free = []" using D(3) [OF j] D(3) [OF i] l by simp
    show "on_list k' j m (?L j m)" for m by (rule lists [OF j])
    show "set (?L j m) \<inter> set (?L j m') = {}" if "m \<noteq> m'" for m m'
      using D(5) [OF j that] s(1) [OF j] that by auto
    show "slab_page_ok k' j x (fl x)" if "x \<in> set (?L j m)" for m x
    proof -
      have "slab_page_ok k j x (fl x)" using that D(6) [OF j, of x m] s(2) by (auto split: if_splits)
      then show ?thesis using slab_page_ok_cong [of k' x k j] core cn j by simp
    qed
  qed
qed

lemma slab_shape_move:
  assumes sh: "slab_shape k L fl" and i: "i < 8" and s: "s \<in> set (L i l)" and l: "l' \<noteq> l" "l' \<noteq> Free"
  defines "k' \<equiv> list_add i l' s (list_remove i l s k)"
  shows "slab_shape k' (moved_list L i l l' s) fl"
    "slab_core (slab_at k' a) = slab_core (slab_at k a)" "chunk_next k' = chunk_next k"
proof -
  let ?k = "list_remove i l s k" and ?L = "L(i := (L i)(l := remove1 s (L i l)))"
  note r = slab_shape_remove [OF sh i s]
  have d: "distinct (L i l)" using slab_shapeD(4) [OF sh i, of l] by (auto simp: on_list_def dlist_def)
  have "s \<notin> set (?L j m)" if j: "j < 8" for j m
    using slab_shape_disjoint [OF sh j i, of m l] s d by (cases "(j, m) = (i, l)") auto
  moreover have "slab_page_ok ?k i s (fl s)"
    using slab_shapeD(6) [OF sh i s] slab_page_ok_cong [of ?k s k i] r(2,3) i by simp
  ultimately have a: "slab_shape (list_add i l' s ?k) (?L(i := (?L i)(l' := s # ?L i l'))) fl"
      "\<And>a. slab_core (slab_at (list_add i l' s ?k) a) = slab_core (slab_at ?k a)"
      "chunk_next (list_add i l' s ?k) = chunk_next ?k"
    using slab_shape_add [OF r(1) i, of s l'] l by blast+
  moreover have "?L(i := (?L i)(l' := s # ?L i l')) = moved_list L i l l' s"
    using l(1) by (simp add: moved_list_def)
  ultimately show "slab_shape k' (moved_list L i l l' s) fl"
    "slab_core (slab_at k' a) = slab_core (slab_at k a)" "chunk_next k' = chunk_next k"
    by (simp_all add: k'_def r(2,3))
qed

subsection \<open>Changing one page\<close>

lemma slab_shape_page:
  assumes sh: "slab_shape k L fl" and i: "i < 8"
    and ln: "\<And>a. snx k' a = snx k a" "\<And>a. spv k' a = spv k a" "kmalloc_caches k' = kmalloc_caches k"
    and oth: "\<And>a. a \<noteq> s \<Longrightarrow> slab_core (slab_at k' a) = slab_core (slab_at k a)"
      "\<And>a. frame_no a \<noteq> frame_no s \<Longrightarrow> chunk_next k' a = chunk_next k a"
    and s: "heap_page s" "\<And>j m. j < 8 \<Longrightarrow> s \<in> set (L j m) \<Longrightarrow> slab_page_ok k' j s fs"
  shows "slab_shape k' L (fl(s := fs))"
proof -
  note D = slab_shapeD [OF sh]
  have "slab_page_ok k' j x (fl x)" if j: "j < 8" "x \<in> set (L j m)" "x \<noteq> s" for j m x
  proof -
    have ok: "slab_page_ok k j x (fl x)" using D(6) [OF j(1,2)] .
    then have "frame_addr (frame_no x) = x" by (simp add: slab_page_ok_def heap_page_def)
    moreover have "frame_addr (frame_no s) = s" using s(1) by (simp add: heap_page_def)
    ultimately have "frame_no x \<noteq> frame_no s" using j(3) by metis
    then show ?thesis using ok slab_page_ok_cong [of k' x k j] oth j by simp
  qed
  moreover have "on_list k' j m xs = on_list k j m xs" for j m xs
    by (simp add: on_list_def ln(1,2) cache_head_def ln(3))
  ultimately show ?thesis using s(2) D unfolding slab_shape_def ln(3) by auto
qed

section \<open>Making a new slab\<close>

lemma carve_test:
  assumes "heap_page s" "i < 8" "j \<le> nchunks i"
  shows "chunk i s j + of_nat (csize i) \<le> s + PAGE_SIZE \<longleftrightarrow> j < nchunks i"
proof -
  have b: "j * csize i \<le> 4032" "csize i \<le> 2048" "0 < csize i"
  proof -
    have "j * csize i \<le> nchunks i * csize i" using assms(3) by (rule mult_le_mono1)
    then show "j * csize i \<le> 4032" unfolding nchunks_def using div_times_less_eq_dividend order_trans by blast
  qed (use csize_bounds [OF assms(2)] in auto)
  have c: "chunk i s j + of_nat (csize i) = s + of_nat (64 + Suc j * csize i)"
    by (simp add: chunk_def algebra_simps)
  have e: "s + PAGE_SIZE = s + of_nat 4096" by simp
  have "chunk i s j + of_nat (csize i) \<le> s + PAGE_SIZE \<longleftrightarrow> 64 + Suc j * csize i \<le> 4096"
    unfolding c e word_le_nat_alt
    using unat_page_offset [OF assms(1), of "64 + Suc j * csize i"] unat_page_offset [OF assms(1), of 4096] b by simp
  also have "\<dots> \<longleftrightarrow> Suc j * csize i \<le> 4032" by linarith
  also have "\<dots> \<longleftrightarrow> Suc j \<le> nchunks i" unfolding nchunks_def using b(3) by (simp add: less_eq_div_iff_mult_less_eq)
  finally show ?thesis by (simp add: Suc_le_eq)
qed

lemma carve_upd: "\<exists>f cn. carve n s obj e c k = upd_slab s f (k\<lparr>chunk_next := cn\<rparr>)
    \<and> (\<forall>x. slab_magic (f x) = slab_magic x \<and> slab_next (f x) = slab_next x \<and> slab_prev (f x) = slab_prev x
          \<and> slab_cache_ix (f x) = slab_cache_ix x \<and> slab_total_chunks (f x) = slab_total_chunks x)"
proof (induction n arbitrary: c k)
  case 0
  have "k = upd_slab s (\<lambda>x. x) (k\<lparr>chunk_next := chunk_next k\<rparr>)" by (simp add: upd_slab_def)
  then show ?case by (metis carve.simps(1))
next
  case (Suc n)
  let ?k1 = "k\<lparr>chunk_next := (chunk_next k)(c := slab_free_list (slab_at k s))\<rparr>"
  let ?g = "\<lambda>x. x\<lparr>slab_free_list := c, slab_free_chunks := slab_free_chunks x + 1\<rparr>"
  obtain f cn where f: "carve n s obj e (c + obj) (upd_slab s ?g ?k1) = upd_slab s f ((upd_slab s ?g ?k1)\<lparr>chunk_next := cn\<rparr>)"
      "\<forall>x. slab_magic (f x) = slab_magic x \<and> slab_next (f x) = slab_next x \<and> slab_prev (f x) = slab_prev x
          \<and> slab_cache_ix (f x) = slab_cache_ix x \<and> slab_total_chunks (f x) = slab_total_chunks x"
    using Suc.IH by blast
  show ?case
  proof (cases "c + obj \<le> e")
    case True
    have "carve (Suc n) s obj e c k = upd_slab s (f \<circ> ?g) (k\<lparr>chunk_next := cn\<rparr>)"
      using True f(1) by (simp add: Let_def) (simp add: upd_slab_def)
    moreover have "\<forall>x. slab_magic ((f \<circ> ?g) x) = slab_magic x \<and> slab_next ((f \<circ> ?g) x) = slab_next x
        \<and> slab_prev ((f \<circ> ?g) x) = slab_prev x \<and> slab_cache_ix ((f \<circ> ?g) x) = slab_cache_ix x
        \<and> slab_total_chunks ((f \<circ> ?g) x) = slab_total_chunks x" using f(2) by simp
    ultimately show ?thesis by blast
  next
    case False
    have "carve (Suc n) s obj e c k = upd_slab s (\<lambda>x. x) (k\<lparr>chunk_next := chunk_next k\<rparr>)"
      using False by (simp add: upd_slab_def)
    then show ?thesis by (intro exI [of _ "\<lambda>x. x"] exI [of _ "chunk_next k"] conjI) simp_all
  qed
qed

lemma carve_spec:
  assumes "heap_page s" "i < 8" "j \<le> nchunks i" "nchunks i \<le> n + j"
    "link_path (chunk_next k) (slab_free_list (slab_at k s)) fs" "distinct fs" "set fs = chunk i s ` {..<j}"
    "slab_free_chunks (slab_at k s) = of_nat j"
  defines "k' \<equiv> carve n s (of_nat (csize i)) (s + PAGE_SIZE) (chunk i s j) k"
  shows "(\<exists>fs'. link_path (chunk_next k') (slab_free_list (slab_at k' s)) fs' \<and> distinct fs'
            \<and> set fs' = chunks i s)
    \<and> slab_free_chunks (slab_at k' s) = of_nat (nchunks i)
    \<and> (\<forall>a. frame_no a \<noteq> frame_no s \<longrightarrow> chunk_next k' a = chunk_next k a)"
  using assms(3-8) unfolding k'_def
proof (induction n arbitrary: j k fs)
  case 0
  then show ?case by (auto simp: chunks_def)
next
  case (Suc n)
  show ?case
  proof (cases "j < nchunks i")
    case True
    let ?c = "chunk i s j"
    let ?k1 = "k\<lparr>chunk_next := (chunk_next k)(?c := slab_free_list (slab_at k s))\<rparr>"
    let ?k2 = "upd_slab s (\<lambda>x. x\<lparr>slab_free_list := ?c, slab_free_chunks := slab_free_chunks x + 1\<rparr>) ?k1"
    have step: "carve (Suc n) s (of_nat (csize i)) (s + PAGE_SIZE) ?c k
        = carve n s (of_nat (csize i)) (s + PAGE_SIZE) (chunk i s (Suc j)) ?k2"
      using carve_test [OF assms(1,2), of j] True by (simp add: Let_def) (simp add: chunk_def algebra_simps)
    have new: "?c \<notin> set fs"
    proof
      assume "?c \<in> set fs"
      then obtain x where "x < j" "chunk i s j = chunk i s x" using Suc.prems(5) by auto
      then show False using chunk_inj [OF assms(1,2) True, of x] True by simp
    qed
    have "link_path (chunk_next ?k2) (slab_free_list (slab_at k s)) fs"
      using Suc.prems(3) new by simp
    then have p: "link_path (chunk_next ?k2) (slab_free_list (slab_at ?k2 s)) (?c # fs)"
      using chunk_facts(3) [OF assms(1,2) True] by simp
    have s: "set (?c # fs) = chunk i s ` {..<Suc j}" using Suc.prems(5) by (simp add: lessThan_Suc)
    have fr: "frame_no a \<noteq> frame_no s \<Longrightarrow> chunk_next ?k2 a = chunk_next k a" for a
      using chunk_facts(1) [OF assms(1,2) True] by auto
    have cnt: "slab_free_chunks (slab_at ?k2 s) = of_nat (Suc j)" using Suc.prems(6) by simp
    have "Suc j \<le> nchunks i" "nchunks i \<le> n + Suc j" "distinct (?c # fs)"
      using True Suc.prems(2,4) new by simp_all
    from Suc.IH [OF this(1,2) p this(3) s cnt] show ?thesis unfolding step using fr by simp
  next
    case False
    then have "\<not> chunk i s j + of_nat (csize i) \<le> s + PAGE_SIZE"
      using carve_test [OF assms(1,2), of j] Suc.prems(1) by simp
    then have "carve (Suc n) s (of_nat (csize i)) (s + PAGE_SIZE) (chunk i s j) k = k" by simp
    then show ?thesis using False Suc.prems by (auto simp: chunks_def)
  qed
qed

lemma data_start: "heap_page s \<Longrightarrow> (s + slab_header_bytes + 15) AND NOT 15 = chunk i s 0"
proof -
  assume s: "heap_page s"
  have e: "s + slab_header_bytes + 15 = s + of_nat 71" by (simp add: add.assoc)
  have m: "w AND NOT 15 = of_nat (unat w div 16 * 16)" for w :: u64
  proof -
    have "w AND NOT 15 = push_bit 4 (drop_bit 4 w)"
    proof -
      have m: "(15::u64) = mask 4" by (simp add: mask_eq_exp_minus_1)
      show ?thesis unfolding m by (rule bit_word_eqI) (auto simp: bit_simps)
    qed
    also have "\<dots> = of_nat (unat (drop_bit 4 w) * 16)" by (simp add: push_bit_eq_mult)
    also have "unat (drop_bit 4 w) = unat w div 16" by (simp add: drop_bit_eq_div unat_div)
    finally show ?thesis .
  qed
  have u: "unat (s + of_nat 71) div 16 * 16 = frame_no s * page_bytes + 64"
  proof -
    have "(n * page_bytes + 71) div 16 * 16 = n * page_bytes + 64" for n :: nat
    proof -
      have e: "n * page_bytes + 71 = 7 + (n * 256 + 4) * 16" by simp
      show ?thesis unfolding e div_mult_self1 [OF zero_neq_numeral [symmetric]] by simp
    qed
    then show ?thesis using unat_page_offset [OF s, of 71] unat_heap_page [OF s] by simp
  qed
  have "frame_no s < 2 ^ 40" using s by (simp add: heap_page_def)
  have "(of_nat (frame_no s * page_bytes + 64) :: u64) = frame_addr (frame_no s) + 64"
    by (simp add: frame_addr_def)
  also have "\<dots> = s + 64" using s by (simp add: heap_page_def)
  finally show ?thesis unfolding e m u by (simp add: chunk_def)
qed

text \<open>What an update of the heap's own fields leaves alone, and what an allocator step leaves of them.\<close>

lemma kheap_fields:
  assumes "machine.more k' = machine.more k"
  shows "slab_at k' = slab_at k" "chunk_next k' = chunk_next k" "kmalloc_caches k' = kmalloc_caches k"
proof -
  have r: "slab_at k = slab_at (machine.extend m (machine.more k))"
    "chunk_next k = chunk_next (machine.extend m (machine.more k))"
    "kmalloc_caches k = kmalloc_caches (machine.extend m (machine.more k))" for m and k :: "'a kheap_scheme"
    by (cases k; simp add: machine.extend_def)+
  show "slab_at k' = slab_at k" "chunk_next k' = chunk_next k" "kmalloc_caches k' = kmalloc_caches k"
    using r [of k' undefined] r [of k undefined] assms by metis+
qed

lemma truncate_upd [simp]:
  "machine.truncate (upd_slab s f k) = machine.truncate k"
  "machine.truncate (k\<lparr>chunk_next := cn\<rparr>) = machine.truncate k"
  "machine.truncate (set_cache_head i l h k) = machine.truncate k"
  by (simp_all add: upd_slab_def set_cache_head_def machine.truncate_def)

lemma truncate_lists [simp]:
  "machine.truncate (list_remove i l s k) = machine.truncate k"
  "machine.truncate (list_add i l s k) = machine.truncate k"
  by (simp_all add: list_remove_def list_add_def Let_def)

lemma truncate_carve [simp]: "machine.truncate (carve n s obj e c k) = machine.truncate k"
  using carve_upd [of n s obj e c k] by auto

lemma allocate_new_slab_spec:
  assumes i: "i < 8" and sz: "object_size (kmalloc_caches k ! i) = CACHE_SIZES ! i"
    and inv: "vm_inv k R X" and r: "allocate_new_slab i k = (s, k')"
  shows "s = NULL \<Longrightarrow> k' = k \<and> (\<forall>f<npages k. frame_state k f \<noteq> None)"
    "s \<noteq> NULL \<Longrightarrow> vm_inv k' R (X(frame_no s := 1)) \<and> X (frame_no s) = 0 \<and> heap_page s
       \<and> frame_no s < npages k \<and> npages k' = npages k \<and> same_spaces R k k'
       \<and> kmalloc_caches k' = kmalloc_caches k
       \<and> (\<forall>a. a \<noteq> s \<longrightarrow> slab_at k' a = slab_at k a)
       \<and> (\<forall>a. frame_no a \<noteq> frame_no s \<longrightarrow> chunk_next k' a = chunk_next k a)
       \<and> (\<exists>fs. slab_page_ok k' i s fs \<and> set fs = chunks i s)"
proof -
  obtain page k1 where al: "pmm_alloc_page k = (page, k1)" by (cases "pmm_alloc_page k")
  have ps: "page = NULL \<longleftrightarrow> s = NULL" "s \<noteq> NULL \<Longrightarrow> page = s"
    using r al by (auto simp: allocate_new_slab_def Let_def split: if_splits)
  { assume "s = NULL"
    then show "k' = k \<and> (\<forall>f<npages k. frame_state k f \<noteq> None)"
      using r al pmm_frames.alloc_null [OF vm_invD(1) [OF inv], of k1] ps
      by (auto simp: allocate_new_slab_def split: if_splits) }
  assume s: "s \<noteq> NULL"
  with ps al have al: "pmm_alloc_page k = (s, k1)" by simp
  note a = vm_inv_alloc [OF inv al s]
  have rest: "slab_at k1 = slab_at k" "chunk_next k1 = chunk_next k" "kmalloc_caches k1 = kmalloc_caches k"
    by (rule kheap_fields, rule rest_alloc [OF al])+
  have hp: "heap_page s" using a(5-7) vm_invD(2) [OF inv] by (simp add: heap_page_def)
  let ?k2 = "zero_page s k1"
  let ?h = "\<lparr>slab_magic = SLAB_MAGIC, slab_next = NULL, slab_prev = NULL, slab_cache_ix = i,
     slab_free_list = NULL, slab_free_chunks = 0, slab_total_chunks = 0\<rparr>"
  let ?k3 = "upd_slab s (\<lambda>_. ?h) ?k2"
  let ?k4 = "carve carve_rounds s (of_nat (csize i)) (s + PAGE_SIZE) (chunk i s 0) ?k3"
  have rest2: "slab_at ?k2 = slab_at k" "chunk_next ?k2 = chunk_next k" "kmalloc_caches ?k2 = kmalloc_caches k"
    using rest by (simp_all add: zero_page_def)
  have k': "k' = upd_slab s (\<lambda>x. x\<lparr>slab_total_chunks := slab_free_chunks x\<rparr>) ?k4"
    using r al s data_start [OF hp, of i] sz CACHE_SIZES_nth [OF i] rest2
    by (simp add: allocate_new_slab_def Let_def)
  have "data_frame k1 R (frame_no s)" using owned_data_frame [OF a(1)] by simp
  then have inv2: "vm_inv ?k2 R (X(frame_no s := 1))"
    unfolding zero_page_def by (rule vm_inv_data_write [OF a(1)])
  have "machine.truncate k' = machine.truncate ?k2" by (simp add: k')
  then have inv': "vm_inv k' R (X(frame_no s := 1))" and np: "npages k' = npages k"
    using inv2 machine_same(3,4) a(10) by (blast, metis mem_ops_pmm(6))
  have "phys_mem k' = (phys_mem k)(frame_no s := (\<lambda>_. 0))"
    using machine_same(1) [OF \<open>machine.truncate k' = machine.truncate ?k2\<close>] a(9) by (simp add: zero_page_def)
  then have ss: "same_spaces R k k'" by (rule same_spaces_write) (rule a(3))
  obtain f cn where f: "?k4 = upd_slab s f (?k3\<lparr>chunk_next := cn\<rparr>)"
      "\<forall>x. slab_magic (f x) = slab_magic x \<and> slab_next (f x) = slab_next x \<and> slab_prev (f x) = slab_prev x
          \<and> slab_cache_ix (f x) = slab_cache_ix x \<and> slab_total_chunks (f x) = slab_total_chunks x"
    using carve_upd by blast
  have "link_path (chunk_next ?k3) (slab_free_list (slab_at ?k3 s)) []" "set [] = chunk i s ` {..<0}"
      "slab_free_chunks (slab_at ?k3 s) = of_nat 0" by simp_all
  then obtain fs where fs: "link_path (chunk_next ?k4) (slab_free_list (slab_at ?k4 s)) fs" "distinct fs" "set fs = chunks i s"
      and cnt: "slab_free_chunks (slab_at ?k4 s) = of_nat (nchunks i)"
      and oth: "\<forall>a. frame_no a \<noteq> frame_no s \<longrightarrow> chunk_next ?k4 a = chunk_next ?k3 a"
    using carve_spec [OF hp i, of 0 carve_rounds ?k3 "[]"] nchunks_bounds [OF i] by (auto simp: carve_rounds_def)
  have len: "length fs = nchunks i" using fs(2,3) distinct_card [of fs] card_chunks [OF hp i] by simp
  have "slab_magic (slab_at ?k4 s) = SLAB_MAGIC" "slab_cache_ix (slab_at ?k4 s) = i" using f by simp_all
  then have "slab_page_ok k' i s fs"
    unfolding slab_page_ok_def slab_core_def k' using hp fs cnt len by simp
  moreover have "slab_at k' a = slab_at k a" if "a \<noteq> s" for a using that by (simp add: k' f(1) rest2)
  moreover have "kmalloc_caches k' = kmalloc_caches k" by (simp add: k' f(1) rest2)
  moreover have "chunk_next k' a = chunk_next k a" if "frame_no a \<noteq> frame_no s" for a
    using oth that by (simp add: k' rest2)
  ultimately show "vm_inv k' R (X(frame_no s := 1)) \<and> X (frame_no s) = 0 \<and> heap_page s
       \<and> frame_no s < npages k \<and> npages k' = npages k \<and> same_spaces R k k'
       \<and> kmalloc_caches k' = kmalloc_caches k
       \<and> (\<forall>a. a \<noteq> s \<longrightarrow> slab_at k' a = slab_at k a)
       \<and> (\<forall>a. frame_no a \<noteq> frame_no s \<longrightarrow> chunk_next k' a = chunk_next k a)
       \<and> (\<exists>fs. slab_page_ok k' i s fs \<and> set fs = chunks i s)"
    using inv' a(2,7) np ss hp fs(3) by blast
qed

section \<open>The heap as a set of allocated chunks\<close>

definition pages :: "slab_lists \<Rightarrow> nat \<Rightarrow> addr set" where
  "pages L i = (\<Union>l. set (L i l))"

text \<open>
  \<open>A c = Some i\<close>: chunk \<open>c\<close> of size class \<open>i\<close> is allocated, that is, it lies in a slab of cache \<open>i\<close> and is
  not on its free list.
\<close>

definition heap_rep :: "slab_lists \<Rightarrow> (addr \<Rightarrow> addr list) \<Rightarrow> (addr \<rightharpoonup> nat) \<Rightarrow> bool" where
  "heap_rep L fl A \<longleftrightarrow>
     (\<forall>c i. A c = Some i \<longleftrightarrow> i < 8 \<and> (\<exists>s\<in>pages L i. c \<in> chunks i s \<and> c \<notin> set (fl s)))"

text \<open>Between operations a partial slab has both free and allocated chunks, and a full one no free chunk.\<close>

definition slab_fill :: "slab_lists \<Rightarrow> (addr \<Rightarrow> addr list) \<Rightarrow> addr set \<Rightarrow> bool" where
  "slab_fill L fl Z \<longleftrightarrow> (\<forall>i<8. (\<forall>s\<in>set (L i Partial) - Z. fl s \<noteq> [] \<and> length (fl s) < nchunks i)
                          \<and> (\<forall>s\<in>set (L i Full) - Z. fl s = []))"

definition slab_inv :: "'a kheap_scheme \<Rightarrow> (addr \<rightharpoonup> nat) \<Rightarrow> bool" where
  "slab_inv k A \<longleftrightarrow> (\<exists>L fl. slab_shape k L fl \<and> slab_fill L fl {} \<and> heap_rep L fl A)"

definition heap_frames :: "(addr \<rightharpoonup> nat) \<Rightarrow> nat set" where
  "heap_frames A = frame_no ` dom A"

text \<open>The heap together with the memory accounting: it holds exactly the pages with an allocated chunk.\<close>

definition kheap_inv :: "'a kheap_scheme \<Rightarrow> addr set \<Rightarrow> (nat \<Rightarrow> nat) \<Rightarrow> (addr \<rightharpoonup> nat) \<Rightarrow> bool" where
  "kheap_inv k R X A \<longleftrightarrow> slab_inv k A \<and> heap_frames A \<subseteq> {..<npages k}
     \<and> vm_inv k R (\<lambda>f. X f + of_bool (f \<in> heap_frames A))"

lemma pages_heap: "slab_shape k L fl \<Longrightarrow> i < 8 \<Longrightarrow> s \<in> pages L i \<Longrightarrow> slab_page_ok k i s (fl s) \<and> heap_page s"
  using slab_shapeD(6) by (fastforce simp: pages_def slab_page_ok_def)

lemma pages_class: "slab_shape k L fl \<Longrightarrow> i < 8 \<Longrightarrow> j < 8 \<Longrightarrow> s \<in> pages L i \<Longrightarrow> s \<in> pages L j \<Longrightarrow> i = j"
  using pages_heap slab_page_unique by metis

lemma chunks_page: "heap_page s \<Longrightarrow> i < 8 \<Longrightarrow> c \<in> chunks i s \<Longrightarrow>
    c AND NOT 0xFFF = s \<and> frame_no c = frame_no s \<and> c \<noteq> NULL"
  using chunk_facts by (auto simp: chunks_def)

lemma chunk_of_one_page:
  assumes "slab_shape k L fl" "i < 8" "j < 8" "s \<in> pages L i" "s' \<in> pages L j" "c \<in> chunks i s" "c \<in> chunks j s'"
  shows "s' = s \<and> j = i"
proof -
  have "heap_page s" "heap_page s'" using pages_heap assms(1-5) by blast+
  then have "s' = s" using chunks_page assms(2,3,6,7) by metis
  then show ?thesis using pages_class assms by blast
qed

lemma pages_moved: "l \<noteq> l' \<Longrightarrow> s \<in> set (L i l) \<Longrightarrow> distinct (L i l) \<Longrightarrow> pages (moved_list L i l l' s) j = pages L j"
proof -
  assume a: "l \<noteq> l'" "s \<in> set (L i l)" "distinct (L i l)"
  have "x \<in> set (moved_list L i l l' s j m) \<Longrightarrow> x \<in> pages L j" for x m
    using a by (auto simp: pages_def moved_list_def split: if_splits)
  moreover have "x \<in> set (L j m) \<Longrightarrow> x \<in> set (moved_list L i l l' s j (if j = i \<and> m = l \<and> x = s then l' else m))" for x m
    using a by (auto simp: moved_list_def)
  ultimately show ?thesis unfolding pages_def by blast
qed

lemma pages_cong: "(\<And>i. pages L' i = pages L i) \<Longrightarrow> heap_rep L' fl A = heap_rep L fl A"
  by (simp add: heap_rep_def)

lemma heap_rep_take:
  assumes sh: "slab_shape k L fl" and rep: "heap_rep L fl A" and i: "i < 8" and s: "s \<in> pages L i"
    and fs: "fl s = c # cs"
  shows "heap_rep L (fl(s := cs)) (A(c \<mapsto> i))" "A c = None" "c \<in> chunks i s"
proof -
  have ok: "c \<in> chunks i s" "distinct (c # cs)"
    using pages_heap [OF sh i s] fs by (auto simp: slab_page_ok_def)
  have one: "s' = s \<and> j = i" if "j < 8" "s' \<in> pages L j" "c \<in> chunks j s'" for j s'
    using chunk_of_one_page [OF sh i that(1) s that(2) ok(1) that(3)] .
  show "A c = None"
  proof (rule ccontr)
    assume "A c \<noteq> None"
    then obtain j s' where "j < 8" "s' \<in> pages L j" "c \<in> chunks j s'" "c \<notin> set (fl s')"
      using rep by (auto simp: heap_rep_def)
    then show False using one fs by force
  qed
  have "(A(c \<mapsto> i)) x = Some j \<longleftrightarrow> j < 8 \<and> (\<exists>s'\<in>pages L j. x \<in> chunks j s' \<and> x \<notin> set ((fl(s := cs)) s'))" for x j
  proof (cases "x = c")
    case True
    then show ?thesis using one [of j] ok s i by auto
  next
    case False
    have "A x = Some j \<longleftrightarrow> j < 8 \<and> (\<exists>s'\<in>pages L j. x \<in> chunks j s' \<and> x \<notin> set (fl s'))"
      using rep by (simp add: heap_rep_def)
    moreover have "x \<in> set (fl s') \<longleftrightarrow> x \<in> set ((fl(s := cs)) s')" for s' using False fs by auto
    ultimately show ?thesis using False by simp
  qed
  then show "heap_rep L (fl(s := cs)) (A(c \<mapsto> i))" unfolding heap_rep_def by blast
  show "c \<in> chunks i s" by (rule ok)
qed

lemma heap_rep_give:
  assumes sh: "slab_shape k L fl" and rep: "heap_rep L fl A" and i: "i < 8" and s: "s \<in> pages L i"
    and c: "c \<in> chunks i s"
  shows "heap_rep L (fl(s := c # fl s)) (A(c := None))"
proof -
  have one: "s' = s \<and> j = i" if "j < 8" "s' \<in> pages L j" "c \<in> chunks j s'" for j s'
    using chunk_of_one_page [OF sh i that(1) s that(2) c that(3)] .
  have "(A(c := None)) x = Some j \<longleftrightarrow> j < 8 \<and> (\<exists>s'\<in>pages L j. x \<in> chunks j s' \<and> x \<notin> set ((fl(s := c # fl s)) s'))" for x j
  proof (cases "x = c")
    case True
    then show ?thesis using one [of j] by auto
  next
    case False
    have "A x = Some j \<longleftrightarrow> j < 8 \<and> (\<exists>s'\<in>pages L j. x \<in> chunks j s' \<and> x \<notin> set (fl s'))"
      using rep by (simp add: heap_rep_def)
    moreover have "x \<in> set (fl s') \<longleftrightarrow> x \<in> set ((fl(s := c # fl s)) s')" for s' using False by auto
    ultimately show ?thesis using False by simp
  qed
  then show ?thesis unfolding heap_rep_def by blast
qed

lemma slab_shape_rest:
  "machine.more k' = machine.more k \<Longrightarrow> slab_shape k' L fl = slab_shape k L fl"
proof -
  assume "machine.more k' = machine.more k"
  note f = kheap_fields [OF this]
  have o: "on_list k' i l xs = on_list k i l xs" for i l xs by (simp add: on_list_def cache_head_def f)
  have "slab_page_ok k' i s fs = slab_page_ok k i s fs" for i s fs by (simp add: slab_page_ok_def f)
  then show ?thesis by (simp add: slab_shape_def f o)
qed

lemma slab_inv_rest: "machine.more k' = machine.more k \<Longrightarrow> slab_inv k' A = slab_inv k A"
  using slab_shape_rest unfolding slab_inv_def by blast

lemma heap_rep_frames:
  assumes sh: "slab_shape k L fl" and fi: "slab_fill L fl {}" and rep: "heap_rep L fl A"
  shows "f \<in> heap_frames A \<longleftrightarrow> (\<exists>i<8. \<exists>s\<in>pages L i. frame_no s = f)"
proof
  assume "f \<in> heap_frames A"
  then obtain c i where "A c = Some i" "frame_no c = f" by (auto simp: heap_frames_def)
  then show "\<exists>i<8. \<exists>s\<in>pages L i. frame_no s = f"
    using rep pages_heap [OF sh] chunks_page unfolding heap_rep_def by metis
next
  assume "\<exists>i<8. \<exists>s\<in>pages L i. frame_no s = f"
  then obtain i s where s: "i < 8" "s \<in> pages L i" "frame_no s = f" by blast
  then have ok: "slab_page_ok k i s (fl s)" "heap_page s" using pages_heap [OF sh] by auto
  have "length (fl s) < nchunks i"
  proof -
    obtain l where "s \<in> set (L i l)" using s by (auto simp: pages_def)
    then show ?thesis using fi s(1) slab_shapeD(3) [OF sh s(1)] nchunks_bounds [OF s(1)]
      by (cases l) (auto simp: slab_fill_def)
  qed
  then have "card (set (fl s)) < card (chunks i s)"
    using card_length [of "fl s"] card_chunks [OF ok(2) s(1)] by linarith
  then obtain c where c: "c \<in> chunks i s" "c \<notin> set (fl s)"
    using card_mono [of "set (fl s)" "chunks i s"] by (metis List.finite_set not_less subsetI)
  then have "A c = Some i" using rep s by (auto simp: heap_rep_def)
  moreover have "frame_no c = f" using chunks_page [OF ok(2) s(1) c(1)] s(3) by simp
  ultimately show "f \<in> heap_frames A" by (force simp: heap_frames_def)
qed

section \<open>Allocating\<close>

lemma of_nat_length_0: "length xs \<le> 252 \<Longrightarrow> (of_nat (length xs) :: u64) = 0 \<longleftrightarrow> xs = []"
proof -
  assume "length xs \<le> 252"
  then have "unat (of_nat (length xs) :: u64) = length xs" by (simp add: unsigned_of_nat take_bit_nat_eq_self)
  then show ?thesis by (metis length_0_conv unat_eq_zero unat_0 of_nat_0)
qed

text \<open>The state between finding a slab with a free chunk and taking the chunk.\<close>

definition slab_ready :: "'a kheap_scheme \<Rightarrow> addr set \<Rightarrow> (nat \<Rightarrow> nat) \<Rightarrow> (addr \<rightharpoonup> nat) \<Rightarrow> nat \<Rightarrow> addr \<Rightarrow> bool" where
  "slab_ready k R X A i s \<longleftrightarrow> (\<exists>L fl. slab_shape k L fl \<and> slab_fill L fl {s} \<and> heap_rep L fl A
     \<and> s \<in> set (L i Partial) \<and> fl s \<noteq> [] \<and> insert (frame_no s) (heap_frames A) \<subseteq> {..<npages k}
     \<and> vm_inv k R (\<lambda>f. X f + of_bool (f \<in> insert (frame_no s) (heap_frames A))))"

lemma target_slab_spec:
  assumes inv: "kheap_inv k R X A" and i: "i < 8" and r: "target_slab i k = (s, k')"
  shows "s = NULL \<Longrightarrow> k' = k \<and> (\<forall>f<npages k. frame_state k f \<noteq> None)"
    "s \<noteq> NULL \<Longrightarrow> slab_ready k' R X A i s" "same_spaces R k k'"
proof -
  let ?X = "\<lambda>f. X f + of_bool (f \<in> heap_frames A)"
  obtain L fl where sh: "slab_shape k L fl" and fi: "slab_fill L fl {}" and rep: "heap_rep L fl A"
      and vm: "vm_inv k R ?X" and bd: "heap_frames A \<subseteq> {..<npages k}"
    using inv by (auto simp: kheap_inv_def slab_inv_def)
  have fr: "f \<in> heap_frames A \<longleftrightarrow> (\<exists>i<8. \<exists>s\<in>pages L i. frame_no s = f)" for f
    by (rule heap_rep_frames [OF sh fi rep])
  have hd: "cache_head i Partial k = hd (L i Partial @ [NULL])" "cache_head i Free k = NULL"
      "NULL \<notin> set (L i Partial)"
    using slab_shapeD(4) [OF sh i, of Partial] slab_shapeD(4) [OF sh i, of Free] slab_shapeD(3) [OF sh i]
    by (auto simp: on_list_def dlist_def)
  show "s = NULL \<Longrightarrow> k' = k \<and> (\<forall>f<npages k. frame_state k f \<noteq> None)"
    using r hd(2) allocate_new_slab_spec(1) [OF i slab_shapeD(2) [OF sh i] vm]
    by (auto simp: target_slab_def split: if_splits prod.splits)
  show "same_spaces R k k'"
  proof (cases "k' = k")
    case False
    then obtain k1 where al: "allocate_new_slab i k = (s, k1)" and k': "s \<noteq> NULL" "k' = list_add i Partial s k1"
      using r hd(2) allocate_new_slab_spec(1) [OF i slab_shapeD(2) [OF sh i] vm]
      by (auto simp: target_slab_def split: if_splits prod.splits)
    have "same_spaces R k k1" using allocate_new_slab_spec(2) [OF i slab_shapeD(2) [OF sh i] vm al k'(1)] by simp
    moreover have "same_spaces R k1 k'" by (rule same_spaces_mem) (simp add: k' machine_same(1) [OF truncate_lists(2)])
    ultimately show ?thesis by (rule same_spaces_trans)
  qed (simp add: same_spaces_refl)
  assume s: "s \<noteq> NULL"
  show "slab_ready k' R X A i s"
  proof (cases "L i Partial = []")
    case False
    then have "cache_head i Partial k \<in> set (L i Partial)" using hd(1) by (cases "L i Partial") auto
    then have s': "s \<in> set (L i Partial)" "k' = k" using r hd(3) by (auto simp: target_slab_def split: if_splits)
    then have "frame_no s \<in> heap_frames A" using fr i by (auto simp: pages_def)
    then show ?thesis unfolding slab_ready_def using s' sh fi rep vm i bd
      by (intro exI [of _ L] exI [of _ fl]) (auto simp: slab_fill_def insert_absorb)
  next
    case True
    obtain k1 where al: "allocate_new_slab i k = (s, k1)" and k': "k' = list_add i Partial s k1"
      using r hd True s by (auto simp: target_slab_def split: if_splits prod.splits)
    have new: "vm_inv k1 R (?X(frame_no s := 1))" "?X (frame_no s) = 0" "heap_page s"
        "kmalloc_caches k1 = kmalloc_caches k" "\<And>a. a \<noteq> s \<Longrightarrow> slab_at k1 a = slab_at k a"
        "\<And>a. frame_no a \<noteq> frame_no s \<Longrightarrow> chunk_next k1 a = chunk_next k a"
      and np: "frame_no s < npages k" "npages k1 = npages k"
      and "\<exists>fs. slab_page_ok k1 i s fs \<and> set fs = chunks i s"
      using allocate_new_slab_spec(2) [OF i slab_shapeD(2) [OF sh i] vm al s] by auto
    then obtain fs where fs: "slab_page_ok k1 i s fs" "set fs = chunks i s" by blast
    have nin: "s \<notin> pages L j" if "j < 8" for j using new(2) fr [of "frame_no s"] that by (auto split: if_splits)
    then have nl: "s \<notin> set (L j m)" if "j < 8" for j m using that by (auto simp: pages_def)
    have ne: "x \<noteq> s" "frame_no x \<noteq> frame_no s" if "j < 8" "x \<in> set (L j m)" for x j m
    proof -
      have "x \<in> pages L j" using that by (auto simp: pages_def)
      then show "x \<noteq> s" using nin that by blast
      then show "frame_no x \<noteq> frame_no s"
        using pages_heap [OF sh that(1)] \<open>x \<in> pages L j\<close> new(3) by (metis heap_page_def)
    qed
    have D: "slab_shape k1 L (fl(s := fs))"
    proof -
      note S = slab_shapeD [OF sh]
      have "on_list k1 j m (L j m)" if j: "j < 8" for j m
      proof -
        have "dlist (snx k1) (spv k1) (cache_head j m k) (L j m) = dlist (snx k) (spv k) (cache_head j m k) (L j m)"
          by (rule dlist_cong) (use ne [OF j] new(5) in simp_all)
        then show ?thesis using S(4) [OF j, of m] by (simp add: on_list_def cache_head_def new(4))
      qed
      moreover have "slab_page_ok k1 j x ((fl(s := fs)) x)" if j: "j < 8" "x \<in> set (L j m)" for j m x
        using S(6) [OF j] slab_page_ok_cong [of k1 x k j] ne [OF j] new(5,6) j(1) by simp
      ultimately show ?thesis using S(1,2,3,5) unfolding slab_shape_def new(4) by blast
    qed
    let ?fl = "fl(s := fs)" and ?L = "L(i := (L i)(Partial := s # L i Partial))"
    have ok: "slab_page_ok k1 i s (?fl s)" using fs by simp
    have sh': "slab_shape k' ?L ?fl" unfolding k' by (rule slab_shape_add(1) [OF D i nl ok]) simp_all
    have pg: "pages ?L j = (if j = i then insert s (pages L i) else pages L j)" for j
      by (auto simp: pages_def split: if_splits)
    have "heap_rep ?L ?fl A"
    proof -
      have "A c = Some j \<longleftrightarrow> j < 8 \<and> (\<exists>x\<in>pages L j. c \<in> chunks j x \<and> c \<notin> set (fl x))" for c j
        using rep by (simp add: heap_rep_def)
      moreover have "(\<exists>x\<in>pages ?L j. c \<in> chunks j x \<and> c \<notin> set (?fl x))
          \<longleftrightarrow> (\<exists>x\<in>pages L j. c \<in> chunks j x \<and> c \<notin> set (fl x))" if "j < 8" for c j
        using nin [OF that] fs(2) by (auto simp: pg)
      ultimately show ?thesis unfolding heap_rep_def by blast
    qed
    moreover have "slab_fill ?L ?fl {s}" using fi by (auto simp: slab_fill_def)
    moreover have "insert (frame_no s) (heap_frames A) \<subseteq> {..<npages k'}"
      using np bd machine_same(4) [OF truncate_lists(2), of i Partial s k1] by (auto simp: k')
    moreover have "fs \<noteq> []" using fs(2) card_chunks [OF new(3) i] nchunks_bounds [OF i] by auto
    moreover have "vm_inv k' R (\<lambda>f. X f + of_bool (f \<in> insert (frame_no s) (heap_frames A)))"
    proof -
      have "?X(frame_no s := 1) = (\<lambda>f. X f + of_bool (f \<in> insert (frame_no s) (heap_frames A)))"
        using new(2) by (auto simp: fun_eq_iff)
      then show ?thesis using new(1) machine_same(3) [OF truncate_lists(2), of i Partial s k1] by (simp add: k')
    qed
    ultimately show ?thesis unfolding slab_ready_def using sh'
      by (intro exI [of _ ?L] exI [of _ ?fl]) simp
  qed
qed

text \<open>The page \<open>s\<close> is on no list of another cache.\<close>

lemma other_cache:
  assumes "slab_shape k L fl" "i < 8" "s \<in> set (L i l)" "j < 8" "s \<in> set (L j m)"
  shows "j = i \<and> m = l"
  using slab_shape_disjoint [OF assms(1,2,4), of l m] assms(3,5) by blast

lemma slab_fill_page:
  assumes sh: "slab_shape k L fl" and fi: "slab_fill L fl {s}" and i: "i < 8" and s: "s \<in> set (L i Partial)"
    and fs: "fs \<noteq> []" "length fs < nchunks i"
  shows "slab_fill L (fl(s := fs)) {}"
  unfolding slab_fill_def
proof (intro allI impI conjI ballI)
  fix j x assume j: "j < (8::nat)"
  note oc = other_cache [OF sh i s j]
  { assume x: "x \<in> set (L j Partial) - {}"
    show "(fl(s := fs)) x \<noteq> []" "length ((fl(s := fs)) x) < nchunks j"
      using fi j x fs oc [of Partial] unfolding slab_fill_def by (cases "x = s"; force)+ }
  assume x: "x \<in> set (L j Full) - {}"
  then have "x \<noteq> s" using oc [of Full] by auto
  then show "(fl(s := fs)) x = []" using fi j x by (auto simp: slab_fill_def)
qed

lemma slab_fill_moved:
  assumes sh: "slab_shape k L fl" and fi: "slab_fill L fl' {s}" and i: "i < 8" and s: "s \<in> set (L i Partial)"
    and d: "distinct (L i Partial)"
  shows "slab_fill (moved_list L i Partial Full s) (fl'(s := [])) {}"
  unfolding slab_fill_def
proof (intro allI impI conjI ballI)
  fix j x assume j: "j < (8::nat)"
  note oc = other_cache [OF sh i s j]
  { assume x: "x \<in> set (moved_list L i Partial Full s j Partial) - {}"
    have "x \<noteq> s" using x oc [of Partial] d by (auto simp: moved_list_def split: if_splits)
    moreover have "x \<in> set (L j Partial)" using x set_remove1_subset [of s "L i Partial"]
      by (auto simp: moved_list_def split: if_splits)
    ultimately show "(fl'(s := [])) x \<noteq> []" "length ((fl'(s := [])) x) < nchunks j"
      using fi j by (auto simp: slab_fill_def) }
  assume "x \<in> set (moved_list L i Partial Full s j Full) - {}"
  then have "x = s \<or> x \<in> set (L j Full)" by (auto simp: moved_list_def split: if_splits)
  then show "(fl'(s := [])) x = []" using fi j by (auto simp: slab_fill_def)
qed

lemma take_chunk_spec:
  assumes rdy: "slab_ready k R X A i s" and i: "i < 8" and r: "take_chunk i s k = (c, k')"
  shows "c \<noteq> NULL" "A c = None" "kheap_inv k' R X (A(c \<mapsto> i))" "same_spaces R k k'"
proof -
  obtain L fl where sh: "slab_shape k L fl" and fi: "slab_fill L fl {s}" and rep: "heap_rep L fl A"
      and s: "s \<in> set (L i Partial)" "fl s \<noteq> []"
      and vm: "vm_inv k R (\<lambda>f. X f + of_bool (f \<in> insert (frame_no s) (heap_frames A)))"
      and bd: "insert (frame_no s) (heap_frames A) \<subseteq> {..<npages k}"
    using rdy unfolding slab_ready_def by blast
  have sp: "s \<in> pages L i" using s by (auto simp: pages_def)
  have ok: "slab_page_ok k i s (fl s)" "heap_page s" using pages_heap [OF sh i sp] by auto
  obtain c0 cs where fl: "fl s = c0 # cs" using s(2) by (cases "fl s") auto
  have c0: "slab_free_list (slab_at k s) = c0" "link_path (chunk_next k) (chunk_next k c0) cs"
      "slab_free_chunks (slab_at k s) = of_nat (length (fl s))"
    using ok(1) fl by (auto simp: slab_page_ok_def slab_core_def)
  note take = heap_rep_take [OF sh rep i sp fl]
  let ?k1 = "upd_slab s (slab_free_list_update (\<lambda>_. chunk_next k c0)) k"
  let ?k2 = "upd_slab s (slab_free_chunks_update (\<lambda>n. n - 1)) ?k1"
  have len: "length (fl s) \<le> nchunks i"
    using ok card_chunks [OF ok(2) i] card_mono [of "chunks i s" "set (fl s)"] distinct_card [of "fl s"]
    by (auto simp: slab_page_ok_def)
  then have lc: "length cs \<le> 252" "length cs < nchunks i" using nchunks_bounds [OF i] fl by auto
  have cnt: "slab_free_chunks (slab_at ?k2 s) = of_nat (length cs)" using c0(3) fl by simp
  have ok2: "slab_page_ok ?k2 i s cs"
    using ok fl c0 cnt by (auto simp: slab_page_ok_def slab_core_def)
  have sh2: "slab_shape ?k2 L (fl(s := cs))"
  proof (rule slab_shape_page [OF sh i])
    show "slab_page_ok ?k2 j s cs" if "j < 8" "s \<in> set (L j m)" for j m
      using ok2 pages_class [OF sh i that(1) sp] that by (auto simp: pages_def)
  qed (auto simp: ok(2))
  have ck: "c = c0" "k' = (if cs = [] then list_add i Full s (list_remove i Partial s ?k2) else ?k2)"
    using r cnt of_nat_length_0 [OF lc(1)] by (auto simp: take_chunk_def Let_def c0(1))
  show "A c = None" "c \<noteq> NULL" using take(2,3) chunks_page [OF ok(2) i] by (auto simp: ck)
  have fr: "insert (frame_no s) (heap_frames A) = heap_frames (A(c \<mapsto> i))"
    using chunks_page [OF ok(2) i take(3)] by (simp add: heap_frames_def ck)
  have tr: "machine.truncate k' = machine.truncate k" by (simp add: ck)
  then show "same_spaces R k k'" by (intro same_spaces_mem machine_same(1))
  from tr have vm': "vm_inv k' R (\<lambda>f. X f + of_bool (f \<in> heap_frames (A(c \<mapsto> i))))"
    and bd': "heap_frames (A(c \<mapsto> i)) \<subseteq> {..<npages k'}"
    using vm bd machine_same(3,4) [of k' k] by (simp_all add: fr)
  have "slab_inv k' (A(c \<mapsto> i))"
  proof (cases "cs = []")
    case True
    let ?L = "moved_list L i Partial Full s"
    have d: "distinct (L i Partial)" using slab_shapeD(4) [OF sh i, of Partial] by (auto simp: on_list_def dlist_def)
    have "slab_shape k' ?L (fl(s := cs))"
      using slab_shape_move(1) [OF sh2 i s(1), of Full] True by (simp add: ck)
    moreover have "heap_rep ?L (fl(s := cs)) (A(c \<mapsto> i))"
      using take(1) pages_cong [of ?L L] pages_moved [of Partial Full s L i] s(1) d by (simp add: ck)
    moreover have "slab_fill ?L (fl(s := cs)) {}"
      using slab_fill_moved [OF sh fi i s(1) d] True by simp
    ultimately show ?thesis unfolding slab_inv_def by blast
  next
    case False
    have "slab_fill L (fl(s := cs)) {}" by (rule slab_fill_page [OF sh fi i s(1) False lc(2)])
    then show ?thesis using sh2 take(1) False unfolding slab_inv_def by (auto simp: ck)
  qed
  then show "kheap_inv k' R X (A(c \<mapsto> i))" using vm' bd' by (simp add: kheap_inv_def)
qed

definition class_of_size :: "u64 \<Rightarrow> nat option" where
  "class_of_size sz = (if sz = 0 \<or> sz > 2048 then None else find (\<lambda>i. sz \<le> CACHE_SIZES ! i) [0..<NUM_CACHES])"

lemma class_of_size_Some:
  assumes "class_of_size sz = Some i"
  shows "i < 8" "unat sz \<le> csize i" "0 < i \<Longrightarrow> csize (i - 1) < unat sz" "sz \<noteq> 0"
proof -
  have i: "i < 8" "sz \<le> CACHE_SIZES ! i" "\<forall>j<i. \<not> sz \<le> CACHE_SIZES ! j" "sz \<noteq> 0"
    using assms by (auto simp: class_of_size_def find_upt_Some split: if_splits simp del: upt_rec_numeral)
  have u: "unat (CACHE_SIZES ! j) = csize j" if "j < 8" for j
  proof -
    have "csize j < 2 ^ 64" using csize_bounds [OF that] by simp
    then show ?thesis using CACHE_SIZES_nth [OF that] by (simp add: unsigned_of_nat take_bit_nat_eq_self)
  qed
  show "i < 8" "sz \<noteq> 0" by (rule i)+
  show "unat sz \<le> csize i" using i(1,2) u by (simp add: word_le_nat_alt)
  show "csize (i - 1) < unat sz" if "0 < i"
  proof -
    have "i - 1 < 8" "i - 1 < i" using that i(1) by simp_all
    then have "unat (CACHE_SIZES ! (i - 1)) < unat sz" using i(3) by (simp add: word_le_nat_alt not_le)
    then show ?thesis using u [OF \<open>i - 1 < 8\<close>] by simp
  qed
qed

lemma class_of_size_None: "class_of_size sz = None \<longleftrightarrow> sz = 0 \<or> sz > 2048"
proof -
  have "\<exists>i\<in>{..<8}. sz \<le> CACHE_SIZES ! i" if "sz \<le> 2048"
    by (rule bexI [of _ 7]) (use that in \<open>simp_all add: CACHE_SIZES_def\<close>)
  then show ?thesis by (auto simp: class_of_size_def find_upt_None not_less simp del: upt_rec_numeral)
qed

lemma kmalloc_spec:
  assumes inv: "kheap_inv k R X A" and r: "kmalloc sz k = (p, k')"
  shows "p = NULL \<Longrightarrow> k' = k \<and> (class_of_size sz = None \<or> (\<forall>f<npages k. frame_state k f \<noteq> None))"
    "p \<noteq> NULL \<Longrightarrow> \<exists>i. class_of_size sz = Some i \<and> A p = None \<and> kheap_inv k' R X (A(p \<mapsto> i))"
    "same_spaces R k k'"
proof -
  have *: "((p = NULL \<and> k' = k \<and> (class_of_size sz = None \<or> (\<forall>f<npages k. frame_state k f \<noteq> None)))
      \<or> (p \<noteq> NULL \<and> (\<exists>i. class_of_size sz = Some i \<and> A p = None \<and> kheap_inv k' R X (A(p \<mapsto> i)))))
      \<and> same_spaces R k k'"
  proof (cases "class_of_size sz")
    case None
    then have "kmalloc sz k = (NULL, k)" using class_of_size_None [of sz] unfolding kmalloc_def by presburger
    then show ?thesis using r None by (simp add: same_spaces_refl)
  next
    case (Some i)
    obtain s k1 where t: "target_slab i k = (s, k1)" by (cases "target_slab i k")
    have km: "kmalloc sz k = (if s = NULL then (NULL, k1) else take_chunk i s k1)"
      using Some t by (auto simp: kmalloc_def class_of_size_def split: if_splits simp del: upt_rec_numeral)
    note i = class_of_size_Some(1) [OF Some]
    show ?thesis
    proof (cases "s = NULL")
      case True
      then show ?thesis using target_slab_spec(1) [OF inv i t] km r by (simp add: same_spaces_refl)
    next
      case False
      then have "take_chunk i s k1 = (p, k')" using km r by simp
      note tc = take_chunk_spec [OF target_slab_spec(2) [OF inv i t False] i this]
      have "same_spaces R k k'" by (rule same_spaces_trans [OF target_slab_spec(3) [OF inv i t] tc(4)])
      then show ?thesis using tc Some by blast
    qed
  qed
  then show "p = NULL \<Longrightarrow> k' = k \<and> (class_of_size sz = None \<or> (\<forall>f<npages k. frame_state k f \<noteq> None))"
    "p \<noteq> NULL \<Longrightarrow> \<exists>i. class_of_size sz = Some i \<and> A p = None \<and> kheap_inv k' R X (A(p \<mapsto> i))"
    "same_spaces R k k'" by blast+
qed

section \<open>Freeing\<close>

lemma heap_rep_drop_page:
  assumes sh: "slab_shape k L fl" and rep: "heap_rep L fl A" and i: "i < 8" and s: "s \<in> set (L i l)"
    and all: "chunks i s \<subseteq> set (fl s)"
  defines "L' \<equiv> L(i := (L i)(l := remove1 s (L i l)))"
  shows "heap_rep L' fl A" "pages L' j = (if j = i then pages L i - {s} else pages L j)"
proof -
  have d: "distinct (L i l)" using slab_shapeD(4) [OF sh i, of l] by (auto simp: on_list_def dlist_def)
  have "s \<notin> set (L i m)" if "m \<noteq> l" for m using slab_shapeD(5) [OF sh i that] s by auto
  then show pg: "pages L' j = (if j = i then pages L i - {s} else pages L j)" for j
    using d s unfolding pages_def L'_def by (auto split: if_splits)
  have "(\<exists>x\<in>pages L' j. c \<in> chunks j x \<and> c \<notin> set (fl x)) \<longleftrightarrow> (\<exists>x\<in>pages L j. c \<in> chunks j x \<and> c \<notin> set (fl x))" for c j
    using all by (auto simp: pg)
  then show "heap_rep L' fl A" using rep by (simp add: heap_rep_def)
qed

lemma unat_of_small: "n \<le> 252 \<Longrightarrow> unat (of_nat n :: u64) = n"
  by (simp add: unsigned_of_nat take_bit_nat_eq_self)

lemma of_nat_eq_small: "a \<le> 252 \<Longrightarrow> b \<le> 252 \<Longrightarrow> (of_nat a :: u64) = of_nat b \<longleftrightarrow> a = b"
  using unat_of_small by metis

lemma free_list_bound:
  assumes "slab_page_ok k i s fs" "i < 8"
  shows "length fs \<le> nchunks i" "length fs = nchunks i \<longleftrightarrow> chunks i s \<subseteq> set fs"
proof -
  have hp: "heap_page s" and fs: "distinct fs" "set fs \<subseteq> chunks i s" using assms(1) by (auto simp: slab_page_ok_def)
  note c = card_chunks [OF hp assms(2)]
  have l: "length fs = card (set fs)" using distinct_card [OF fs(1)] by simp
  show "length fs \<le> nchunks i" using card_mono [of "chunks i s" "set fs"] c fs l by simp
  show "length fs = nchunks i \<longleftrightarrow> chunks i s \<subseteq> set fs"
    using card_subset_eq [of "chunks i s" "set fs"] c fs l by auto
qed

lemma give_chunk_spec:
  assumes sh: "slab_shape k L fl" and fi: "slab_fill L fl {}" and rep: "heap_rep L fl A" and i: "i < 8"
    and s: "s \<in> pages L i" "p \<in> chunks i s" "p \<notin> set (fl s)"
  defines "k' \<equiv> give_chunk i s p k"
  shows "\<exists>L'. slab_shape k' L' (fl(s := p # fl s)) \<and> slab_fill L' fl {s} \<and> heap_rep L' (fl(s := p # fl s)) (A(p := None))
    \<and> s \<in> set (L' i Partial) \<and> (\<forall>j. pages L' j = pages L j)" "machine.truncate k' = machine.truncate k"
proof -
  have ok: "slab_page_ok k i s (fl s)" "heap_page s" using pages_heap [OF sh i s(1)] by auto
  have pp: "frame_no p = frame_no s" "p \<noteq> NULL" using chunks_page [OF ok(2) i s(2)] by auto
  have d: "distinct (L i l)" for l using slab_shapeD(4) [OF sh i, of l] by (auto simp: on_list_def dlist_def)
  let ?k1 = "if fl s = [] then list_add i Partial s (list_remove i Full s k) else k"
  let ?L1 = "if fl s = [] then moved_list L i Full Partial s else L"
  have on: "s \<in> set (L i (if fl s = [] then Full else Partial))"
  proof -
    obtain l where l: "s \<in> set (L i l)" using s by (auto simp: pages_def)
    then show ?thesis using fi i slab_shapeD(3) [OF sh i] by (cases l) (auto simp: slab_fill_def)
  qed
  have k1: "slab_shape ?k1 ?L1 fl" "\<And>a. slab_core (slab_at ?k1 a) = slab_core (slab_at k a)"
      "chunk_next ?k1 = chunk_next k"
    using slab_shape_move [OF sh i, of s Full Partial] on sh by (auto split: if_splits)
  have pg1: "pages ?L1 j = pages L j" for j
    using pages_moved [of Full Partial s L i j] on d by (auto split: if_splits)
  have s1: "s \<in> set (?L1 i Partial)" using on by (auto simp: moved_list_def)
  have fi1: "slab_fill ?L1 fl {s}" using fi d by (auto simp: slab_fill_def moved_list_def)
  have rep1: "heap_rep ?L1 fl A" using rep pages_cong [of ?L1 L] pg1 by simp
  have sp1: "s \<in> pages ?L1 i" using s(1) pg1 by simp
  have len: "length (fl s) \<le> 252" using free_list_bound(1) [OF ok(1) i] nchunks_bounds [OF i] by simp
  have k': "k' = upd_slab s (\<lambda>x. x\<lparr>slab_free_list := p, slab_free_chunks := slab_free_chunks x + 1\<rparr>)
      (?k1\<lparr>chunk_next := (chunk_next ?k1)(p := slab_free_list (slab_at ?k1 s))\<rparr>)"
    using ok(1) of_nat_length_0 [OF len] by (auto simp: k'_def give_chunk_def Let_def slab_page_ok_def slab_core_def)
  show "machine.truncate k' = machine.truncate k" by (simp add: k')
  have c1: "slab_free_list (slab_at ?k1 s) = slab_free_list (slab_at k s)"
    using k1(2) [of s] unfolding slab_core_def by simp
  have ok3: "slab_page_ok k' i s (p # fl s)"
    using ok s pp(2) c1 k1(3) k1(2) [of s] unfolding slab_page_ok_def slab_core_def k' by auto
  have "slab_shape k' ?L1 (fl(s := p # fl s))"
  proof (rule slab_shape_page [OF k1(1) i])
    show "slab_page_ok k' j s (p # fl s)" if "j < 8" "s \<in> set (?L1 j m)" for j m
      using ok3 other_cache [OF k1(1) i s1 that] by simp
  qed (use pp(1) ok(2) in \<open>auto simp: k'\<close>)
  moreover have "heap_rep ?L1 (fl(s := p # fl s)) (A(p := None))" by (rule heap_rep_give [OF k1(1) rep1 i sp1 s(2)])
  ultimately show "\<exists>L'. slab_shape k' L' (fl(s := p # fl s)) \<and> slab_fill L' fl {s} \<and> heap_rep L' (fl(s := p # fl s)) (A(p := None))
    \<and> s \<in> set (L' i Partial) \<and> (\<forall>j. pages L' j = pages L j)"
    using fi1 s1 pg1 by (intro exI [of _ ?L1]) simp
qed

text \<open>The last chunk of a slab was returned: the page leaves the heap.\<close>

lemma release_page_spec:
  assumes sh: "slab_shape k L fl" and fi: "slab_fill L fl {s}" and rep: "heap_rep L fl A" and i: "i < 8"
    and s: "s \<in> set (L i Partial)" "chunks i s \<subseteq> set (fl s)" and bd: "frame_no s < npages k"
    and vm: "vm_inv k R (\<lambda>f. X f + of_bool (f \<in> insert (frame_no s) (heap_frames A)))"
  defines "k' \<equiv> pmm_free_page s (list_remove i Partial s k)"
  shows "slab_inv k' A" "vm_inv k' R (\<lambda>f. X f + of_bool (f \<in> heap_frames A))" "npages k' = npages k"
proof -
  let ?k1 = "list_remove i Partial s k" and ?L = "L(i := (L i)(Partial := remove1 s (L i Partial)))"
  have hp: "heap_page s" using slab_shapeD(6) [OF sh i s(1)] by (simp add: slab_page_ok_def)
  note dp = heap_rep_drop_page [OF sh rep i s]
  have sh1: "slab_shape ?k1 ?L fl" by (rule slab_shape_remove(1) [OF sh i s(1)])
  have d: "distinct (L i Partial)" using slab_shapeD(4) [OF sh i, of Partial] by (auto simp: on_list_def dlist_def)
  have gone: "x \<noteq> s \<and> x \<in> set (L j m)" if "j < 8" "x \<in> set (?L j m)" for j m x
    using that d other_cache [OF sh i s(1) that(1), of m] by (auto split: if_splits)
  have fi1: "slab_fill ?L fl {}" using fi gone unfolding slab_fill_def by blast
  show "slab_inv k' A"
    using sh1 fi1 dp(1) slab_inv_rest [OF rest_pmm(2), of s ?k1 A] unfolding k'_def slab_inv_def by blast
  have nf: "frame_no s \<notin> heap_frames A"
    using heap_rep_frames [OF sh1 fi1 dp(1)] gone pages_heap [OF sh1] hp unfolding heap_page_def pages_def
    by (metis UN_E)
  let ?X = "\<lambda>f. X f + of_bool (f \<in> insert (frame_no s) (heap_frames A))"
  have same: "vm_inv ?k1 R ?X" "npages ?k1 = npages k" using vm machine_same(3,4) [OF truncate_lists(1), of i Partial s k] by auto
  have "vm_inv k' R (?X(frame_no s := ?X (frame_no s) - 1))"
    unfolding k'_def by (rule vm_inv_free [OF same(1)]) (use hp bd same(2) in \<open>simp_all add: heap_page_def\<close>)
  moreover have "?X(frame_no s := ?X (frame_no s) - 1) = (\<lambda>f. X f + of_bool (f \<in> heap_frames A))"
    using nf by (auto simp: fun_eq_iff)
  ultimately show "vm_inv k' R (\<lambda>f. X f + of_bool (f \<in> heap_frames A))" by simp
  show "npages k' = npages k" using same(2) by (simp add: k'_def frame_simps)
qed

lemma kfree_spec:
  assumes inv: "kheap_inv k R X A" and p: "A p = Some i"
  shows "kheap_inv (kfree p k) R X (A(p := None))"
proof -
  let ?X = "\<lambda>A f. X f + of_bool (f \<in> heap_frames A)"
  obtain L fl where sh: "slab_shape k L fl" and fi: "slab_fill L fl {}" and rep: "heap_rep L fl A"
      and vm: "vm_inv k R (?X A)" and bd: "heap_frames A \<subseteq> {..<npages k}"
    using inv by (auto simp: kheap_inv_def slab_inv_def)
  obtain s where i: "i < 8" and s: "s \<in> pages L i" "p \<in> chunks i s" "p \<notin> set (fl s)"
    using rep p by (auto simp: heap_rep_def)
  have ok: "slab_page_ok k i s (fl s)" "heap_page s" using pages_heap [OF sh i s(1)] by auto
  have pp: "p AND NOT 0xFFF = s" "frame_no p = frame_no s" "p \<noteq> NULL" using chunks_page [OF ok(2) i s(2)] by auto
  let ?k1 = "give_chunk i s p k" and ?fl = "fl(s := p # fl s)"
  obtain L1 where L1: "slab_shape ?k1 L1 ?fl" "slab_fill L1 fl {s}" "heap_rep L1 ?fl (A(p := None))" "s \<in> set (L1 i Partial)"
    using give_chunk_spec(1) [OF sh fi rep i s] by blast
  note tr = give_chunk_spec(2) [OF sh fi rep i s]
  have ok1: "slab_page_ok ?k1 i s (p # fl s)" using slab_shapeD(6) [OF L1(1) i L1(4)] by simp
  note b = free_list_bound [OF ok1 i]
  have fin: "slab_free_chunks (slab_at ?k1 s) = slab_total_chunks (slab_at ?k1 s) \<longleftrightarrow> length (p # fl s) = nchunks i"
    using ok1 of_nat_eq_small [of "length (p # fl s)" "nchunks i"] nchunks_bounds [OF i] b(1)
    unfolding slab_page_ok_def slab_core_def by simp
  have kf: "kfree p k = (if length (p # fl s) = nchunks i then pmm_free_page s (list_remove i Partial s ?k1) else ?k1)"
    using pp(1,3) fin ok(1) unfolding kfree_def Let_def slab_page_ok_def slab_core_def by simp
  have frp: "insert (frame_no s) (heap_frames (A(p := None))) = heap_frames A"
  proof -
    have "dom A = insert p (dom (A(p := None)))" using p by auto
    then show ?thesis unfolding heap_frames_def using pp(2) by (metis image_insert)
  qed
  have vm1: "vm_inv ?k1 R (?X A)" "npages ?k1 = npages k" using vm machine_same(3,4) [OF tr] by auto
  show ?thesis
  proof (cases "length (p # fl s) = nchunks i")
    case True
    have "slab_fill L1 ?fl {s}" using L1(2) by (auto simp: slab_fill_def)
    note r = release_page_spec [OF L1(1) this L1(3) i L1(4), of R X, unfolded frp vm1(2)]
    have bs: "frame_no s < npages k" "heap_frames (A(p := None)) \<subseteq> {..<npages k}" using frp bd by auto
    have all: "chunks i s \<subseteq> set (?fl s)" using b(2) True by simp
    show ?thesis using r [OF all bs(1) vm1(1)] kf True bs by (simp add: kheap_inv_def)
  next
    case False
    then have fi1: "slab_fill L1 ?fl {}"
      using slab_fill_page [of ?k1 L1 ?fl s i "p # fl s"] L1 i b(1) by (auto simp: slab_fill_def)
    then have "slab_inv ?k1 (A(p := None))" using L1 unfolding slab_inv_def by blast
    moreover have "frame_no s \<in> heap_frames (A(p := None))"
      using heap_rep_frames [OF L1(1) fi1 L1(3)] L1(4) i by (auto simp: pages_def)
    then have "heap_frames (A(p := None)) = heap_frames A" using frp by (simp add: insert_absorb)
    ultimately show ?thesis using kf False vm1 bd by (simp add: kheap_inv_def)
  qed
qed

section \<open>What the heap leaves alone\<close>

text \<open>Only the allocator's own state and the pages it takes change; the rest of the kernel state stays.\<close>

lemma more_kheap_upd [simp]:
  "kheap.more (upd_slab s f k) = kheap.more k" "kheap.more (set_cache_head i l h k) = kheap.more k"
  by (simp_all add: upd_slab_def set_cache_head_def)

lemma more_kheap_lists [simp]:
  "kheap.more (list_remove i l s k) = kheap.more k" "kheap.more (list_add i l s k) = kheap.more k"
  by (simp_all add: list_remove_def list_add_def Let_def)

lemma kheap_more_rest: "machine.more k' = machine.more k \<Longrightarrow> kheap.more k' = kheap.more k"
proof -
  assume a: "machine.more k' = machine.more k"
  have r: "kheap.more k = kheap.more (machine.extend m (machine.more k))" for m and k :: "'a kheap_scheme"
    by (cases k) (simp add: machine.extend_def)
  show ?thesis using r [of k' undefined] r [of k undefined] a by metis
qed

lemma more_carve [simp]: "kheap.more (carve n s obj e c k) = kheap.more k"
  using carve_upd [of n s obj e c k] by auto

lemma more_pmm [simp]: "kheap.more (pmm_free_page a k) = kheap.more k" "kheap.more (zero_page a k) = kheap.more k"
    "pmm_alloc_page k = (a, k') \<Longrightarrow> kheap.more k' = kheap.more k"
  by (rule kheap_more_rest; simp)+

lemma more_allocate [simp]: "allocate_new_slab i k = (s, k') \<Longrightarrow> kheap.more k' = kheap.more k"
  by (auto simp: allocate_new_slab_def Let_def split: prod.splits if_splits)

lemma more_target [simp]: "target_slab i k = (s, k') \<Longrightarrow> kheap.more k' = kheap.more k"
  by (auto simp: target_slab_def Let_def split: prod.splits if_splits)

lemma more_take [simp]: "take_chunk i s k = (c, k') \<Longrightarrow> kheap.more k' = kheap.more k"
  by (auto simp: take_chunk_def Let_def split: if_splits)

lemma more_kmalloc [simp]: "kmalloc sz k = (p, k') \<Longrightarrow> kheap.more k' = kheap.more k"
  by (auto simp: kmalloc_def split: prod.splits if_splits option.splits simp del: upt_rec_numeral)

lemma more_kfree [simp]: "kheap.more (kfree p k) = kheap.more k"
  by (simp add: kfree_def give_chunk_def Let_def)

lemma kfree_mem [frame_simps]: "phys_mem (kfree p k) = phys_mem k" "kernel_pml4 (kfree p k) = kernel_pml4 k"
    "npages (kfree p k) = npages k"
proof -
  have t: "machine.truncate (give_chunk i s p k) = machine.truncate k" for i s
    by (simp add: give_chunk_def Let_def)
  note s = machine_same [OF t] machine_same [OF truncate_lists(1)]
  show "phys_mem (kfree p k) = phys_mem k" "kernel_pml4 (kfree p k) = kernel_pml4 k" "npages (kfree p k) = npages k"
    by (simp_all add: kfree_def Let_def frame_simps s)
qed

lemma truncate_take: "take_chunk i s k = (c, k') \<Longrightarrow> machine.truncate k' = machine.truncate k"
  by (auto simp: take_chunk_def Let_def split: if_splits)

lemma kmalloc_mem:
  assumes "kmalloc sz k = (p, k')"
  shows "kernel_pml4 k' = kernel_pml4 k" "npages k' = npages k"
proof -
  have a: "kernel_pml4 k1 = kernel_pml4 k" "npages k1 = npages k" if "pmm_alloc_page k = (a, k1)" for a k1
    using pmm_ops_mem(2) [of k] npages_ops(2) [of k] that by simp_all
  have z: "kernel_pml4 (zero_page a k) = kernel_pml4 k" for a and k :: "'a kheap_scheme" by (simp add: zero_page_def)
  have n: "kernel_pml4 k1 = kernel_pml4 k" "npages k1 = npages k" if r: "allocate_new_slab i k = (s, k1)" for i s k1
  proof -
    obtain pg k0 where al: "pmm_alloc_page k = (pg, k0)" by (cases "pmm_alloc_page k")
    have "machine.truncate k1 = machine.truncate (if pg = NULL then k0 else zero_page pg k0)"
      using r al by (auto simp: allocate_new_slab_def Let_def split: if_splits)
    from machine_same [OF this] show "kernel_pml4 k1 = kernel_pml4 k" "npages k1 = npages k"
      using a [OF al] by (auto simp: z frame_simps split: if_splits)
  qed
  have t: "kernel_pml4 k1 = kernel_pml4 k" "npages k1 = npages k" if r: "target_slab i k = (s, k1)" for i s k1
  proof -
    have "machine.truncate k1 = machine.truncate k \<or> (\<exists>s k2. allocate_new_slab i k = (s, k2)
        \<and> machine.truncate k1 = machine.truncate k2)"
      using r by (auto simp: target_slab_def Let_def split: if_splits prod.splits)
    then show "kernel_pml4 k1 = kernel_pml4 k" "npages k1 = npages k"
      using n machine_same(2,4) by metis+
  qed
  have "k' = k \<or> (\<exists>i s k1. target_slab i k = (s, k1) \<and> (k' = k1 \<or> take_chunk i s k1 = (p, k')))"
    using assms by (auto simp: kmalloc_def split: if_splits prod.splits option.splits simp del: upt_rec_numeral)
  then have "k' = k \<or> (\<exists>i s k1. target_slab i k = (s, k1) \<and> machine.truncate k' = machine.truncate k1)"
    using truncate_take by metis
  then show "kernel_pml4 k' = kernel_pml4 k" "npages k' = npages k" using t machine_same(2,4) by metis+
qed

section \<open>Start of the heap\<close>

lemma init_slab_spec:
  assumes "vm_inv k R X"
  shows "kheap_inv (init_slab k) R X Map.empty"
proof -
  let ?k = "init_slab k" and ?L = "(\<lambda>_ _. []) :: slab_lists"
  have c: "length (kmalloc_caches ?k) = 8"
    "\<And>i. i < 8 \<Longrightarrow> kmalloc_caches ?k ! i = EMPTY_CACHE\<lparr>object_size := CACHE_SIZES ! i\<rparr>"
    by (simp_all add: init_slab_def del: upt_rec_numeral)
  have "cache_head i l ?k = NULL" if "i < 8" for i l
    using c(2) [OF that] by (cases l) (simp_all add: cache_head_def EMPTY_CACHE_def)
  then have "slab_shape ?k ?L (\<lambda>_. [])"
    unfolding slab_shape_def using c by (auto simp: on_list_def)
  moreover have "heap_rep ?L (\<lambda>_. []) Map.empty" by (simp add: heap_rep_def pages_def)
  moreover have "slab_fill ?L (\<lambda>_. []) {}" by (simp add: slab_fill_def)
  ultimately have "slab_inv ?k Map.empty" unfolding slab_inv_def by blast
  moreover have "machine.truncate ?k = machine.truncate k" by (simp add: init_slab_def machine.truncate_def)
  then have "vm_inv ?k R X" using assms machine_same(3) by blast
  ultimately show ?thesis by (simp add: kheap_inv_def heap_frames_def)
qed

section \<open>The heap as an interface\<close>

text \<open>
  What the users of \<^verbatim>\<open>kmalloc\<close> and \<^verbatim>\<open>kfree\<close> rely on: an allocation is a block nobody holds, or fails and
  changes nothing; a block that is given back is the only one that is released.
\<close>

locale object_heap =
  fixes malloc :: "u64 \<Rightarrow> 's \<Rightarrow> addr \<times> 's"
    and free :: "addr \<Rightarrow> 's \<Rightarrow> 's"
    and heap :: "'s \<Rightarrow> (addr \<rightharpoonup> nat) \<Rightarrow> bool"
  assumes malloc_null: "heap s A \<Longrightarrow> malloc n s = (NULL, t) \<Longrightarrow> t = s"
    and malloc_block: "heap s A \<Longrightarrow> malloc n s = (p, t) \<Longrightarrow> p \<noteq> NULL \<Longrightarrow>
      A p = None \<and> (\<exists>i. heap t (A(p \<mapsto> i)))"
    and free_block: "heap s A \<Longrightarrow> p \<in> dom A \<Longrightarrow> heap (free p s) (A(p := None))"
begin

lemma malloc_free_undo:
  assumes "heap s A" "malloc n s = (p, t)" "p \<noteq> NULL"
  shows "heap (free p t) A"
proof -
  obtain i where i: "A p = None" "heap t (A(p \<mapsto> i))" using malloc_block [OF assms] by blast
  have "heap (free p t) ((A(p \<mapsto> i))(p := None))" by (rule free_block [OF i(2)]) simp
  moreover have "(A(p \<mapsto> i))(p := None) = A" using i(1) by auto
  ultimately show ?thesis by simp
qed

lemma malloc_twice_distinct:
  assumes "heap s A" "malloc n s = (p, t)" "p \<noteq> NULL" "malloc m t = (q, u)" "q \<noteq> NULL"
  shows "q \<noteq> p"
  using malloc_block [OF assms(1-3)] malloc_block [OF _ assms(4,5)] by fastforce

lemma malloc_not_live: "heap s A \<Longrightarrow> malloc n s = (p, t) \<Longrightarrow> p \<noteq> NULL \<Longrightarrow> p \<notin> dom A"
  using malloc_block by (simp add: domIff)

end

interpretation slab_heap: object_heap kmalloc kfree "\<lambda>k. kheap_inv k R X" for R X
proof
  fix k t :: "'a kheap_scheme" and A n p
  show "kheap_inv k R X A \<Longrightarrow> kmalloc n k = (NULL, t) \<Longrightarrow> t = k" using kmalloc_spec(1) by blast
  show "kheap_inv k R X A \<Longrightarrow> kmalloc n k = (p, t) \<Longrightarrow> p \<noteq> NULL \<Longrightarrow>
      A p = None \<and> (\<exists>i. kheap_inv t R X (A(p \<mapsto> i)))" using kmalloc_spec(2) by blast
  show "kheap_inv k R X A \<Longrightarrow> p \<in> dom A \<Longrightarrow> kheap_inv (kfree p k) R X (A(p := None))"
    using kfree_spec by blast
qed

section \<open>Live blocks do not overlap\<close>

definition block :: "(addr \<rightharpoonup> nat) \<Rightarrow> addr \<Rightarrow> nat set" where
  "block A p = (case A p of None \<Rightarrow> {} | Some i \<Rightarrow> {unat p..<unat p + csize i})"

lemma block_in_page:
  assumes "slab_shape k L fl" "heap_rep L fl A" "A p = Some i"
  obtains s j where "i < 8" "heap_page s" "s \<in> pages L i" "j < nchunks i" "p = chunk i s j"
    "block A p = {unat s + 64 + j * csize i..<unat s + 64 + Suc j * csize i}"
    "block A p \<subseteq> {unat s + 64..<unat s + page_bytes}"
proof -
  obtain s where i: "i < 8" and s: "s \<in> pages L i" "p \<in> chunks i s"
    using assms(2,3) by (auto simp: heap_rep_def)
  then obtain j where j: "j < nchunks i" "p = chunk i s j" by (auto simp: chunks_def)
  have hp: "heap_page s" using pages_heap [OF assms(1) i s(1)] by simp
  have b: "block A p = {unat s + 64 + j * csize i..<unat s + 64 + Suc j * csize i}"
    using assms(3) chunk_facts(4) [OF hp i j(1)] j(2) by (simp add: block_def algebra_simps)
  moreover have "block A p \<subseteq> {unat s + 64..<unat s + page_bytes}"
    unfolding b using chunk_fits [OF i j(1)] by auto
  ultimately show ?thesis using that i hp s(1) j by blast
qed

lemma blocks_disjoint:
  assumes "slab_inv k A" "p \<noteq> q"
  shows "block A p \<inter> block A q = {}"
proof (cases "A p = None \<or> A q = None")
  case True
  then show ?thesis by (auto simp: block_def)
next
  case False
  then obtain i i' where A: "A p = Some i" "A q = Some i'" by auto
  obtain L fl where L: "slab_shape k L fl" "heap_rep L fl A" using assms(1) by (auto simp: slab_inv_def)
  obtain s j where p: "i < 8" "heap_page s" "s \<in> pages L i" "j < nchunks i" "p = chunk i s j"
      "block A p = {unat s + 64 + j * csize i..<unat s + 64 + Suc j * csize i}"
      "block A p \<subseteq> {unat s + 64..<unat s + page_bytes}"
    by (rule block_in_page [OF L A(1)])
  obtain s' j' where q: "i' < 8" "heap_page s'" "s' \<in> pages L i'" "j' < nchunks i'" "q = chunk i' s' j'"
      "block A q = {unat s' + 64 + j' * csize i'..<unat s' + 64 + Suc j' * csize i'}"
      "block A q \<subseteq> {unat s' + 64..<unat s' + page_bytes}"
    by (rule block_in_page [OF L A(2)])
  show ?thesis
  proof (cases "s' = s")
    case True
    then have e: "i' = i" using pages_class [OF L(1) p(1) q(1) p(3)] q(3) by simp
    then have "j \<noteq> j'" using assms(2) True p(5) q(5) by auto
    then consider "Suc j \<le> j'" | "Suc j' \<le> j" by linarith
    then have "Suc j * csize i \<le> j' * csize i \<or> Suc j' * csize i \<le> j * csize i"
      by cases (blast intro: mult_le_mono1)+
    then show ?thesis unfolding p(6) q(6) True e by auto
  next
    case False
    then have "frame_no s \<noteq> frame_no s'" using p(2) q(2) by (auto simp: heap_page_def)
    then consider "Suc (frame_no s) \<le> frame_no s'" | "Suc (frame_no s') \<le> frame_no s" by linarith
    then have "unat s + page_bytes \<le> unat s' \<or> unat s' + page_bytes \<le> unat s"
      unfolding unat_heap_page [OF p(2)] unat_heap_page [OF q(2)] by cases linarith+
    then show ?thesis using p(7) q(7) by fastforce
  qed
qed

end
