(* ===== verification/Slab_Props.thy ===== *)
theory Slab_Props
  imports Slab
begin

text \<open>
  The properties of the kernel heap: what \<^verbatim>\<open>kmalloc\<close> and \<^verbatim>\<open>kfree\<close> do to the set of allocated chunks and to
  the memory accounting, that live blocks never overlap, and what a second \<^verbatim>\<open>kfree\<close> of one pointer does.
\<close>

section \<open>A small heap\<close>

text \<open>Eight frames, page 0 reserved, an empty heap.\<close>

definition heap0 :: kheap where
  "heap0 = init_slab \<lparr>hhdm_offset = 0xFFFF800000000000, bitmap = [0x01], highest_address = 0x8000,
      bitmap_index = 0, refcounts = [1, 0, 0, 0, 0, 0, 0, 0], phys_mem = (\<lambda>_ _. 0),
      kernel_pml4 = 0x20000, msr_pat = 0,
      slab_at = (\<lambda>_. \<lparr>slab_magic = 0, slab_next = NULL, slab_prev = NULL, slab_cache_ix = 0,
        slab_free_list = NULL, slab_free_chunks = 0, slab_total_chunks = 0\<rparr>),
      chunk_next = (\<lambda>_. NULL), kmalloc_caches = replicate 8 EMPTY_CACHE\<rparr>"

lemma carve_unfold: "0 < n \<Longrightarrow> carve n s obj e c k =
    (if c + obj \<le> e then
       carve (n - 1) s obj e (c + obj) (upd_slab s (\<lambda>x. x\<lparr>slab_free_list := c, slab_free_chunks := slab_free_chunks x + 1\<rparr>)
         (k\<lparr>chunk_next := (chunk_next k)(c := slab_free_list (slab_at k s))\<rparr>))
     else k)"
  by (cases n) (simp_all add: Let_def)

lemma upt_8: "[0..<8] = [0, 1, 2, 3, 4, 5, 6, 7::nat]"
  by (simp add: upt_rec)

lemmas eval_heap = kmalloc_def kfree_def take_chunk_def give_chunk_def target_slab_def allocate_new_slab_def
  list_add_def list_remove_def cache_head_def set_cache_head_def upd_slab_def carve_unfold carve_rounds_def
  CACHE_SIZES_def EMPTY_CACHE_def init_slab_def upt_8 pmm_alloc_page_def npages_def bitmap_test_def
  bitmap_byte_def pmm_take_def Let_def bitmap_set_def bitmap_put_def frame_addr_def frame_no_def zero_page_def

lemma heap0_fields: "npages heap0 = 8" "bitmap heap0 = [0x01]" "refcounts heap0 = [1, 0, 0, 0, 0, 0, 0, 0]"
    "bitmap_index heap0 = 0"
  by (simp_all add: heap0_def init_slab_def npages_def)

lemma heap0_bitmap: "f < 8 \<Longrightarrow> bitmap_test heap0 f \<longleftrightarrow> f = 0"
  by (simp add: bitmap_test_bit bitmap_byte_def heap0_fields bit_1_iff)

lemma heap0_ok: "pmm_ok heap0"
proof -
  have "refcounts heap0 ! i = 0" if "i < 8" "i \<noteq> 0" for i
    using that by (simp add: heap0_fields nth_Cons')
  then show ?thesis using heap0_bitmap
    by (simp add: pmm_ok_def pmm_wf_def page0_reserved_def heap0_fields)
qed

lemma heap0_inv: "kheap_inv heap0 {} (owners_of heap0) Map.empty"
proof -
  have "vm_inv heap0 {} (owners_of heap0)"
    by (rule vm_invI) (simp_all add: heap0_ok heap0_fields refs_def)
  then have "kheap_inv (init_slab heap0) {} (owners_of heap0) Map.empty" by (rule init_slab_spec)
  moreover have "init_slab heap0 = heap0" by (simp add: heap0_def init_slab_def)
  ultimately show ?thesis by simp
qed

text \<open>
  The states of the small heap once its first page is a slab of 1024-byte chunks: the head of the free list,
  the number of free chunks, the links, and the heads of the partial and the full list.
\<close>

definition heap_st :: "addr \<Rightarrow> u64 \<Rightarrow> (addr \<Rightarrow> addr) \<Rightarrow> addr \<Rightarrow> addr \<Rightarrow> kheap" where
  "heap_st h n cn pt fu = heap0\<lparr>bitmap := [3], bitmap_index := 1, refcounts := [1, 1, 0, 0, 0, 0, 0, 0],
     slab_at := (slab_at heap0)(0x1000 := \<lparr>slab_magic = SLAB_MAGIC, slab_next = NULL, slab_prev = NULL,
       slab_cache_ix = 6, slab_free_list = h, slab_free_chunks = n, slab_total_chunks = 3\<rparr>),
     chunk_next := cn,
     kmalloc_caches := (kmalloc_caches heap0)[6 := \<lparr>object_size = 1024, slabs_partial = pt, slabs_free = NULL, slabs_full = fu\<rparr>]\<rparr>"

definition links0 :: "addr \<Rightarrow> addr" where
  "links0 = (\<lambda>_. NULL)(0x1440 := 0x1040, 0x1840 := 0x1440)"

lemma heap0_step: "kmalloc 1000 heap0 = (0x1840, heap_st 0x1440 2 links0 0x1000 NULL)"
  by (simp add: eval_heap heap0_def heap_st_def links0_def fun_eq_iff)

section \<open>Properties\<close>

text \<open>
  C13: \<^verbatim>\<open>kmalloc\<close> returns null exactly when it cannot serve the request (a size of 0 or above 2048, or no
  free page where one is needed) and then changes nothing; otherwise it returns a chunk that is not allocated,
  of the smallest size class that holds the request, and this chunk is the only one that becomes allocated. The
  memory accounting stays exact: the heap holds one reference to each page that has an allocated chunk.
\<close>

theorem kmalloc_correct:
  assumes "kheap_inv k R X A"
  shows "case kmalloc sz k of (p, k') \<Rightarrow>
    if p = NULL then k' = k \<and> (sz = 0 \<or> sz > 2048 \<or> (\<forall>f<npages k. frame_state k f \<noteq> None))
    else A p = None \<and> (\<exists>i<8. unat sz \<le> csize i \<and> (0 < i \<longrightarrow> csize (i - 1) < unat sz)
           \<and> kheap_inv k' R X (A(p \<mapsto> i)))"
proof -
  obtain p k' where r: "kmalloc sz k = (p, k')" by (cases "kmalloc sz k")
  show ?thesis
  proof (cases "p = NULL")
    case True
    then show ?thesis using kmalloc_spec(1) [OF assms r] class_of_size_None [of sz] r by auto
  next
    case False
    then obtain i where "class_of_size sz = Some i" "A p = None" "kheap_inv k' R X (A(p \<mapsto> i))"
      using kmalloc_spec(2) [OF assms r] by blast
    then show ?thesis using class_of_size_Some [of sz i] r False by auto
  qed
qed

theorem kmalloc_correct_witness:
  "fst (kmalloc 1000 heap0) = 0x1840 \<and>
   (\<exists>i<8. 1000 \<le> csize i \<and> kheap_inv (snd (kmalloc 1000 heap0)) {} (owners_of heap0) [0x1840 \<mapsto> i])"
  using kmalloc_correct [OF heap0_inv, of 1000] by (simp add: heap0_step) blast

text \<open>
  C14: Freeing what \<^verbatim>\<open>kmalloc\<close> returned takes exactly that chunk back and gives every page frame the number
  of owners it had before: allocating and freeing neither leaks a page nor releases one that is in use.
\<close>

theorem kmalloc_kfree_restores:
  assumes "kheap_inv k R X A" "fst (kmalloc sz k) \<noteq> NULL"
  shows "case kmalloc sz k of (p, k') \<Rightarrow>
    kheap_inv (kfree p k') R X A \<and> (\<forall>f<npages k. owners_of (kfree p k') f = owners_of k f)"
proof -
  obtain p k' where r: "kmalloc sz k = (p, k')" by (cases "kmalloc sz k")
  have p: "p \<noteq> NULL" using assms(2) r by simp
  have inv: "kheap_inv (kfree p k') R X A" by (rule slab_heap.malloc_free_undo [OF assms(1) r p])
  have "same_spaces R k (kfree p k')"
    using kmalloc_spec(3) [OF assms(1) r] same_spaces_mem [OF kfree_mem(1)] same_spaces_trans by blast
  then have "owners_of (kfree p k') f = owners_of k f" if "f < npages k" for f
    using same_owners [of k R _ "kfree p k'" f] assms(1) inv same_spacesD(4) that kmalloc_mem(2) [OF r]
    by (auto simp: kheap_inv_def kfree_mem(3))
  then show ?thesis using inv r by simp
qed

theorem kmalloc_kfree_restores_witness:
  "owners_of (kfree 0x1840 (snd (kmalloc 1000 heap0))) 1 = owners_of heap0 1"
  using kmalloc_kfree_restores [OF heap0_inv, of 1000] by (simp add: heap0_step heap0_fields(1))

text \<open>
  A client of the heap: it allocates and frees as it likes, as long as it frees only what it holds. \<open>L\<close> are the pointers
  it holds, with the number of bytes it asked for.
\<close>

inductive heap_use :: "'a kheap_scheme \<times> (addr \<rightharpoonup> u64) \<Rightarrow> 'a kheap_scheme \<times> (addr \<rightharpoonup> u64) \<Rightarrow> bool" where
  use_alloc: "kmalloc sz k = (p, k') \<Longrightarrow> p \<noteq> NULL \<Longrightarrow> heap_use (k, L) (k', L(p \<mapsto> sz))"
| use_fail: "kmalloc sz k = (NULL, k') \<Longrightarrow> heap_use (k, L) (k', L)"
| use_free: "p \<in> dom L \<Longrightarrow> heap_use (k, L) (kfree p k, L(p := None))"

text \<open>What the client holds is allocated, with room for the request; what others hold (\<open>A\<close>) stays allocated.\<close>

definition use_ok :: "addr set \<Rightarrow> (nat \<Rightarrow> nat) \<Rightarrow> (addr \<rightharpoonup> nat) \<Rightarrow> 'a kheap_scheme \<times> (addr \<rightharpoonup> u64) \<Rightarrow> bool" where
  "use_ok R X A s \<longleftrightarrow> (\<exists>B. kheap_inv (fst s) R X B \<and> A \<subseteq>\<^sub>m B \<and> dom (snd s) \<inter> dom A = {} \<and>
     (\<forall>p n. snd s p = Some n \<longrightarrow> (\<exists>i. B p = Some i \<and> unat n \<le> csize i)))"

lemma heap_use_ok: "heap_use s s' \<Longrightarrow> use_ok R X A s \<Longrightarrow> use_ok R X A s'"
proof (induction rule: heap_use.induct)
  case (use_alloc sz k p k' L)
  obtain B where B: "kheap_inv k R X B" "A \<subseteq>\<^sub>m B" "dom L \<inter> dom A = {}" "\<forall>p n. L p = Some n \<longrightarrow> (\<exists>i. B p = Some i \<and> unat n \<le> csize i)"
    using use_alloc.prems by (auto simp: use_ok_def)
  obtain i where i: "class_of_size sz = Some i" "B p = None" "kheap_inv k' R X (B(p \<mapsto> i))"
    using kmalloc_spec(2) [OF B(1) use_alloc.hyps] by blast
  have "A p = None" using B(2) i(2) by (cases "A p") (auto simp: map_le_def dom_def)
  then have "A \<subseteq>\<^sub>m B(p \<mapsto> i)" "dom (L(p \<mapsto> sz)) \<inter> dom A = {}" using B(2,3) by (auto simp: map_le_def)
  moreover have "\<forall>q n. (L(p \<mapsto> sz)) q = Some n \<longrightarrow> (\<exists>j. (B(p \<mapsto> i)) q = Some j \<and> unat n \<le> csize j)"
    using B(4) class_of_size_Some(2) [OF i(1)] by auto
  ultimately show ?case using i(3) unfolding use_ok_def by (intro exI [of _ "B(p \<mapsto> i)"]) simp
next
  case (use_fail sz k k' L)
  then show ?case using kmalloc_spec(1) [OF _ use_fail.hyps] by (auto simp: use_ok_def)
next
  case (use_free p L k)
  obtain B where B: "kheap_inv k R X B" "A \<subseteq>\<^sub>m B" "dom L \<inter> dom A = {}" "\<forall>p n. L p = Some n \<longrightarrow> (\<exists>i. B p = Some i \<and> unat n \<le> csize i)"
    using use_free.prems by (auto simp: use_ok_def)
  have p: "p \<in> dom B" "p \<notin> dom A" using use_free.hyps B(3,4) by blast+
  have "kheap_inv (kfree p k) R X (B(p := None))" by (rule slab_heap.free_block [OF B(1) p(1)])
  moreover have "A \<subseteq>\<^sub>m B(p := None)" using B(2) p(2) by (auto simp: map_le_def)
  ultimately show ?case using B(3,4) unfolding use_ok_def by (intro exI [of _ "B(p := None)"]) auto
qed

lemma heap_uses_ok: "heap_use\<^sup>*\<^sup>* s s' \<Longrightarrow> use_ok R X A s \<Longrightarrow> use_ok R X A s'"
  by (induction rule: rtranclp_induct) (auto dest: heap_use_ok)

lemma block_place:
  assumes "kheap_inv k R X A" and a: "A p = Some i"
  shows "frame_no p < npages k" "block A p \<subseteq> {frame_no p * page_bytes + 64..<Suc (frame_no p) * page_bytes}"
proof -
  obtain L fl where L: "slab_shape k L fl" "heap_rep L fl A" using assms by (auto simp: kheap_inv_def slab_inv_def)
  obtain s j where s: "i < 8" "heap_page s" "s \<in> pages L i" "j < nchunks i" "p = chunk i s j"
      "block A p = {unat s + 64 + j * csize i..<unat s + 64 + Suc j * csize i}"
      "block A p \<subseteq> {unat s + 64..<unat s + page_bytes}"
    by (rule block_in_page [OF L a])
  have fs: "frame_no p = frame_no s" using chunk_facts(1) [OF s(2,1,4)] s(5) by simp
  show "block A p \<subseteq> {frame_no p * page_bytes + 64..<Suc (frame_no p) * page_bytes}"
    using s(7) unfolding fs unat_heap_page [OF s(2)] by auto
  have "frame_no p \<in> heap_frames A" using a by (auto simp: heap_frames_def)
  then show "frame_no p < npages k" using assms(1) by (auto simp: kheap_inv_def)
qed

text \<open>The bytes a client may use behind a pointer.\<close>

definition asked :: "(addr \<rightharpoonup> u64) \<Rightarrow> addr \<Rightarrow> nat set" where
  "asked L p = (case L p of None \<Rightarrow> {} | Some n \<Rightarrow> {unat p..<unat p + unat n})"

text \<open>
  C15: Whatever sequence of \<^verbatim>\<open>kmalloc\<close> and \<^verbatim>\<open>kfree\<close> calls a client makes, as long as it frees only pointers it holds: the bytes
  it asked for behind any two of its pointers are disjoint, they are disjoint from every chunk others had allocated
  before, and they lie inside one page of physical memory, behind the slab header.
\<close>

theorem kmalloc_blocks_disjoint:
  assumes inv: "kheap_inv k R X A" and run: "heap_use\<^sup>*\<^sup>* (k, Map.empty) (k', L)"
  shows "(\<forall>p q. p \<noteq> q \<longrightarrow> asked L p \<inter> asked L q = {}) \<and> (\<forall>p q. asked L p \<inter> block A q = {}) \<and>
    (\<forall>p \<in> dom L. frame_no p < npages k' \<and> asked L p \<subseteq> {frame_no p * page_bytes + 64..<Suc (frame_no p) * page_bytes})"
proof -
  have "use_ok R X A (k, Map.empty)" using inv by (auto simp: use_ok_def)
  then obtain B where B: "kheap_inv k' R X B" "A \<subseteq>\<^sub>m B" "dom L \<inter> dom A = {}"
      "\<And>p n. L p = Some n \<Longrightarrow> \<exists>i. B p = Some i \<and> unat n \<le> csize i"
    using heap_uses_ok [OF run, of R X A] unfolding use_ok_def fst_conv snd_conv by blast
  have si: "slab_inv k' B" using B(1) by (simp add: kheap_inv_def)
  have sub: "asked L p \<subseteq> block B p" for p
    using B(4) [of p] by (cases "L p") (fastforce simp: asked_def block_def)+
  have subA: "block A q \<subseteq> block B q" for q
    using B(2) by (cases "A q") (auto simp: block_def map_le_def dest: bspec [of _ _ q])
  have "asked L p \<inter> asked L q = {}" if "p \<noteq> q" for p q using blocks_disjoint [OF si that] sub by blast
  moreover have "asked L p \<inter> block A q = {}" for p q
  proof (cases "p = q")
    case True
    then show ?thesis using B(3) by (cases "L q"; cases "A q") (auto simp: asked_def block_def)
  next
    case False
    then show ?thesis using blocks_disjoint [OF si False] sub [of p] subA [of q] by blast
  qed
  moreover have "frame_no p < npages k' \<and> asked L p \<subseteq> {frame_no p * page_bytes + 64..<Suc (frame_no p) * page_bytes}"
    if "p \<in> dom L" for p using that B(4) [of p] block_place [OF B(1), of p] sub [of p] by blast
  ultimately show ?thesis by blast
qed

lemma heap_step1:
  "kmalloc 1000 (heap_st 0x1440 2 links0 0x1000 NULL) = (0x1440, heap_st 0x1040 1 links0 0x1000 NULL)"
  by (simp add: eval_heap heap0_def heap_st_def links0_def)

theorem kmalloc_blocks_disjoint_witness:
  "\<exists>k'. heap_use\<^sup>*\<^sup>* (heap0, Map.empty) (k', [0x1840 \<mapsto> 1000, 0x1440 \<mapsto> 1000]) \<and>
     {0x1840..<0x1840 + 1000} \<inter> {0x1440..<0x1440 + 1000 :: nat} = {} \<and> frame_no 0x1440 < npages k'"
proof -
  let ?k = "heap_st 0x1040 1 links0 0x1000 NULL"
  have "heap_use (heap0, Map.empty) (heap_st 0x1440 2 links0 0x1000 NULL, [0x1840 \<mapsto> 1000])"
    by (rule use_alloc [OF heap0_step]) simp
  moreover have "heap_use (heap_st 0x1440 2 links0 0x1000 NULL, [0x1840 \<mapsto> 1000]) (?k, [0x1840 \<mapsto> 1000, 0x1440 \<mapsto> 1000])"
    by (rule use_alloc [OF heap_step1]) simp
  ultimately have run: "heap_use\<^sup>*\<^sup>* (heap0, Map.empty) (?k, [0x1840 \<mapsto> 1000, 0x1440 \<mapsto> 1000])" by simp
  have d: "asked [0x1840 \<mapsto> 1000, 0x1440 \<mapsto> 1000] 0x1840 \<inter> asked [0x1840 \<mapsto> 1000, 0x1440 \<mapsto> 1000] 0x1440 = {}"
    and f: "frame_no 0x1440 < npages ?k"
    using kmalloc_blocks_disjoint [OF heap0_inv run] by auto
  then show ?thesis using run d f by (auto simp: asked_def)
qed

lemma heap_step2:
  "kmalloc 1000 (heap_st 0x1040 1 links0 0x1000 NULL) = (0x1040, heap_st NULL 0 links0 NULL 0x1000)"
  by (simp add: eval_heap heap0_def heap_st_def links0_def)

text \<open>All three chunks of the page are allocated.\<close>

lemma class_1000: "class_of_size 1000 = Some 6" "class_of_size 900 = Some 6"
  by (simp_all add: class_of_size_def CACHE_SIZES_def upt_8)

lemma heap3_inv:
  "kheap_inv (heap_st NULL 0 links0 NULL 0x1000) {} (owners_of heap0) [0x1840 \<mapsto> 6, 0x1440 \<mapsto> 6, 0x1040 \<mapsto> 6]"
proof -
  have 1: "kheap_inv (heap_st 0x1440 2 links0 0x1000 NULL) {} (owners_of heap0) [0x1840 \<mapsto> 6]"
    using kmalloc_spec(2) [OF heap0_inv heap0_step] class_1000 by auto
  have 2: "kheap_inv (heap_st 0x1040 1 links0 0x1000 NULL) {} (owners_of heap0) [0x1840 \<mapsto> 6, 0x1440 \<mapsto> 6]"
    using kmalloc_spec(2) [OF 1 heap_step1] class_1000 by auto
  show ?thesis using kmalloc_spec(2) [OF 2 heap_step2] class_1000 by auto
qed

section \<open>Double frees\<close>

text \<open>
  A slab of class \<open>i\<close> from which the next allocation of that class is served once a chunk is given back: it heads the partial
  list, or it is full, and then \<^verbatim>\<open>kfree\<close> moves it there. At least three of its chunks are allocated.
\<close>

definition next_served :: "nat \<Rightarrow> addr \<Rightarrow> 'a kheap_scheme \<Rightarrow> bool" where
  "next_served i s k \<longleftrightarrow> (cache_head i Partial k = s \<or> slab_free_chunks (slab_at k s) = 0) \<and>
     unat (slab_free_chunks (slab_at k s)) + 2 < unat (slab_total_chunks (slab_at k s))"

lemma give_chunk_first:
  assumes inv: "kheap_inv k R X A" and p: "A p = Some i" and n: "cache_head i Partial k = s \<or> slab_free_chunks (slab_at k s) = 0"
    and s: "s = p AND NOT 0xFFF"
  shows "slab_core (slab_at (give_chunk i s p k) s) =
      (SLAB_MAGIC, i, p, slab_free_chunks (slab_at k s) + 1, slab_total_chunks (slab_at k s))"
    "cache_head i Partial (give_chunk i s p k) = s" "slab_magic (slab_at k s) = SLAB_MAGIC" "slab_cache_ix (slab_at k s) = i"
    "p \<noteq> NULL" "s \<noteq> NULL" "i < 8"
proof -
  obtain L fl where sh: "slab_shape k L fl" and fi: "slab_fill L fl {}" and rep: "heap_rep L fl A"
    using inv by (auto simp: kheap_inv_def slab_inv_def)
  obtain s' where i: "i < 8" and s': "s' \<in> pages L i" "p \<in> chunks i s'" using rep p by (auto simp: heap_rep_def)
  have ok: "slab_page_ok k i s' (fl s')" "heap_page s'" using pages_heap [OF sh i s'(1)] by auto
  have pp: "s' = s" "p \<noteq> NULL" using chunks_page [OF ok(2) i s'(2)] s by auto
  have core: "slab_core (slab_at k s) = (SLAB_MAGIC, i, slab_free_list (slab_at k s), of_nat (length (fl s)), of_nat (nchunks i))"
    using ok(1) pp(1) by (simp add: slab_page_ok_def)
  then show m: "slab_magic (slab_at k s) = SLAB_MAGIC" "slab_cache_ix (slab_at k s) = i" by (simp_all add: slab_core_def)
  show "p \<noteq> NULL" "i < 8" by (rule pp(2), rule i)
  show nz: "s \<noteq> NULL" using ok(2) pp(1) by (auto simp: heap_page_def frame_no_def)
  have "slab_core (slab_at (give_chunk i s p k) s) =
        (SLAB_MAGIC, i, p, slab_free_chunks (slab_at k s) + 1, slab_total_chunks (slab_at k s)) \<and>
        cache_head i Partial (give_chunk i s p k) = s"
  proof (cases "slab_free_chunks (slab_at k s) = 0")
    case False
    then show ?thesis
      using n m by (simp add: give_chunk_def slab_core_def cache_head_def upd_slab_def)
  next
    case True
    have "length (fl s) \<le> 252" using free_list_bound(1) [OF ok(1) i] nchunks_bounds [OF i] pp(1) by simp
    then have "fl s = []" using True core of_nat_eq_small [of "length (fl s)" 0] by (simp add: slab_core_def)
    then have full: "s \<in> set (L i Full)"
    proof -
      obtain l where l: "s \<in> set (L i l)" using s'(1) pp(1) by (auto simp: pages_def)
      then show ?thesis using \<open>fl s = []\<close> fi i slab_shapeD(3) [OF sh i] by (cases l) (auto simp: slab_fill_def)
    qed
    obtain xs ys where xy: "L i Full = xs @ s # ys" using full by (meson split_list)
    have il: "i < length (kmalloc_caches k)" using slab_shapeD(1) [OF sh] i by simp
    note r = on_list_remove [OF slab_shapeD(4) [OF sh i, of Full, unfolded xy] il]
    note rf = list_remove_fields [OF r(2,3), where i = i and l = Full]
    have nin: "s \<notin> set (L i Partial)" using slab_shapeD(5) [OF sh i, of Full Partial] full by auto
    have "on_list (list_remove i Full s k) i Partial (L i Partial)"
      using slab_shapeD(5) [OF sh i, of Full Partial] xy by (intro r(4) slab_shapeD(4) [OF sh i]) auto
    then have "cache_head i Partial (list_remove i Full s k) \<noteq> s"
      by (rule on_list_add(2) [OF _ nin nz]) (use rf(5) il in simp)
    note af = list_add_fields [OF this]
    have "slab_core (slab_at (list_add i Partial s (list_remove i Full s k)) s) = slab_core (slab_at k s)"
      "cache_head i Partial (list_add i Partial s (list_remove i Full s k)) = s"
      using af(3) rf(3) af(7) rf(5) il by simp_all
    then show ?thesis
      using True m by (simp add: give_chunk_def Let_def slab_core_def cache_head_def upd_slab_def)
  qed
  then show "slab_core (slab_at (give_chunk i s p k) s) =
      (SLAB_MAGIC, i, p, slab_free_chunks (slab_at k s) + 1, slab_total_chunks (slab_at k s))"
    "cache_head i Partial (give_chunk i s p k) = s" by blast+
qed

text \<open>An allocation from the slab that heads the partial list, and the state if the slab keeps a free chunk.\<close>

lemma kmalloc_head:
  assumes c: "class_of_size sz = Some i" and h: "cache_head i Partial k = s" "s \<noteq> NULL"
  shows "fst (kmalloc sz k) = slab_free_list (slab_at k s)"
    "slab_free_chunks (slab_at k s) = n \<Longrightarrow> n \<noteq> 1 \<Longrightarrow> kmalloc sz k = (slab_free_list (slab_at k s),
       upd_slab s (\<lambda>x. x\<lparr>slab_free_list := chunk_next k (slab_free_list (slab_at k s)), slab_free_chunks := n - 1\<rparr>) k)"
proof -
  have "sz \<noteq> 0" "\<not> sz > 2048" "find (\<lambda>i. sz \<le> CACHE_SIZES ! i) [0..<NUM_CACHES] = Some i"
    using c by (auto simp: class_of_size_def split: if_splits simp del: upt_rec_numeral)
  then have m: "kmalloc sz k = take_chunk i s k"
    using h by (simp add: kmalloc_def target_slab_def del: upt_rec_numeral)
  show "fst (kmalloc sz k) = slab_free_list (slab_at k s)" by (simp add: m take_chunk_def Let_def)
  assume n: "slab_free_chunks (slab_at k s) = n" "n \<noteq> 1"
  have "upd_slab s (slab_free_chunks_update (\<lambda>n. n - 1)) (upd_slab s (slab_free_list_update (\<lambda>_. c)) k) =
      upd_slab s (\<lambda>x. x\<lparr>slab_free_list := c, slab_free_chunks := n - 1\<rparr>) k" for c
    using n(1) by (cases "slab_at k s") (simp add: upd_slab_def)
  then show "kmalloc sz k = (slab_free_list (slab_at k s),
       upd_slab s (\<lambda>x. x\<lparr>slab_free_list := chunk_next k (slab_free_list (slab_at k s)), slab_free_chunks := n - 1\<rparr>) k)"
    using n by (simp add: m take_chunk_def Let_def)
qed

lemma kfree_twice:
  assumes inv: "kheap_inv k R X A" and p: "A p = Some i" and ns: "next_served i (p AND NOT 0xFFF) k"
  obtains s n where "s \<noteq> NULL" "cache_head i Partial (kfree p (kfree p k)) = s" "n \<noteq> 0"
    "slab_free_list (slab_at (kfree p (kfree p k)) s) = p" "slab_free_chunks (slab_at (kfree p (kfree p k)) s) = n + 1"
    "chunk_next (kfree p (kfree p k)) p = p"
proof -
  define s where "s = p AND NOT 0xFFF"
  let ?n = "slab_free_chunks (slab_at k s)" and ?t = "slab_total_chunks (slab_at k s)"
  have n: "cache_head i Partial k = s \<or> ?n = 0" "unat ?n + 2 < unat ?t" using ns by (simp_all add: next_served_def s_def)
  note g = give_chunk_first [OF inv p n(1) s_def]
  have lt: "unat ?n + 2 < 2 ^ 64" using n(2) unat_less_two_power [of ?t] by simp
  have u: "unat (?n + 1) = unat ?n + 1" "unat (?n + 2) = unat ?n + 2" using lt by (simp_all add: unat_word_ariths)
  have "unat (?n + 1) \<noteq> unat ?t" "unat (?n + 2) \<noteq> unat ?t" "unat (?n + 1) \<noteq> 0" "unat (?n + 2) \<noteq> 0"
    unfolding u using n(2) by linarith+
  then have ne: "?n + 1 \<noteq> ?t" "?n + 2 \<noteq> ?t" "?n + 1 \<noteq> 0" "?n + 2 \<noteq> 0" by (fastforce simp only: unat_0)+
  let ?k1 = "give_chunk i s p k"
  have k1: "kfree p k = ?k1" using g ne(1) unfolding kfree_def Let_def s_def [symmetric] slab_core_def by simp
  have c1: "slab_magic (slab_at ?k1 s) = SLAB_MAGIC" "slab_cache_ix (slab_at ?k1 s) = i" "slab_free_list (slab_at ?k1 s) = p"
      "slab_free_chunks (slab_at ?k1 s) = ?n + 1" "slab_total_chunks (slab_at ?k1 s) = ?t"
    using g(1) by (simp_all add: slab_core_def)
  define k2 where "k2 = upd_slab s (\<lambda>x. x\<lparr>slab_free_list := p, slab_free_chunks := ?n + 2\<rparr>) (?k1\<lparr>chunk_next := (chunk_next ?k1)(p := p)\<rparr>)"
  have g2: "give_chunk i s p ?k1 = k2"
    using c1 ne(3) by (simp add: give_chunk_def [of i s p ?k1] Let_def k2_def upd_slab_def add.assoc)
  have "kfree p ?k1 = k2"
    using g(5) c1 ne(2) g2 unfolding kfree_def [of p ?k1] Let_def s_def [symmetric] by (simp add: k2_def upd_slab_def)
  then have k2: "kfree p (kfree p k) = k2" using k1 by simp
  show thesis
  proof (rule that [of s "?n + 1"], unfold k2)
    show "s \<noteq> NULL" by (rule g(6))
    show "cache_head i Partial k2 = s" using g(2) by (simp add: k2_def cache_head_def upd_slab_def)
  qed (use ne u in \<open>simp_all add: k2_def upd_slab_def\<close>)
qed

text \<open>
  C16: \<^verbatim>\<open>kfree\<close> does not notice a second free of the same pointer, in any heap: if the slab of a live pointer serves the next
  allocations of its size class, then after freeing the pointer twice the next two allocations of that class
  both return it, so two clients own the same bytes.
\<close>

theorem kfree_twice_aliases:
  assumes "kheap_inv k R X A" "A p = Some i" "next_served i (p AND NOT 0xFFF) k"
    and "class_of_size sz = Some i" "class_of_size sz' = Some i"
  shows "case kmalloc sz (kfree p (kfree p k)) of (a, k3) \<Rightarrow> a = p \<and> fst (kmalloc sz' k3) = p"
proof -
  let ?k = "kfree p (kfree p k)"
  obtain s n where s: "s \<noteq> NULL" "cache_head i Partial ?k = s" "n \<noteq> 0" "slab_free_list (slab_at ?k s) = p"
    "slab_free_chunks (slab_at ?k s) = n + 1" "chunk_next ?k p = p" by (rule kfree_twice [OF assms(1-3)])
  have n1: "n + 1 \<noteq> 1" using s(3) by simp
  note k3 = kmalloc_head(2) [OF assms(4) s(2,1,5) n1, unfolded s(4,6)]
  show ?thesis unfolding k3
    using kmalloc_head(1) [OF assms(5), of "upd_slab s (\<lambda>x. x\<lparr>slab_free_list := p, slab_free_chunks := n + 1 - 1\<rparr>) ?k" s] s by simp
qed

theorem kfree_twice_aliases_witness:
  "case kmalloc 1000 (kfree 0x1840 (kfree 0x1840 (heap_st NULL 0 links0 NULL 0x1000))) of (a, k3) \<Rightarrow>
     a = 0x1840 \<and> fst (kmalloc 900 k3) = 0x1840"
proof -
  note i = heap3_inv
  show ?thesis
    by (rule kfree_twice_aliases [OF i, of _ 6])
      (simp_all add: next_served_def heap_st_def class_of_size_def CACHE_SIZES_def upt_8)
qed

end
