(* ===== verification/Kernel_State.thy ===== *)
theory Kernel_State
  imports Slab "HOL-Library.Monad_Syntax"
begin

text \<open>
  The data types of \<^verbatim>\<open>src/kernel/src/arch/x86_64/include/process.h\<close> and the part of the kernel state the
  scheduler works on. A \<^verbatim>\<open>process_t\<close> is a record in the store \<open>proc\<close>, indexed by its address; \<open>upd_proc\<close>
  assigns to its fields. Loops that follow pointers may not end on a corrupted list, so the operations that
  contain one return an \<open>option\<close>: \<open>None\<close> stands for a loop that never ends.
\<close>

section \<open>Types\<close>

type_synonym s32 = "32 word"

datatype fd_type = FD_NONE | FD_VFS | FD_PIPE_READ | FD_PIPE_WRITE

record file_descriptor =
  fd_type :: fd_type
  fd_node :: addr
  fd_pipe :: addr
  fd_offset :: u32
  fd_flags :: s32

definition fd_free :: file_descriptor where
  "fd_free = \<lparr>fd_type = FD_NONE, fd_node = NULL, fd_pipe = NULL, fd_offset = 0, fd_flags = 0\<rparr>"

abbreviation MAX_FDS :: nat where "MAX_FDS \<equiv> 32"
abbreviation MMAP_BASE :: u64 where "MMAP_BASE \<equiv> 0x0000600000000000"
abbreviation MAX_USER_ARGS :: nat where "MAX_USER_ARGS \<equiv> 8"

record trapframe =
  tf_rdi :: u64
  tf_rsi :: u64
  tf_rdx :: u64
  tf_r10 :: u64
  tf_r8 :: u64
  tf_r9 :: u64
  tf_rbx :: u64
  tf_rbp :: u64
  tf_r12 :: u64
  tf_r13 :: u64
  tf_r14 :: u64
  tf_r15 :: u64
  tf_rax :: u64
  tf_rip :: u64
  tf_rflags :: u64
  tf_rsp :: u64

datatype process_state =
    PROCESS_READY
  | PROCESS_RUNNING
  | PROCESS_BLOCKED
  | PROCESS_BLOCKED_KBD
  | PROCESS_BLOCKED_PIPE
  | PROCESS_BLOCKED_MOUSE
  | PROCESS_DEAD

record wait_queue =
  wq_head :: addr
  wq_tail :: addr

definition wq_empty :: wait_queue where
  "wq_empty = \<lparr>wq_head = NULL, wq_tail = NULL\<rparr>"

text \<open>\<^verbatim>\<open>entrypoint\<close> is the address of a kernel function; \<^verbatim>\<open>vm_refcount\<close> the address of a shared counter.\<close>

record process =
  p_pid :: u64
  p_rsp :: u64
  p_cr3 :: u64
  p_vm_refcount :: addr
  p_state :: process_state
  p_kernel_stack :: addr
  p_priority :: u8
  p_ticks_executed :: u32
  p_queue_next :: addr
  p_queue_prev :: addr
  p_wait_next :: addr
  p_wait_prev :: addr
  p_next :: addr
  p_prev :: addr
  p_entrypoint :: addr
  p_entry :: u64
  p_user_stack_top :: u64
  p_brk_start :: u64
  p_brk :: u64
  p_mmap_next :: u64
  p_fd_table :: "file_descriptor list"
  p_fork_frame :: trapframe
  p_parent :: addr
  p_exit_code :: s32

definition zero_frame :: trapframe where
  "zero_frame = \<lparr>tf_rdi = 0, tf_rsi = 0, tf_rdx = 0, tf_r10 = 0, tf_r8 = 0, tf_r9 = 0, tf_rbx = 0, tf_rbp = 0,
     tf_r12 = 0, tf_r13 = 0, tf_r14 = 0, tf_r15 = 0, tf_rax = 0, tf_rip = 0, tf_rflags = 0, tf_rsp = 0\<rparr>"

text \<open>\<^verbatim>\<open>memset(proc, 0, sizeof(process_t))\<close>; \<^verbatim>\<open>PROCESS_READY\<close> and \<^verbatim>\<open>FD_NONE\<close> are the enumerators with value 0.\<close>

definition zero_process :: process where
  "zero_process = \<lparr>p_pid = 0, p_rsp = 0, p_cr3 = 0, p_vm_refcount = NULL, p_state = PROCESS_READY,
     p_kernel_stack = NULL, p_priority = 0, p_ticks_executed = 0, p_queue_next = NULL, p_queue_prev = NULL,
     p_wait_next = NULL, p_wait_prev = NULL, p_next = NULL, p_prev = NULL, p_entrypoint = NULL, p_entry = 0,
     p_user_stack_top = 0, p_brk_start = 0, p_brk = 0, p_mmap_next = 0, p_fd_table = replicate MAX_FDS fd_free,
     p_fork_frame = zero_frame, p_parent = NULL, p_exit_code = 0\<rparr>"

section \<open>State of the scheduler\<close>

record queue =
  q_head :: addr
  q_tail :: addr
  q_quantum :: u32

record tasks = kheap +
  proc :: "addr \<Rightarrow> process"
  mlfq :: "queue list"
  global_ticks :: u32
  current_process :: addr
  idle_process :: addr

definition upd_proc :: "addr \<Rightarrow> (process \<Rightarrow> process) \<Rightarrow> 'a tasks_scheme \<Rightarrow> 'a tasks_scheme" where
  "upd_proc a f k = k\<lparr>proc := (proc k)(a := f (proc k a))\<rparr>"

lemma upd_proc_simps [simp]:
  "proc (upd_proc a f k) b = (if b = a then f (proc k a) else proc k b)"
  "mlfq (upd_proc a f k) = mlfq k" "global_ticks (upd_proc a f k) = global_ticks k"
  "current_process (upd_proc a f k) = current_process k" "idle_process (upd_proc a f k) = idle_process k"
  "kheap.truncate (upd_proc a f k) = kheap.truncate k" "tasks.more (upd_proc a f k) = tasks.more k"
  by (auto simp: upd_proc_def kheap.truncate_def)

abbreviation qnx :: "'a tasks_scheme \<Rightarrow> addr \<Rightarrow> addr" where "qnx k \<equiv> \<lambda>a. p_queue_next (proc k a)"
abbreviation qpv :: "'a tasks_scheme \<Rightarrow> addr \<Rightarrow> addr" where "qpv k \<equiv> \<lambda>a. p_queue_prev (proc k a)"
abbreviation wnx :: "'a tasks_scheme \<Rightarrow> addr \<Rightarrow> addr" where "wnx k \<equiv> \<lambda>a. p_wait_next (proc k a)"
abbreviation wpv :: "'a tasks_scheme \<Rightarrow> addr \<Rightarrow> addr" where "wpv k \<equiv> \<lambda>a. p_wait_prev (proc k a)"

end
