(* ===== verification/Scheduler.thy ===== *)
theory Scheduler
  imports Kernel_State
begin

text \<open>
  The ready queues of \<^verbatim>\<open>src/kernel/src/arch/x86_64/scheduler.c\<close> (a multi-level feedback queue) and the wait
  queues of \<^verbatim>\<open>process.c\<close>. Both are doubly linked queues of processes and refine lists: appending adds at the
  end, taking removes the first.
\<close>

section \<open>Wait queues\<close>

definition wait_queue_push :: "wait_queue \<Rightarrow> addr \<Rightarrow> 'a tasks_scheme \<Rightarrow> wait_queue \<times> 'a tasks_scheme" where
  "wait_queue_push wq p k =
     (let k1 = upd_proc p (p_wait_next_update (\<lambda>_. NULL)) k;
          k2 = upd_proc p (p_wait_prev_update (\<lambda>_. wq_tail wq)) k1
      in if wq_tail wq \<noteq> NULL
         then (wq\<lparr>wq_tail := p\<rparr>, upd_proc (wq_tail wq) (p_wait_next_update (\<lambda>_. p)) k2)
         else (wq\<lparr>wq_head := p, wq_tail := p\<rparr>, k2))"

definition wait_queue_pop :: "wait_queue \<Rightarrow> 'a tasks_scheme \<Rightarrow> addr \<times> wait_queue \<times> 'a tasks_scheme" where
  "wait_queue_pop wq k =
     (let p = wq_head wq in
      if p = NULL then (p, wq, k)
      else
        let wq1 = wq\<lparr>wq_head := p_wait_next (proc k p)\<rparr>;
            (wq2, k1) = (if wq_head wq1 \<noteq> NULL
                         then (wq1, upd_proc (wq_head wq1) (p_wait_prev_update (\<lambda>_. NULL)) k)
                         else (wq1\<lparr>wq_tail := NULL\<rparr>, k));
            k2 = upd_proc p (p_wait_next_update (\<lambda>_. NULL)) k1
        in (p, wq2, upd_proc p (p_wait_prev_update (\<lambda>_. NULL)) k2))"

section \<open>Ready queues\<close>

abbreviation NUM_QUEUES :: nat where "NUM_QUEUES \<equiv> 4"
abbreviation PRIORITY_BOOST_INTERVAL :: u32 where "PRIORITY_BOOST_INTERVAL \<equiv> 100"

definition mlfq_init :: "'a tasks_scheme \<Rightarrow> 'a tasks_scheme" where
  "mlfq_init k = k\<lparr>mlfq := map (\<lambda>i. \<lparr>q_head = NULL, q_tail = NULL, q_quantum = 2 + 2 * of_nat i\<rparr>) [0..<NUM_QUEUES]\<rparr>"

text \<open>\<^verbatim>\<open>mlfq[i] = q\<close>.\<close>

definition set_level :: "nat \<Rightarrow> queue \<Rightarrow> 'a tasks_scheme \<Rightarrow> 'a tasks_scheme" where
  "set_level i q k = k\<lparr>mlfq := (mlfq k)[i := q]\<rparr>"

definition mlfq_enqueue :: "addr \<Rightarrow> 'a tasks_scheme \<Rightarrow> 'a tasks_scheme" where
  "mlfq_enqueue p k =
     (if p = NULL \<or> p_state (proc k p) = PROCESS_DEAD then k
      else
        let k1 = upd_proc p (\<lambda>x. x\<lparr>p_queue_next := NULL, p_state := PROCESS_READY\<rparr>) k;
            i = unat (p_priority (proc k1 p));
            q = mlfq k1 ! i
        in if q_head q = NULL
           then set_level i (q\<lparr>q_head := p, q_tail := p\<rparr>) (upd_proc p (p_queue_prev_update (\<lambda>_. NULL)) k1)
           else
             let k2 = upd_proc p (p_queue_prev_update (\<lambda>_. q_tail q)) k1;
                 k3 = upd_proc (q_tail q) (p_queue_next_update (\<lambda>_. p)) k2
             in set_level i (q\<lparr>q_tail := p\<rparr>) k3)"

definition take_level :: "nat \<Rightarrow> 'a tasks_scheme \<Rightarrow> addr \<times> 'a tasks_scheme" where
  "take_level i k =
     (let p = q_head (mlfq k ! i);
          h = p_queue_next (proc k p);
          k1 = set_level i ((mlfq k ! i)\<lparr>q_head := h\<rparr>) k;
          k2 = (if h \<noteq> NULL then upd_proc h (p_queue_prev_update (\<lambda>_. NULL)) k1
                else set_level i ((mlfq k1 ! i)\<lparr>q_tail := NULL\<rparr>) k1)
      in (p, upd_proc p (\<lambda>x. x\<lparr>p_queue_next := NULL, p_queue_prev := NULL\<rparr>) k2))"

definition mlfq_pick_next :: "'a tasks_scheme \<Rightarrow> addr \<times> 'a tasks_scheme" where
  "mlfq_pick_next k =
     (case find (\<lambda>i. q_head (mlfq k ! i) \<noteq> NULL) [0..<NUM_QUEUES] of
        None \<Rightarrow> (NULL, k)
      | Some i \<Rightarrow> take_level i k)"

text \<open>The \<^verbatim>\<open>while (q->head)\<close> loop of \<^verbatim>\<open>mlfq_boost_all\<close>, and the loop over the levels around it.\<close>

partial_function (option) boost_level :: "nat \<Rightarrow> 'a tasks_scheme \<Rightarrow> 'a tasks_scheme option" where
  "boost_level i k =
     (let p = q_head (mlfq k ! i) in
      if p = NULL then Some (set_level i ((mlfq k ! i)\<lparr>q_tail := NULL\<rparr>) k)
      else
        let k1 = set_level i ((mlfq k ! i)\<lparr>q_head := p_queue_next (proc k p)\<rparr>) k;
            k2 = upd_proc p (\<lambda>x. x\<lparr>p_priority := 0, p_ticks_executed := 0\<rparr>) k1
        in boost_level i (mlfq_enqueue p k2))"

definition mlfq_boost_all :: "'a tasks_scheme \<Rightarrow> 'a tasks_scheme option" where
  "mlfq_boost_all k = fold (\<lambda>i r. Option.bind r (boost_level i)) [1..<NUM_QUEUES] (Some k)"

section \<open>What the operations leave alone\<close>

lemma set_level_simps [simp]:
  "proc (set_level i q k) = proc k" "mlfq (set_level i q k) = (mlfq k)[i := q]"
  "global_ticks (set_level i q k) = global_ticks k" "current_process (set_level i q k) = current_process k"
  "idle_process (set_level i q k) = idle_process k" "kheap.truncate (set_level i q k) = kheap.truncate k"
  "tasks.more (set_level i q k) = tasks.more k"
  by (auto simp: set_level_def kheap.truncate_def)

text \<open>Two process records that agree except for the links and the state.\<close>

definition same_process :: "process \<Rightarrow> process \<Rightarrow> bool" where
  "same_process x y \<longleftrightarrow>
     x\<lparr>p_queue_next := NULL, p_queue_prev := NULL, p_wait_next := NULL, p_wait_prev := NULL, p_state := PROCESS_READY\<rparr> =
     y\<lparr>p_queue_next := NULL, p_queue_prev := NULL, p_wait_next := NULL, p_wait_prev := NULL, p_state := PROCESS_READY\<rparr>"

lemma same_process_refl [simp]: "same_process x x"
  by (simp add: same_process_def)

lemma same_process_trans: "same_process x y \<Longrightarrow> same_process y z \<Longrightarrow> same_process x z"
  by (simp add: same_process_def)

lemma same_process_upd [simp]:
  "same_process (x\<lparr>p_queue_next := a\<rparr>) y = same_process x y"
  "same_process (x\<lparr>p_queue_prev := a\<rparr>) y = same_process x y"
  "same_process (x\<lparr>p_wait_next := a\<rparr>) y = same_process x y"
  "same_process (x\<lparr>p_wait_prev := a\<rparr>) y = same_process x y"
  "same_process (x\<lparr>p_state := s\<rparr>) y = same_process x y"
  by (simp_all add: same_process_def)

lemma same_processD:
  assumes "same_process x y"
  shows "p_pid x = p_pid y" "p_rsp x = p_rsp y" "p_cr3 x = p_cr3 y" "p_vm_refcount x = p_vm_refcount y"
    "p_kernel_stack x = p_kernel_stack y" "p_priority x = p_priority y"
    "p_ticks_executed x = p_ticks_executed y" "p_next x = p_next y" "p_prev x = p_prev y"
    "p_entrypoint x = p_entrypoint y" "p_entry x = p_entry y" "p_user_stack_top x = p_user_stack_top y"
    "p_brk_start x = p_brk_start y" "p_brk x = p_brk y" "p_mmap_next x = p_mmap_next y"
    "p_fd_table x = p_fd_table y" "p_fork_frame x = p_fork_frame y" "p_parent x = p_parent y"
    "p_exit_code x = p_exit_code y"
  using assms by (cases x; cases y; simp add: same_process_def)+

lemma wait_queue_push_frame [simp]:
  "same_process (proc (snd (wait_queue_push wq p k)) a) (proc k a)"
  "mlfq (snd (wait_queue_push wq p k)) = mlfq k"
  "qnx (snd (wait_queue_push wq p k)) a = qnx k a" "qpv (snd (wait_queue_push wq p k)) a = qpv k a"
  "p_state (proc (snd (wait_queue_push wq p k)) a) = p_state (proc k a)"
  "global_ticks (snd (wait_queue_push wq p k)) = global_ticks k"
  "current_process (snd (wait_queue_push wq p k)) = current_process k"
  "idle_process (snd (wait_queue_push wq p k)) = idle_process k"
  "kheap.truncate (snd (wait_queue_push wq p k)) = kheap.truncate k"
  "tasks.more (snd (wait_queue_push wq p k)) = tasks.more k"
  by (auto simp: wait_queue_push_def Let_def)

lemma wait_queue_pop_frame [simp]:
  "same_process (proc (snd (snd (wait_queue_pop wq k))) a) (proc k a)"
  "mlfq (snd (snd (wait_queue_pop wq k))) = mlfq k"
  "qnx (snd (snd (wait_queue_pop wq k))) a = qnx k a" "qpv (snd (snd (wait_queue_pop wq k))) a = qpv k a"
  "p_state (proc (snd (snd (wait_queue_pop wq k))) a) = p_state (proc k a)"
  "global_ticks (snd (snd (wait_queue_pop wq k))) = global_ticks k"
  "current_process (snd (snd (wait_queue_pop wq k))) = current_process k"
  "idle_process (snd (snd (wait_queue_pop wq k))) = idle_process k"
  "kheap.truncate (snd (snd (wait_queue_pop wq k))) = kheap.truncate k"
  "tasks.more (snd (snd (wait_queue_pop wq k))) = tasks.more k"
  by (auto simp: wait_queue_pop_def Let_def)

lemma mlfq_enqueue_frame [simp]:
  "same_process (proc (mlfq_enqueue p k) a) (proc k a)"
  "wnx (mlfq_enqueue p k) a = wnx k a" "wpv (mlfq_enqueue p k) a = wpv k a"
  "a \<noteq> p \<Longrightarrow> p_state (proc (mlfq_enqueue p k) a) = p_state (proc k a)"
  "length (mlfq (mlfq_enqueue p k)) = length (mlfq k)"
  "global_ticks (mlfq_enqueue p k) = global_ticks k"
  "current_process (mlfq_enqueue p k) = current_process k"
  "idle_process (mlfq_enqueue p k) = idle_process k"
  "kheap.truncate (mlfq_enqueue p k) = kheap.truncate k"
  "tasks.more (mlfq_enqueue p k) = tasks.more k"
  by (auto simp: mlfq_enqueue_def Let_def)

lemma take_level_frame [simp]:
  "same_process (proc (snd (take_level i k)) a) (proc k a)"
  "wnx (snd (take_level i k)) a = wnx k a" "wpv (snd (take_level i k)) a = wpv k a"
  "p_state (proc (snd (take_level i k)) a) = p_state (proc k a)"
  "length (mlfq (snd (take_level i k))) = length (mlfq k)"
  "global_ticks (snd (take_level i k)) = global_ticks k"
  "current_process (snd (take_level i k)) = current_process k"
  "idle_process (snd (take_level i k)) = idle_process k"
  "kheap.truncate (snd (take_level i k)) = kheap.truncate k"
  "tasks.more (snd (take_level i k)) = tasks.more k"
  by (auto simp: take_level_def Let_def)

lemma mlfq_pick_next_frame [simp]:
  "same_process (proc (snd (mlfq_pick_next k)) a) (proc k a)"
  "wnx (snd (mlfq_pick_next k)) a = wnx k a" "wpv (snd (mlfq_pick_next k)) a = wpv k a"
  "p_state (proc (snd (mlfq_pick_next k)) a) = p_state (proc k a)"
  "length (mlfq (snd (mlfq_pick_next k))) = length (mlfq k)"
  "global_ticks (snd (mlfq_pick_next k)) = global_ticks k"
  "current_process (snd (mlfq_pick_next k)) = current_process k"
  "idle_process (snd (mlfq_pick_next k)) = idle_process k"
  "kheap.truncate (snd (mlfq_pick_next k)) = kheap.truncate k"
  "tasks.more (snd (mlfq_pick_next k)) = tasks.more k"
  by (auto simp: mlfq_pick_next_def split: option.split)

text \<open>What rearranging the ready queues leaves alone.\<close>

definition sched_frame :: "'a tasks_scheme \<Rightarrow> 'a tasks_scheme \<Rightarrow> bool" where
  "sched_frame k k' \<longleftrightarrow> kheap.truncate k' = kheap.truncate k \<and> tasks.more k' = tasks.more k \<and>
     global_ticks k' = global_ticks k \<and> current_process k' = current_process k \<and> idle_process k' = idle_process k \<and>
     (\<forall>a. wnx k' a = wnx k a \<and> wpv k' a = wpv k a \<and>
        same_process ((proc k' a)\<lparr>p_priority := 0, p_ticks_executed := 0\<rparr>)
          ((proc k a)\<lparr>p_priority := 0, p_ticks_executed := 0\<rparr>))"

lemma sched_frame_refl [simp]: "sched_frame k k"
  by (simp add: sched_frame_def)

lemma sched_frame_trans: "sched_frame k k' \<Longrightarrow> sched_frame k' k'' \<Longrightarrow> sched_frame k k''"
  by (simp add: sched_frame_def same_process_def)

lemma sched_frame_set_level [simp]: "sched_frame k (set_level i q k)"
  by (simp add: sched_frame_def)

lemma same_process_prio:
  "same_process x y \<Longrightarrow>
   same_process (x\<lparr>p_priority := a, p_ticks_executed := b\<rparr>) (y\<lparr>p_priority := a, p_ticks_executed := b\<rparr>)"
  by (cases x; cases y) (simp add: same_process_def)

lemma sched_frame_enqueue [simp]: "sched_frame k (mlfq_enqueue p k)"
  by (simp add: sched_frame_def same_process_prio)

lemma sched_frame_pick [simp]: "sched_frame k (snd (mlfq_pick_next k))"
  by (simp add: sched_frame_def same_process_prio)

lemma sched_frame_prio [simp]:
  "sched_frame k (upd_proc p (\<lambda>x. x\<lparr>p_priority := a, p_ticks_executed := b\<rparr>) k)"
  by (simp add: sched_frame_def)

section \<open>Wait queues are first-in first-out\<close>

definition wq_rep :: "'a tasks_scheme \<Rightarrow> wait_queue \<Rightarrow> addr list \<Rightarrow> bool" where
  "wq_rep k wq xs \<longleftrightarrow> dqueue (wnx k) (wpv k) (wq_head wq) (wq_tail wq) xs"

lemma wq_rep_cong:
  "(\<And>a. a \<in> set xs \<Longrightarrow> wnx k' a = wnx k a) \<Longrightarrow> (\<And>a. a \<in> set xs \<Longrightarrow> wpv k' a = wpv k a) \<Longrightarrow>
   wq_rep k' wq xs = wq_rep k wq xs"
  unfolding wq_rep_def by (rule dqueue_cong) auto

lemma wq_rep_empty [simp]: "wq_rep k wq_empty []"
  by (simp add: wq_rep_def wq_empty_def)

lemma wq_rep_NULL: "wq_rep k wq xs \<Longrightarrow> wq_head wq = NULL \<longleftrightarrow> xs = []"
  by (auto simp: wq_rep_def dqueue_head_NULL)

lemma wait_queue_push_rep:
  assumes r: "wq_rep k wq xs" and p: "p \<noteq> NULL" "p \<notin> set xs"
  shows "wq_rep (snd (wait_queue_push wq p k)) (fst (wait_queue_push wq p k)) (xs @ [p])"
proof -
  let ?k = "snd (wait_queue_push wq p k)"
  have q: "dqueue (wnx k) (wpv k) (wq_head wq) (wq_tail wq) xs" using r by (simp add: wq_rep_def)
  have t: "wq_tail wq = NULL \<longleftrightarrow> wq_head wq = NULL"
    using dqueue_head_NULL [OF q] dqueue_tail_NULL [OF q] by simp
  have tp: "wq_tail wq \<noteq> NULL \<Longrightarrow> wq_tail wq \<noteq> p"
    using q p dqueue_tail_NULL [OF q] by (cases xs rule: rev_cases) (auto simp: dqueue_def)
  have "dqueue (wnx ?k) (wpv ?k) (if wq_head wq = NULL then p else wq_head wq) p (xs @ [p])"
    by (rule dqueue_push [OF q p(2,1)]) (use p t tp in \<open>auto simp: wait_queue_push_def Let_def\<close>)
  moreover have "wq_head (fst (wait_queue_push wq p k)) = (if wq_head wq = NULL then p else wq_head wq)"
    "wq_tail (fst (wait_queue_push wq p k)) = p" using t by (simp_all add: wait_queue_push_def Let_def)
  ultimately show ?thesis by (simp add: wq_rep_def)
qed

lemma wait_queue_pop_empty: "wq_rep k wq [] \<Longrightarrow> wait_queue_pop wq k = (NULL, wq, k)"
  by (simp add: wq_rep_def wait_queue_pop_def Let_def)

lemma wait_queue_pop_rep:
  assumes r: "wq_rep k wq (p # xs)"
  shows "fst (wait_queue_pop wq k) = p"
    "wq_rep (snd (snd (wait_queue_pop wq k))) (fst (snd (wait_queue_pop wq k))) xs"
proof -
  let ?k = "snd (snd (wait_queue_pop wq k))"
  have q: "dqueue (wnx k) (wpv k) (wq_head wq) (wq_tail wq) (p # xs)" using r by (simp add: wq_rep_def)
  have h: "wq_head wq = p" and d: "p \<notin> set xs" "p \<noteq> NULL" "distinct xs"
    using dqueue_head [OF q] dqueue_distinct [OF q] by auto
  have pn: "wnx k p \<noteq> p" using q d by (cases xs) (auto simp: dqueue_def dlist_def)
  show "fst (wait_queue_pop wq k) = p" using h by (simp add: wait_queue_pop_def Let_def split: prod.split)
  have "dqueue (wnx ?k) (wpv ?k) (wnx k p) (if wnx k p = NULL then NULL else wq_tail wq) xs"
    by (rule dqueue_pop [OF q]) (use h d pn in \<open>auto simp: wait_queue_pop_def Let_def\<close>)
  then show "wq_rep ?k (fst (snd (wait_queue_pop wq k))) xs"
    using h d by (auto simp: wq_rep_def wait_queue_pop_def Let_def split: if_splits)
qed

text \<open>The interface a blocking driver relies on, and what it may conclude from it.\<close>

locale fifo =
  fixes push :: "'q \<Rightarrow> addr \<Rightarrow> 's \<Rightarrow> 'q \<times> 's" and pop :: "'q \<Rightarrow> 's \<Rightarrow> addr \<times> 'q \<times> 's"
    and rep :: "'s \<Rightarrow> 'q \<Rightarrow> addr list \<Rightarrow> bool"
  assumes push_rep: "rep s q xs \<Longrightarrow> p \<noteq> NULL \<Longrightarrow> p \<notin> set xs \<Longrightarrow> rep (snd (push q p s)) (fst (push q p s)) (xs @ [p])"
    and pop_NULL: "rep s q [] \<Longrightarrow> pop q s = (NULL, q, s)"
    and pop_fst: "rep s q (p # xs) \<Longrightarrow> fst (pop q s) = p"
    and pop_rep: "rep s q (p # xs) \<Longrightarrow> rep (snd (snd (pop q s))) (fst (snd (pop q s))) xs"
begin

fun push_all :: "addr list \<Rightarrow> 'q \<times> 's \<Rightarrow> 'q \<times> 's" where
  "push_all [] qs = qs"
| "push_all (p # ps) qs = push_all ps (push (fst qs) p (snd qs))"

fun pop_n :: "nat \<Rightarrow> 'q \<times> 's \<Rightarrow> addr list \<times> 'q \<times> 's" where
  "pop_n 0 qs = ([], qs)"
| "pop_n (Suc n) qs =
     (let (p, qs1) = pop (fst qs) (snd qs); (ps, qs2) = pop_n n qs1 in (p # ps, qs2))"

lemma push_all_rep:
  "rep s q xs \<Longrightarrow> distinct (xs @ ps) \<Longrightarrow> NULL \<notin> set ps \<Longrightarrow>
   rep (snd (push_all ps (q, s))) (fst (push_all ps (q, s))) (xs @ ps)"
proof (induction ps arbitrary: s q xs)
  case (Cons p ps)
  obtain q1 s1 where e: "push q p s = (q1, s1)" by fastforce
  have "rep s1 q1 (xs @ [p])" using push_rep [OF Cons.prems(1), of p] Cons.prems e by auto
  then show ?case using Cons.IH [of s1 q1 "xs @ [p]"] Cons.prems e by simp
qed simp

lemma pop_n_rep:
  "rep s q (xs @ ys) \<Longrightarrow>
   fst (pop_n (length xs) (q, s)) = xs \<and>
   rep (snd (snd (pop_n (length xs) (q, s)))) (fst (snd (pop_n (length xs) (q, s)))) ys"
proof (induction xs arbitrary: s q)
  case (Cons x xs)
  obtain p q1 s1 where e: "pop q s = (p, q1, s1)" by (cases "pop q s") auto
  have "p = x" "rep s1 q1 (xs @ ys)" using pop_fst [of s q x] pop_rep [of s q x] Cons.prems e by auto
  then show ?case using Cons.IH [of s1 q1] e
    by (cases "pop_n (length xs) (q1, s1)") (simp add: Let_def)
qed simp

lemma first_in_first_out:
  assumes "rep s q xs" "distinct (xs @ ps)" "NULL \<notin> set ps"
  shows "fst (pop_n (length (xs @ ps)) (push_all ps (q, s))) = xs @ ps"
  using pop_n_rep [of "snd (push_all ps (q, s))" "fst (push_all ps (q, s))" "xs @ ps" "[]"]
    push_all_rep [OF assms] by simp

end

interpretation waitq: fifo wait_queue_push wait_queue_pop wq_rep
  by unfold_locales (simp_all add: wait_queue_push_rep wait_queue_pop_empty wait_queue_pop_rep)

section \<open>The multi-level queue refines one list per level\<close>

definition level_rep :: "'a tasks_scheme \<Rightarrow> nat \<Rightarrow> addr list \<Rightarrow> bool" where
  "level_rep k i xs \<longleftrightarrow> dqueue (qnx k) (qpv k) (q_head (mlfq k ! i)) (q_tail (mlfq k ! i)) xs"

text \<open>\<open>J\<close> is the set of levels that are in a consistent state: all four, except while a level is being boosted.\<close>

definition levels_rep :: "'a tasks_scheme \<Rightarrow> nat set \<Rightarrow> (nat \<Rightarrow> addr list) \<Rightarrow> bool" where
  "levels_rep k J Q \<longleftrightarrow> length (mlfq k) = NUM_QUEUES \<and>
     (\<forall>i \<in> J. level_rep k i (Q i) \<and>
        (\<forall>p \<in> set (Q i). unat (p_priority (proc k p)) = i \<and> p_state (proc k p) = PROCESS_READY) \<and>
        (\<forall>j \<in> J. i \<noteq> j \<longrightarrow> set (Q i) \<inter> set (Q j) = {}))"

abbreviation mlfq_rep :: "'a tasks_scheme \<Rightarrow> (nat \<Rightarrow> addr list) \<Rightarrow> bool" where
  "mlfq_rep k Q \<equiv> levels_rep k {..<NUM_QUEUES} Q"

definition ready_in :: "nat set \<Rightarrow> (nat \<Rightarrow> addr list) \<Rightarrow> addr set" where
  "ready_in J Q = (\<Union>i \<in> J. set (Q i))"

abbreviation ready_set :: "(nat \<Rightarrow> addr list) \<Rightarrow> addr set" where
  "ready_set Q \<equiv> ready_in {..<NUM_QUEUES} Q"

lemma ready_inI: "i \<in> J \<Longrightarrow> p \<in> set (Q i) \<Longrightarrow> p \<in> ready_in J Q"
  by (auto simp: ready_in_def)

lemma ready_in_snoc: "i \<in> J \<Longrightarrow> ready_in J (Q(i := Q i @ [p])) = insert p (ready_in J Q)"
  by (auto simp: ready_in_def split: if_splits)

lemma levels_repD:
  assumes "levels_rep k J Q" "i \<in> J"
  shows "level_rep k i (Q i)" "p \<in> set (Q i) \<Longrightarrow> unat (p_priority (proc k p)) = i"
    "p \<in> set (Q i) \<Longrightarrow> p_state (proc k p) = PROCESS_READY"
    "j \<in> J \<Longrightarrow> p \<in> set (Q i) \<Longrightarrow> p \<in> set (Q j) \<Longrightarrow> i = j" "distinct (Q i)" "NULL \<notin> set (Q i)"
  using assms unfolding levels_rep_def level_rep_def by (auto dest: dqueue_distinct)

lemma levels_rep_length: "levels_rep k J Q \<Longrightarrow> length (mlfq k) = NUM_QUEUES"
  by (simp add: levels_rep_def)

lemma levels_rep_cong:
  assumes "levels_rep k J Q" "length (mlfq k') = NUM_QUEUES" "\<And>i. i \<in> J \<Longrightarrow> mlfq k' ! i = mlfq k ! i"
    "\<And>a. a \<in> ready_in J Q \<Longrightarrow> qnx k' a = qnx k a \<and> qpv k' a = qpv k a \<and>
       p_priority (proc k' a) = p_priority (proc k a) \<and> p_state (proc k' a) = p_state (proc k a)"
  shows "levels_rep k' J Q"
proof -
  have "level_rep k' i (Q i)" if "i \<in> J" for i
    using assms(1) that dqueue_cong [of "Q i" "qnx k'" "qnx k" "qpv k'" "qpv k"] assms(3,4)
      ready_inI [OF that, of _ Q]
    by (auto simp: levels_rep_def level_rep_def)
  then show ?thesis using assms ready_inI [of _ J _ Q] by (auto simp: levels_rep_def)
qed

lemma levels_rep_shrink:
  assumes r: "levels_rep k J Q" and "length (mlfq k') = NUM_QUEUES"
    and "\<And>j. j \<in> J \<Longrightarrow> level_rep k' j (Q' j)" and sub: "\<And>j. set (Q' j) \<subseteq> set (Q j)"
    and "\<And>a. p_priority (proc k' a) = p_priority (proc k a)" "\<And>a. p_state (proc k' a) = p_state (proc k a)"
  shows "levels_rep k' J Q'"
  unfolding levels_rep_def
proof (intro conjI ballI impI)
  fix i j assume ij: "i \<in> J" "j \<in> J" "i \<noteq> j"
  have "set (Q i) \<inter> set (Q j) = {}" using r ij by (auto simp: levels_rep_def)
  then show "set (Q' i) \<inter> set (Q' j) = {}" using sub [of i] sub [of j] by blast
qed (use assms levels_repD [OF r] subsetD [OF sub] in simp_all)

lemma levels_rep_mono: "levels_rep k J Q \<Longrightarrow> J' \<subseteq> J \<Longrightarrow> levels_rep k J' Q"
  unfolding levels_rep_def by blast

lemma levels_rep_eq: "levels_rep k J Q \<Longrightarrow> (\<And>i. i \<in> J \<Longrightarrow> Q' i = Q i) \<Longrightarrow> levels_rep k J Q'"
  by (simp add: levels_rep_def)

lemma levels_rep_insert:
  "levels_rep k J Q \<Longrightarrow> level_rep k i [] \<Longrightarrow> Q i = [] \<Longrightarrow> levels_rep k (insert i J) Q"
  by (auto simp: levels_rep_def)

lemma levels_rep_upd: "i \<notin> J \<Longrightarrow> levels_rep k J (Q(i := xs)) = levels_rep k J Q"
  unfolding levels_rep_def by auto

lemma mlfq_init_rep: "mlfq_rep (mlfq_init k) (\<lambda>_. [])"
  by (auto simp: levels_rep_def level_rep_def mlfq_init_def)

lemma level_rep_other:
  assumes "level_rep k j xs" "mlfq k' ! j = mlfq k ! j"
    "\<And>a. a \<in> set xs \<Longrightarrow> qnx k' a = qnx k a" "\<And>a. a \<in> set xs \<Longrightarrow> qpv k' a = qpv k a"
  shows "level_rep k' j xs"
  using assms dqueue_cong [of xs "qnx k'" "qnx k" "qpv k'" "qpv k"] by (simp add: level_rep_def)

text \<open>Appending to one level touches the links of the appended process and of the last one of that level.\<close>

lemma mlfq_enqueue_level:
  assumes l: "level_rep k i xs" "i < length (mlfq k)" and i: "i = unat (p_priority (proc k p))"
    and p: "p \<noteq> NULL" "p_state (proc k p) \<noteq> PROCESS_DEAD" "p \<notin> set xs"
  shows "level_rep (mlfq_enqueue p k) i (xs @ [p])"
    "j \<noteq> i \<Longrightarrow> mlfq (mlfq_enqueue p k) ! j = mlfq k ! j"
    "a \<notin> set xs \<Longrightarrow> a \<noteq> p \<Longrightarrow> qnx (mlfq_enqueue p k) a = qnx k a"
    "a \<noteq> p \<Longrightarrow> qpv (mlfq_enqueue p k) a = qpv k a"
    "p_state (proc (mlfq_enqueue p k) p) = PROCESS_READY"
proof -
  let ?k = "mlfq_enqueue p k" and ?q = "mlfq k ! i"
  have q: "dqueue (qnx k) (qpv k) (q_head ?q) (q_tail ?q) xs" using l by (simp add: level_rep_def)
  have t: "q_tail ?q = NULL \<longleftrightarrow> xs = []" "q_head ?q = NULL \<longleftrightarrow> xs = []"
    using dqueue_head_NULL [OF q] dqueue_tail_NULL [OF q] by auto
  have ts: "xs \<noteq> [] \<Longrightarrow> q_tail ?q \<in> set xs" using q by (auto simp: dqueue_def)
  then have tp: "xs \<noteq> [] \<Longrightarrow> q_tail ?q \<noteq> p" using p by auto
  have "dqueue (qnx ?k) (qpv ?k) (if q_head ?q = NULL then p else q_head ?q) p (xs @ [p])"
    by (rule dqueue_push [OF q p(3,1)]) (use p t tp i in \<open>auto simp: mlfq_enqueue_def Let_def\<close>)
  moreover have "q_head (mlfq ?k ! i) = (if q_head ?q = NULL then p else q_head ?q)" "q_tail (mlfq ?k ! i) = p"
    using p l i by (simp_all add: mlfq_enqueue_def Let_def)
  ultimately show "level_rep ?k i (xs @ [p])" by (simp add: level_rep_def)
  show "j \<noteq> i \<Longrightarrow> mlfq ?k ! j = mlfq k ! j" using i by (simp add: mlfq_enqueue_def Let_def)
  show "a \<notin> set xs \<Longrightarrow> a \<noteq> p \<Longrightarrow> qnx ?k a = qnx k a"
    using i t ts by (auto simp: mlfq_enqueue_def Let_def)
  show "a \<noteq> p \<Longrightarrow> qpv ?k a = qpv k a" by (auto simp: mlfq_enqueue_def Let_def)
  show "p_state (proc ?k p) = PROCESS_READY" using p by (auto simp: mlfq_enqueue_def Let_def)
qed

lemma mlfq_enqueue_levels:
  assumes r: "levels_rep k J Q" "J \<subseteq> {..<NUM_QUEUES}" and i: "unat (p_priority (proc k p)) \<in> J"
    and p: "p \<noteq> NULL" "p_state (proc k p) \<noteq> PROCESS_DEAD" "p \<notin> ready_in J Q"
  shows "levels_rep (mlfq_enqueue p k) J (Q(unat (p_priority (proc k p)) := Q (unat (p_priority (proc k p))) @ [p]))"
    (is "levels_rep ?k J (Q(?i := _))")
proof -
  have pi: "p \<notin> set (Q j)" if "j \<in> J" for j using p that by (auto simp: ready_in_def)
  have l: "level_rep k ?i (Q ?i)" "?i < length (mlfq k)"
    using levels_repD(1) [OF r(1) i] levels_rep_length [OF r(1)] r(2) i by auto
  note e = mlfq_enqueue_level [OF l refl p(1,2) pi [OF i]]
  have pr: "p_priority (proc ?k a) = p_priority (proc k a)" for a by (rule same_processD) simp
  have lv: "level_rep ?k j ((Q(?i := Q ?i @ [p])) j)" if j: "j \<in> J" for j
  proof (cases "j = ?i")
    case False
    have "level_rep ?k j (Q j)"
    proof (rule level_rep_other [OF levels_repD(1) [OF r(1) j] e(2) [OF False]])
      fix a assume a: "a \<in> set (Q j)"
      have "a \<notin> set (Q ?i)" using levels_repD(4) [OF r(1) j i a] False by auto
      moreover have "a \<noteq> p" using pi [OF j] a by auto
      ultimately show "qnx ?k a = qnx k a" "qpv ?k a = qpv k a" by (simp_all add: e)
    qed
    then show ?thesis using False by simp
  qed (simp add: e)
  have st: "p_state (proc ?k a) = PROCESS_READY" if "j \<in> J" "a \<in> set ((Q(?i := Q ?i @ [p])) j)" for a j
    using that e(5) levels_repD(3) [OF r(1) that(1)] by (cases "a = p") (auto split: if_splits)
  show ?thesis
    unfolding levels_rep_def
  proof (intro conjI allI impI ballI)
    show "length (mlfq ?k) = NUM_QUEUES" using levels_rep_length [OF r(1)] by simp
    fix j assume j: "j \<in> J"
    show "level_rep ?k j ((Q(?i := Q ?i @ [p])) j)" by (rule lv [OF j])
    fix a assume a: "a \<in> set ((Q(?i := Q ?i @ [p])) j)"
    show "p_state (proc ?k a) = PROCESS_READY" by (rule st [OF j a])
    show "unat (p_priority (proc ?k a)) = j"
      using a levels_repD(2) [OF r(1) j] by (auto simp: pr split: if_splits)
  next
    fix j l assume j: "j \<in> J" "l \<in> J" "j \<noteq> l"
    have "set (Q j) \<inter> set (Q l) = {}" using r j by (auto simp: levels_rep_def)
    then show "set ((Q(?i := Q ?i @ [p])) j) \<inter> set ((Q(?i := Q ?i @ [p])) l) = {}"
      using j pi by auto
  qed
qed

lemma take_level_levels:
  assumes r: "levels_rep k J Q" "J \<subseteq> {..<NUM_QUEUES}" and i: "i \<in> J" and q: "Q i = p # xs"
  shows "fst (take_level i k) = p" "levels_rep (snd (take_level i k)) J (Q(i := xs))"
proof -
  let ?k = "snd (take_level i k)" and ?q = "mlfq k ! i"
  have dq: "dqueue (qnx k) (qpv k) (q_head ?q) (q_tail ?q) (p # xs)"
    using levels_repD(1) [OF r(1) i] q by (simp add: level_rep_def)
  have il: "i < length (mlfq k)" using levels_rep_length [OF r(1)] r(2) i by auto
  have h: "q_head ?q = p" and d: "p \<notin> set xs" "p \<noteq> NULL" "distinct xs"
    using dqueue_head [OF dq] dqueue_distinct [OF dq] by auto
  have pn: "qnx k p \<noteq> p" "qnx k p \<noteq> NULL \<Longrightarrow> qnx k p \<in> set xs"
    using dq d by (cases xs; auto simp: dqueue_def dlist_def)+
  show "fst (take_level i k) = p" using h by (simp add: take_level_def Let_def)
  have "dqueue (qnx ?k) (qpv ?k) (qnx k p) (if qnx k p = NULL then NULL else q_tail ?q) xs"
    by (rule dqueue_pop [OF dq]) (use h d pn in \<open>auto simp: take_level_def Let_def\<close>)
  moreover have "q_head (mlfq ?k ! i) = qnx k p"
    "q_tail (mlfq ?k ! i) = (if qnx k p = NULL then NULL else q_tail ?q)"
    using h il by (simp_all add: take_level_def Let_def)
  ultimately have li: "level_rep ?k i xs" by (simp add: level_rep_def)
  have pr: "p_priority (proc ?k a) = p_priority (proc k a)" for a by (rule same_processD) simp
  have lj: "level_rep ?k j (Q j)" if j: "j \<in> J" "j \<noteq> i" for j
  proof (rule level_rep_other [OF levels_repD(1) [OF r(1) j(1)]])
    show "mlfq ?k ! j = mlfq k ! j" using j by (simp add: take_level_def Let_def)
    fix a assume a: "a \<in> set (Q j)"
    have "a \<notin> set (p # xs)" using levels_repD(4) [OF r(1) j(1) i a] j q by auto
    then show "qnx ?k a = qnx k a" "qpv ?k a = qpv k a"
      using h pn by (auto simp: take_level_def Let_def)
  qed
  show "levels_rep ?k J (Q(i := xs))"
  proof (rule levels_rep_shrink [OF r(1)])
    show "length (mlfq ?k) = NUM_QUEUES" using levels_rep_length [OF r(1)] by simp
    show "level_rep ?k j ((Q(i := xs)) j)" if "j \<in> J" for j using li lj that by simp
    show "set ((Q(i := xs)) j) \<subseteq> set (Q j)" for j using q by auto
  qed (simp_all add: pr)
qed

lemma find_upt_least:
  "find P [0..<n] = Some i \<longleftrightarrow> i < n \<and> P i \<and> (\<forall>j < i. \<not> P j)"
  by (auto simp: find_Some_iff)

text \<open>\<^verbatim>\<open>mlfq_pick_next\<close> takes the first process of the first non-empty level, or nothing when all are empty.\<close>

lemma mlfq_pick_next_none:
  assumes r: "mlfq_rep k Q" and e: "\<And>i. i < NUM_QUEUES \<Longrightarrow> Q i = []"
  shows "mlfq_pick_next k = (NULL, k)"
proof -
  have "q_head (mlfq k ! i) = NULL" if "i < NUM_QUEUES" for i
    using levels_repD(1) [OF r, of i] e that by (simp add: level_rep_def)
  then have "find (\<lambda>i. q_head (mlfq k ! i) \<noteq> NULL) [0..<NUM_QUEUES] = None" by (auto simp: find_None_iff)
  then show ?thesis by (simp add: mlfq_pick_next_def del: upt_rec_numeral)
qed

lemma mlfq_pick_next_some:
  assumes r: "mlfq_rep k Q" and i: "i < NUM_QUEUES" and q: "Q i = p # xs" and e: "\<And>j. j < i \<Longrightarrow> Q j = []"
  shows "fst (mlfq_pick_next k) = p" "mlfq_rep (snd (mlfq_pick_next k)) (Q(i := xs))"
proof -
  have h: "q_head (mlfq k ! j) = NULL \<longleftrightarrow> Q j = []" if "j < NUM_QUEUES" for j
    using levels_repD(1) [OF r, of j] that by (auto simp: level_rep_def dqueue_head_NULL)
  have "find (\<lambda>i. q_head (mlfq k ! i) \<noteq> NULL) [0..<NUM_QUEUES] = Some i"
    unfolding find_upt_least using i q e h by auto
  then have "mlfq_pick_next k = take_level i k" by (simp add: mlfq_pick_next_def del: upt_rec_numeral)
  then show "fst (mlfq_pick_next k) = p" "mlfq_rep (snd (mlfq_pick_next k)) (Q(i := xs))"
    using take_level_levels [OF r subset_refl _ q] i by simp_all
qed

section \<open>The boost ends and moves every ready process to level 0\<close>

text \<open>
  While level \<open>i\<close> is being emptied its \<^verbatim>\<open>queue_prev\<close> links and its tail are stale; what the loop relies on is the
  chain of \<^verbatim>\<open>queue_next\<close> links from its head.
\<close>

definition boosting :: "'a tasks_scheme \<Rightarrow> nat \<Rightarrow> addr list \<Rightarrow> (nat \<Rightarrow> addr list) \<Rightarrow> bool" where
  "boosting k i xs Q \<longleftrightarrow> levels_rep k ({..<NUM_QUEUES} - {i}) Q \<and>
     q_head (mlfq k ! i) = hd (xs @ [NULL]) \<and> (\<exists>b. chain (qnx k) (qpv k) b xs NULL) \<and>
     distinct xs \<and> NULL \<notin> set xs \<and> set xs \<inter> ready_in ({..<NUM_QUEUES} - {i}) Q = {} \<and>
     (\<forall>p \<in> set xs. p_state (proc k p) \<noteq> PROCESS_DEAD)"

lemma boosting_start:
  assumes r: "mlfq_rep k Q" and i: "i < NUM_QUEUES"
  shows "boosting k i (Q i) Q"
proof -
  have l: "dqueue (qnx k) (qpv k) (q_head (mlfq k ! i)) (q_tail (mlfq k ! i)) (Q i)"
    using levels_repD(1) [OF r, of i] i by (simp add: level_rep_def)
  have "levels_rep k ({..<NUM_QUEUES} - {i}) Q" by (rule levels_rep_mono [OF r]) auto
  moreover have "set (Q i) \<inter> ready_in ({..<NUM_QUEUES} - {i}) Q = {}"
    using levels_repD(4) [OF r, of i] i by (auto simp: ready_in_def)
  ultimately show ?thesis
    using l levels_repD(3) [OF r, of i] i unfolding boosting_def dqueue_def dlist_def by auto
qed

lemma boosting_step:
  assumes b: "boosting k i (p # xs) Q" and i: "0 < i" "i < NUM_QUEUES"
  defines "k1 \<equiv> set_level i ((mlfq k ! i)\<lparr>q_head := p_queue_next (proc k p)\<rparr>) k"
  defines "k2 \<equiv> upd_proc p (\<lambda>x. x\<lparr>p_priority := 0, p_ticks_executed := 0\<rparr>) k1"
  shows "boosting (mlfq_enqueue p k2) i xs (Q(0 := Q 0 @ [p]))"
proof -
  let ?J = "{..<NUM_QUEUES} - {i}" and ?k = "mlfq_enqueue p k2"
  have r: "levels_rep k ?J Q" and d: "p \<notin> set xs" "p \<noteq> NULL" "distinct xs" "NULL \<notin> set xs"
    and dj: "p \<notin> ready_in ?J Q" "set xs \<inter> ready_in ?J Q = {}"
    and st: "\<And>a. a \<in> set (p # xs) \<Longrightarrow> p_state (proc k a) \<noteq> PROCESS_DEAD"
    and c: "qnx k p = hd (xs @ [NULL])" "chain (qnx k) (qpv k) p xs NULL"
    using b by (auto simp: boosting_def)
  have l: "length (mlfq k) = NUM_QUEUES" by (rule levels_rep_length [OF r])
  have J0: "0 \<in> ?J" using i by simp
  have r2: "levels_rep k2 ?J Q"
    by (rule levels_rep_cong [OF r]) (use l dj in \<open>auto simp: k2_def k1_def\<close>)
  have pp: "p_priority (proc k2 p) = 0" "p_state (proc k2 p) \<noteq> PROCESS_DEAD" using st by (auto simp: k2_def k1_def)
  have r3: "levels_rep ?k ?J (Q(0 := Q 0 @ [p]))"
    using mlfq_enqueue_levels [OF r2 Diff_subset, of p] pp J0 d dj by simp
  have l0: "level_rep k2 0 (Q 0)" "0 < length (mlfq k2)" "p \<notin> set (Q 0)"
    using levels_repD(1) [OF r2 J0] levels_rep_length [OF r2] dj J0 by (auto simp: ready_in_def)
  note e = mlfq_enqueue_level [OF l0(1,2) _ d(2) pp(2) l0(3)]
  have links: "qnx ?k a = qnx k a" "qpv ?k a = qpv k a" if "a \<in> set xs" for a
  proof -
    have "a \<noteq> p" "a \<notin> set (Q 0)" using that d dj ready_inI [OF J0, of a Q] by auto
    then show "qnx ?k a = qnx k a" "qpv ?k a = qpv k a" using e(3,4) pp(1) by (simp_all add: k2_def k1_def)
  qed
  have "chain (qnx ?k) (qpv ?k) p xs NULL" using c(2) chain_cong [of xs "qnx ?k" "qnx k" "qpv ?k" "qpv k"] links by simp
  moreover have "mlfq ?k ! i = mlfq k2 ! i" using e(2) [of i] i pp(1) by simp
  then have "q_head (mlfq ?k ! i) = hd (xs @ [NULL])" using i l c(1) by (simp add: k2_def k1_def)
  moreover have "p_state (proc ?k a) \<noteq> PROCESS_DEAD" if "a \<in> set xs" for a
    using that d st by (cases "a = p") (simp_all add: k2_def k1_def)
  moreover have "set xs \<inter> ready_in ?J (Q(0 := Q 0 @ [p])) = {}"
    using dj d by (simp add: ready_in_snoc [OF J0])
  ultimately show ?thesis using r3 d unfolding boosting_def by blast
qed

lemma boost_level_ends:
  assumes "boosting k i xs Q" "0 < i" "i < NUM_QUEUES"
  shows "\<exists>k'. boost_level i k = Some k' \<and> mlfq_rep k' (Q(0 := Q 0 @ xs, i := [])) \<and> sched_frame k k' \<and>
    (\<forall>a. a \<notin> set xs \<longrightarrow> p_state (proc k' a) = p_state (proc k a))"
  using assms
proof (induction xs arbitrary: k Q)
  case Nil
  let ?k = "set_level i ((mlfq k ! i)\<lparr>q_tail := NULL\<rparr>) k" and ?J = "{..<NUM_QUEUES} - {i}"
  have r: "levels_rep k ?J Q" and h: "q_head (mlfq k ! i) = NULL" using Nil by (auto simp: boosting_def)
  have l: "length (mlfq k) = NUM_QUEUES" by (rule levels_rep_length [OF r])
  have "levels_rep ?k ?J Q" by (rule levels_rep_cong [OF r]) (use l in auto)
  then have "levels_rep ?k ?J (Q(i := []))" by (simp add: levels_rep_upd)
  moreover have "level_rep ?k i []" using l h Nil.prems(3) by (simp add: level_rep_def)
  ultimately have "levels_rep ?k (insert i ?J) (Q(i := []))" by (rule levels_rep_insert) simp
  moreover have "insert i ?J = {..<NUM_QUEUES}" using Nil.prems(3) by auto
  ultimately have "mlfq_rep ?k (Q(i := []))" by simp
  then have m: "mlfq_rep ?k (Q(0 := Q 0 @ [], i := []))" by (rule levels_rep_eq) simp
  have "boost_level i k = Some ?k" using h by (simp add: boost_level.simps [of i k])
  then show ?case using m by (intro exI [of _ ?k] conjI allI impI) (assumption | simp)+
next
  case (Cons p xs)
  have h: "q_head (mlfq k ! i) = p" "p \<noteq> NULL" using Cons.prems(1) by (auto simp: boosting_def)
  define k2 where "k2 = upd_proc p (\<lambda>x. x\<lparr>p_priority := 0, p_ticks_executed := 0\<rparr>)
    (set_level i ((mlfq k ! i)\<lparr>q_head := p_queue_next (proc k p)\<rparr>) k)"
  have f: "sched_frame k (mlfq_enqueue p k2)"
    unfolding k2_def
    by (rule sched_frame_trans [OF sched_frame_trans [OF sched_frame_set_level sched_frame_prio] sched_frame_enqueue])
  have st: "a \<noteq> p \<Longrightarrow> p_state (proc (mlfq_enqueue p k2) a) = p_state (proc k a)" for a by (simp add: k2_def)
  obtain k' where k': "boost_level i (mlfq_enqueue p k2) = Some k'"
    "mlfq_rep k' ((Q(0 := Q 0 @ [p]))(0 := (Q(0 := Q 0 @ [p])) 0 @ xs, i := []))" "sched_frame (mlfq_enqueue p k2) k'"
    "\<forall>a. a \<notin> set xs \<longrightarrow> p_state (proc k' a) = p_state (proc (mlfq_enqueue p k2) a)"
    using Cons.IH [OF boosting_step [OF Cons.prems] Cons.prems(2,3)] unfolding k2_def by blast
  have "mlfq_rep k' (Q(0 := Q 0 @ p # xs, i := []))" by (rule levels_rep_eq [OF k'(2)]) simp
  moreover have "boost_level i k = Some k'" using k'(1) h by (simp add: boost_level.simps [of i k] Let_def k2_def)
  ultimately show ?case using st k'(4) sched_frame_trans [OF f k'(3)]
    by (intro exI [of _ k'] conjI allI impI) (assumption | simp)+
qed

lemma boost_level_rep:
  assumes "mlfq_rep k Q" "0 < i" "i < NUM_QUEUES"
  obtains k' where "boost_level i k = Some k'" "mlfq_rep k' (Q(0 := Q 0 @ Q i, i := []))" "sched_frame k k'"
    "\<And>a. a \<notin> set (Q i) \<Longrightarrow> p_state (proc k' a) = p_state (proc k a)"
  using boost_level_ends [OF boosting_start [OF assms(1,3)] assms(2,3)] by auto

definition boosted :: "(nat \<Rightarrow> addr list) \<Rightarrow> nat \<Rightarrow> addr list" where
  "boosted Q i = (if i = 0 then Q 0 @ Q 1 @ Q 2 @ Q 3 else [])"

lemma mlfq_boost_all_rep:
  assumes r: "mlfq_rep k Q"
  obtains k' where "mlfq_boost_all k = Some k'" "mlfq_rep k' (boosted Q)" "sched_frame k k'"
    "\<And>a. a \<notin> ready_set Q \<Longrightarrow> p_state (proc k' a) = p_state (proc k a)"
proof -
  obtain k1 where k1: "boost_level 1 k = Some k1" "mlfq_rep k1 (Q(0 := Q 0 @ Q 1, 1 := []))" "sched_frame k k1"
    "\<And>a. a \<notin> set (Q 1) \<Longrightarrow> p_state (proc k1 a) = p_state (proc k a)"
    using boost_level_rep [OF r, of 1] by auto
  obtain k2 where k2: "boost_level 2 k1 = Some k2" "mlfq_rep k2 (Q(0 := Q 0 @ Q 1 @ Q 2, 1 := [], 2 := []))"
    "sched_frame k1 k2" "\<And>a. a \<notin> set (Q 2) \<Longrightarrow> p_state (proc k2 a) = p_state (proc k1 a)"
    using boost_level_rep [OF k1(2), of 2] by (auto simp: fun_upd_twist)
  obtain k3 where k3: "boost_level 3 k2 = Some k3"
    "mlfq_rep k3 (Q(0 := Q 0 @ Q 1 @ Q 2 @ Q 3, 1 := [], 2 := [], 3 := []))" "sched_frame k2 k3"
    "\<And>a. a \<notin> set (Q 3) \<Longrightarrow> p_state (proc k3 a) = p_state (proc k2 a)"
    using boost_level_rep [OF k2(2), of 3] by (auto simp: fun_upd_twist)
  have "[1..<NUM_QUEUES] = [1, 2, 3]" by (simp add: upt_rec)
  then have "mlfq_boost_all k = Some k3" using k1 k2 k3 by (simp add: mlfq_boost_all_def)
  moreover have "mlfq_rep k3 (boosted Q)"
  proof (rule levels_rep_eq [OF k3(2)])
    fix i assume "i \<in> {..<NUM_QUEUES}"
    then consider "i = 0" | "i = 1" | "i = 2" | "i = 3" by fastforce
    then show "boosted Q i = (Q(0 := Q 0 @ Q 1 @ Q 2 @ Q 3, 1 := [], 2 := [], 3 := [])) i"
      by cases (simp_all add: boosted_def)
  qed
  moreover have "sched_frame k k3" using k1 k2 k3 sched_frame_trans by blast
  moreover have "p_state (proc k3 a) = p_state (proc k a)" if "a \<notin> ready_set Q" for a
    using that k1(4) k2(4) k3(4) by (simp add: ready_in_def)
  ultimately show thesis by (rule that)
qed

end
