(* ===== verification/Ring_Buffer.thy ===== *)
theory Ring_Buffer
  imports Aeryk_Prelude
begin

text \<open>
  Fixed-size ring buffers, as the pipe, the keyboard and the mouse driver use them: an array, the next slot to write
  and the next slot to read. Their contents are a list; putting appends to it and getting removes its first element.
\<close>

definition ring_contents :: "'a list \<Rightarrow> nat \<Rightarrow> nat \<Rightarrow> 'a list" where
  "ring_contents buf t c = map (\<lambda>i. buf ! ((t + i) mod length buf)) [0..<c]"

lemma length_ring_contents [simp]: "length (ring_contents buf t c) = c"
  by (simp add: ring_contents_def)

lemma ring_contents_0 [simp]: "ring_contents buf t 0 = []"
  by (simp add: ring_contents_def)

lemma mod_offset_neq: "i < c \<Longrightarrow> c < n \<Longrightarrow> (t + i) mod n \<noteq> (t + c) mod n" for t :: nat
proof
  assume "i < c" "c < n" "(t + i) mod n = (t + c) mod n"
  then have "n dvd (t + c) - (t + i)" using mod_eq_dvd_iff_nat [of "t + i" "t + c" n] by simp
  then have "n dvd c - i" by simp
  moreover have "0 < c - i" "c - i < n" using \<open>i < c\<close> \<open>c < n\<close> by auto
  ultimately show False by (meson nat_dvd_not_less)
qed

lemma ring_contents_put:
  assumes "c < length buf"
  shows "ring_contents (buf[(t + c) mod length buf := x]) t (Suc c) = ring_contents buf t c @ [x]"
proof -
  have "(buf[(t + c) mod length buf := x]) ! ((t + i) mod length buf) = buf ! ((t + i) mod length buf)" if "i < c" for i
    using mod_offset_neq [OF that assms, of t] by (simp add: nth_list_update_neq)
  moreover have "(t + c) mod length buf < length buf" using assms by (intro mod_less_divisor) linarith
  ultimately show ?thesis by (simp add: ring_contents_def)
qed

lemma ring_contents_get:
  assumes "0 < c" "t < length buf"
  shows "ring_contents buf t c = buf ! t # ring_contents buf ((t + 1) mod length buf) (c - 1)"
proof -
  obtain d where c: "c = Suc d" using assms(1) by (cases c) auto
  have "map (\<lambda>i. buf ! ((t + i) mod length buf)) [0..<Suc d] =
      buf ! t # map (\<lambda>i. buf ! ((t + Suc i) mod length buf)) [0..<d]"
    using assms(2) by (simp add: upt_conv_Cons map_Suc_upt [symmetric] del: upt_Suc)
  moreover have "(t + Suc i) mod n = ((t + 1) mod n + i) mod n" for i n by (simp add: mod_add_left_eq)
  ultimately show ?thesis by (simp add: ring_contents_def c)
qed

text \<open>The interface of the drivers' buffers: a bounded queue that drops what does not fit.\<close>

locale bounded_fifo =
  fixes put :: "'a \<Rightarrow> 's \<Rightarrow> 's" and get :: "'s \<Rightarrow> ('a \<times> 's) option"
    and ok :: "'s \<Rightarrow> bool" and held :: "'s \<Rightarrow> 'a list" and cap :: nat
  assumes put_ok: "ok s \<Longrightarrow> ok (put x s)"
    and put_held: "ok s \<Longrightarrow> held (put x s) = (if length (held s) < cap then held s @ [x] else held s)"
    and get_empty: "ok s \<Longrightarrow> held s = [] \<Longrightarrow> get s = None"
    and get_first: "ok s \<Longrightarrow> held s = x # xs \<Longrightarrow> \<exists>t. get s = Some (x, t) \<and> ok t \<and> held t = xs"
    and held_bound: "ok s \<Longrightarrow> length (held s) \<le> cap"
begin

lemma put_all:
  "ok s \<Longrightarrow> ok (fold put xs s) \<and> held (fold put xs s) = take cap (held s @ xs)"
proof (induction xs arbitrary: s)
  case Nil
  then show ?case using held_bound [OF Nil] by simp
next
  case (Cons x xs)
  have "held (fold put xs (put x s)) = take cap (held (put x s) @ xs)" "ok (fold put xs (put x s))"
    using Cons.IH [OF put_ok [OF Cons.prems, of x]] by auto
  moreover have "take cap (held (put x s) @ xs) = take cap (held s @ x # xs)"
    using put_held [OF Cons.prems, of x] held_bound [OF Cons.prems]
    by (cases "cap - length (held s)") (simp_all add: Suc_diff_Suc diff_Suc split: nat.splits)
  ultimately show ?case by simp
qed

text \<open>Getting until a stop element has been taken, as many as wanted, or nothing is left.\<close>

fun get_until :: "('a \<Rightarrow> bool) \<Rightarrow> nat \<Rightarrow> 's \<Rightarrow> 'a list \<times> 's" where
  "get_until P 0 s = ([], s)"
| "get_until P (Suc n) s =
     (case get s of
        None \<Rightarrow> ([], s)
      | Some (x, t) \<Rightarrow> if P x then ([x], t) else (case get_until P n t of (xs, u) \<Rightarrow> (x # xs, u)))"

lemma get_until_prefix:
  "ok s \<Longrightarrow> ok (snd (get_until P n s)) \<and> held s = fst (get_until P n s) @ held (snd (get_until P n s))"
proof (induction n arbitrary: s)
  case (Suc n)
  show ?case
  proof (cases "held s")
    case Nil
    then show ?thesis using Suc.prems get_empty [OF Suc.prems Nil] by simp
  next
    case (Cons x xs)
    then obtain t where t: "get s = Some (x, t)" "ok t" "held t = xs" using get_first [OF Suc.prems Cons] by blast
    then show ?thesis using Suc.IH [OF t(2)] Cons Suc.prems by (auto split: prod.split)
  qed
qed simp

end

end
