(* ===== verification/Pipe.thy ===== *)
theory Pipe
  imports Scheduler Ring_Buffer
begin

text \<open>
  Unnamed pipes, \<^verbatim>\<open>src/kernel/src/arch/x86_64/pipe.c\<close>. A blocking call is modelled up to the point where it calls
  \<^verbatim>\<open>schedule()\<close>: \<open>pipe_read\<close> and \<open>pipe_write\<close> run the loop of the source from the byte reached so far until it returns or
  blocks, and say which. A call that was blocked goes on from the byte it had reached when it is scheduled again.
  The bytes \<^verbatim>\<open>pipe_read\<close> stores into the caller's buffer are part of the result; \<^verbatim>\<open>pipe_write\<close> takes the bytes of the
  caller's buffer that are still to be written.
\<close>

section \<open>State\<close>

abbreviation PIPE_BUF_SIZE :: u32 where "PIPE_BUF_SIZE \<equiv> 512"

text \<open>
  \<^verbatim>\<open>readers\<close> and \<^verbatim>\<open>writers\<close> are a C \<^verbatim>\<open>int\<close>: a 32-bit word read as two's complement. An increment past the largest value,
  which C leaves undefined, wraps around here.
\<close>

type_synonym i32 = "32 word"

record pipe =
  pi_buf :: "u8 list"
  pi_head :: u32
  pi_tail :: u32
  pi_count :: u32
  pi_readers :: i32
  pi_writers :: i32
  pi_read_waiters :: wait_queue
  pi_write_waiters :: wait_queue

record ipc = tasks +
  pipe_at :: "addr \<Rightarrow> pipe"

definition upd_pipe :: "addr \<Rightarrow> (pipe \<Rightarrow> pipe) \<Rightarrow> 'a ipc_scheme \<Rightarrow> 'a ipc_scheme" where
  "upd_pipe a f k = k\<lparr>pipe_at := (pipe_at k)(a := f (pipe_at k a))\<rparr>"

text \<open>\<^verbatim>\<open>memset(p, 0, sizeof(pipe_t))\<close>, then one reader and one writer. \<^verbatim>\<open>sizeof(pipe_t)\<close> is 568.\<close>

definition new_pipe :: pipe where
  "new_pipe = \<lparr>pi_buf = replicate 512 0, pi_head = 0, pi_tail = 0, pi_count = 0, pi_readers = 1, pi_writers = 1,
     pi_read_waiters = wq_empty, pi_write_waiters = wq_empty\<rparr>"

abbreviation pipe_bytes :: u64 where "pipe_bytes \<equiv> 568"

section \<open>Operations\<close>

partial_function (option) wake_all :: "wait_queue \<Rightarrow> 'a tasks_scheme \<Rightarrow> (wait_queue \<times> 'a tasks_scheme) option" where
  "wake_all wq k =
     (case wait_queue_pop wq k of (p, wq1, k1) \<Rightarrow>
        if p = NULL then Some (wq1, k1) else wake_all wq1 (mlfq_enqueue p k1))"

definition pipe_create :: "'a ipc_scheme \<Rightarrow> addr \<times> 'a ipc_scheme" where
  "pipe_create k =
     (case kmalloc pipe_bytes k of (p, k1) \<Rightarrow>
        if p = NULL then (NULL, k1) else (p, upd_pipe p (\<lambda>_. new_pipe) k1))"

text \<open>Waking one waiter of a queue that is a field of the pipe.\<close>

definition wake_writer :: "addr \<Rightarrow> 'a ipc_scheme \<Rightarrow> 'a ipc_scheme" where
  "wake_writer p k =
     (case wait_queue_pop (pi_write_waiters (pipe_at k p)) k of (w, wq, k1) \<Rightarrow>
        let k2 = upd_pipe p (pi_write_waiters_update (\<lambda>_. wq)) k1
        in if w \<noteq> NULL then mlfq_enqueue w k2 else k2)"

definition wake_reader :: "addr \<Rightarrow> 'a ipc_scheme \<Rightarrow> 'a ipc_scheme" where
  "wake_reader p k =
     (case wait_queue_pop (pi_read_waiters (pipe_at k p)) k of (w, wq, k1) \<Rightarrow>
        let k2 = upd_pipe p (pi_read_waiters_update (\<lambda>_. wq)) k1
        in if w \<noteq> NULL then mlfq_enqueue w k2 else k2)"

definition block_on_read :: "addr \<Rightarrow> 'a ipc_scheme \<Rightarrow> 'a ipc_scheme" where
  "block_on_read p k =
     (let k1 = upd_proc (current_process k) (p_state_update (\<lambda>_. PROCESS_BLOCKED_PIPE)) k
      in case wait_queue_push (pi_read_waiters (pipe_at k1 p)) (current_process k1) k1 of (wq, k2) \<Rightarrow>
           upd_pipe p (pi_read_waiters_update (\<lambda>_. wq)) k2)"

definition block_on_write :: "addr \<Rightarrow> 'a ipc_scheme \<Rightarrow> 'a ipc_scheme" where
  "block_on_write p k =
     (let k1 = upd_proc (current_process k) (p_state_update (\<lambda>_. PROCESS_BLOCKED_PIPE)) k
      in case wait_queue_push (pi_write_waiters (pipe_at k1 p)) (current_process k1) k1 of (wq, k2) \<Rightarrow>
           upd_pipe p (pi_write_waiters_update (\<lambda>_. wq)) k2)"

datatype io = IoDone | IoBlock

text \<open>One byte taken from or put into the ring.\<close>

definition take_byte :: "addr \<Rightarrow> 'a ipc_scheme \<Rightarrow> u8 \<times> 'a ipc_scheme" where
  "take_byte p k =
     (let x = pipe_at k p
      in (pi_buf x ! unat (pi_tail x),
          upd_pipe p (\<lambda>x. x\<lparr>pi_tail := (pi_tail x + 1) mod PIPE_BUF_SIZE, pi_count := pi_count x - 1\<rparr>) k))"

definition put_byte :: "addr \<Rightarrow> u8 \<Rightarrow> 'a ipc_scheme \<Rightarrow> 'a ipc_scheme" where
  "put_byte p c =
     upd_pipe p (\<lambda>x. x\<lparr>pi_buf := (pi_buf x)[unat (pi_head x) := c],
        pi_head := (pi_head x + 1) mod PIPE_BUF_SIZE, pi_count := pi_count x + 1\<rparr>)"

text \<open>\<open>left\<close> is \<^verbatim>\<open>count - n\<close>, the number of bytes still wanted.\<close>

fun pipe_read :: "addr \<Rightarrow> nat \<Rightarrow> 'a ipc_scheme \<Rightarrow> u8 list \<times> io \<times> 'a ipc_scheme" where
  "pipe_read p 0 k = ([], IoDone, k)"
| "pipe_read p (Suc left) k =
     (if pi_count (pipe_at k p) > 0 then
        (case take_byte p k of (c, k1) \<Rightarrow>
         case pipe_read p left (wake_writer p k1) of (cs, r, k2) \<Rightarrow> (c # cs, r, k2))
      else if pi_writers (pipe_at k p) = 0 then ([], IoDone, k)
      else ([], IoBlock, block_on_read p k))"

text \<open>
  The result is the number of bytes written in this run, and whether the call returned, blocked, or found the pipe
  broken (\<^verbatim>\<open>readers == 0\<close>), where the source returns -1 if it has written nothing so far.
\<close>

datatype pipe_end = WDone | WBlock | WBroken

fun pipe_write :: "addr \<Rightarrow> u8 list \<Rightarrow> 'a ipc_scheme \<Rightarrow> nat \<times> pipe_end \<times> 'a ipc_scheme" where
  "pipe_write p [] k = (0, WDone, k)"
| "pipe_write p (c # cs) k =
     (if pi_readers (pipe_at k p) = 0 then (0, WBroken, k)
      else if pi_count (pipe_at k p) < PIPE_BUF_SIZE then
        (case pipe_write p cs (wake_reader p (put_byte p c k)) of (n, r, k1) \<Rightarrow> (Suc n, r, k1))
      else (0, WBlock, block_on_write p k))"

definition pipe_close_end :: "addr \<Rightarrow> bool \<Rightarrow> 'a ipc_scheme \<Rightarrow> 'a ipc_scheme option" where
  "pipe_close_end p is_read_end k =
     (let k1 = (if is_read_end
                then (if sint (pi_readers (pipe_at k p)) > 0 then upd_pipe p (\<lambda>x. x\<lparr>pi_readers := pi_readers x - 1\<rparr>) k else k)
                else (if sint (pi_writers (pipe_at k p)) > 0 then upd_pipe p (\<lambda>x. x\<lparr>pi_writers := pi_writers x - 1\<rparr>) k else k));
          should_free = (pi_readers (pipe_at k1 p) = 0 \<and> pi_writers (pipe_at k1 p) = 0)
      in do {
        (wq, k2) \<leftarrow> wake_all (pi_write_waiters (pipe_at k1 p)) k1;
        let k3 = upd_pipe p (pi_write_waiters_update (\<lambda>_. wq)) k2;
        (wq', k4) \<leftarrow> wake_all (pi_read_waiters (pipe_at k3 p)) k3;
        let k5 = upd_pipe p (pi_read_waiters_update (\<lambda>_. wq')) k4;
        Some (if should_free then kfree p k5 else k5)
      })"

section \<open>The bytes in flight\<close>

lemma ipc_more: "tasks.more k' = tasks.more k \<Longrightarrow> pipe_at k' = pipe_at k"
  by (cases k; cases k') simp

lemma upd_pipe_simps [simp]:
  "pipe_at (upd_pipe p f k) q = (if q = p then f (pipe_at k p) else pipe_at k q)"
  "proc (upd_pipe p f k) = proc k" "mlfq (upd_pipe p f k) = mlfq k"
  "current_process (upd_pipe p f k) = current_process k" "idle_process (upd_pipe p f k) = idle_process k"
  "global_ticks (upd_pipe p f k) = global_ticks k" "kheap.truncate (upd_pipe p f k) = kheap.truncate k"
  "ipc.more (upd_pipe p f k) = ipc.more k"
  by (simp_all add: upd_pipe_def kheap.truncate_def)

lemma pipe_at_frame [simp]:
  "pipe_at (upd_proc a g k) = pipe_at k" "pipe_at (mlfq_enqueue a k) = pipe_at k"
  "pipe_at (snd (wait_queue_push wq a k)) = pipe_at k" "pipe_at (snd (snd (wait_queue_pop wq k))) = pipe_at k"
  by (rule ipc_more; simp)+

lemma pipe_at_push [simp]: "wait_queue_push wq a k = (wq', k') \<Longrightarrow> pipe_at k' = pipe_at k"
  using pipe_at_frame(3) [of wq a k] by simp

lemma pipe_at_pop [simp]: "wait_queue_pop wq k = (a, wq', k') \<Longrightarrow> pipe_at k' = pipe_at k"
  using pipe_at_frame(4) [of wq k] by simp

definition pipe_ok :: "pipe \<Rightarrow> bool" where
  "pipe_ok x \<longleftrightarrow> length (pi_buf x) = 512 \<and> unat (pi_tail x) < 512 \<and> unat (pi_count x) \<le> 512 \<and>
     unat (pi_head x) = (unat (pi_tail x) + unat (pi_count x)) mod 512"

definition in_flight :: "pipe \<Rightarrow> u8 list" where
  "in_flight x = ring_contents (pi_buf x) (unat (pi_tail x)) (unat (pi_count x))"

text \<open>The fields the waiting and waking of processes leaves alone.\<close>

definition pipe_core :: "pipe \<Rightarrow> u8 list \<times> u32 \<times> u32 \<times> u32 \<times> i32 \<times> i32" where
  "pipe_core x = (pi_buf x, pi_head x, pi_tail x, pi_count x, pi_readers x, pi_writers x)"

lemma pipe_coreD:
  assumes "pipe_core x = pipe_core y"
  shows "pipe_ok x = pipe_ok y" "in_flight x = in_flight y" "pi_count x = pi_count y" "pi_readers x = pi_readers y"
    "pi_writers x = pi_writers y"
  using assms by (auto simp: pipe_core_def pipe_ok_def in_flight_def)

lemma pipe_core_waits [simp]:
  "pipe_core (pipe_at (wake_writer p k) q) = pipe_core (pipe_at k q)"
  "pipe_core (pipe_at (wake_reader p k) q) = pipe_core (pipe_at k q)"
  "pipe_core (pipe_at (block_on_read p k) q) = pipe_core (pipe_at k q)"
  "pipe_core (pipe_at (block_on_write p k) q) = pipe_core (pipe_at k q)"
  by (auto simp: wake_writer_def wake_reader_def block_on_read_def block_on_write_def Let_def pipe_core_def
      split: prod.split)

lemmas pipe_waits = pipe_coreD [OF pipe_core_waits(1)] pipe_coreD [OF pipe_core_waits(2)]
  pipe_coreD [OF pipe_core_waits(3)] pipe_coreD [OF pipe_core_waits(4)]

lemma length_in_flight: "length (in_flight x) = unat (pi_count x)"
  by (simp add: in_flight_def)

lemma unat_inc_mod_512: "unat (w :: u32) < 512 \<Longrightarrow> unat ((w + 1) mod 512) = (unat w + 1) mod 512"
proof -
  assume "unat w < 512"
  then have "unat (w + 1) = unat w + 1" by (simp add: unat_word_ariths)
  then show ?thesis by (simp add: unat_mod)
qed

lemma mod_inc_dec: "0 < c \<Longrightarrow> ((t + 1) mod n + (c - 1)) mod n = (t + c) mod n" for t c n :: nat
  by (cases c) (simp_all add: mod_simps)

lemma take_byte_flight:
  assumes ok: "pipe_ok (pipe_at k p)" and c: "pi_count (pipe_at k p) > 0" and t: "take_byte p k = (b, k')"
  shows "pipe_ok (pipe_at k' p)" "in_flight (pipe_at k p) = b # in_flight (pipe_at k' p)"
proof -
  let ?x = "pipe_at k p"
  have cnt: "unat (pi_count ?x - 1) = unat (pi_count ?x) - 1" "0 < unat (pi_count ?x)"
    using c by (simp_all add: unat_minus_one unat_gt_0 word_gt_0)
  have tl: "unat ((pi_tail ?x + 1) mod 512) = (unat (pi_tail ?x) + 1) mod 512"
    using ok by (simp add: unat_inc_mod_512 pipe_ok_def)
  have hd: "((unat (pi_tail ?x) + 1) mod 512 + (unat (pi_count ?x) - 1)) mod 512 =
      (unat (pi_tail ?x) + unat (pi_count ?x)) mod 512"
    by (rule mod_inc_dec [OF cnt(2)])
  have b: "b = pi_buf ?x ! unat (pi_tail ?x)" and x': "pipe_at k' p =
      ?x\<lparr>pi_tail := (pi_tail ?x + 1) mod PIPE_BUF_SIZE, pi_count := pi_count ?x - 1\<rparr>"
    using t by (auto simp: take_byte_def Let_def)
  show "pipe_ok (pipe_at k' p)" using ok cnt hd by (simp add: pipe_ok_def x' tl le_diff_conv)
  show "in_flight ?x = b # in_flight (pipe_at k' p)"
    using ok ring_contents_get [OF cnt(2), of "unat (pi_tail ?x)" "pi_buf ?x"]
    by (simp add: in_flight_def pipe_ok_def cnt(1) tl x' b)
qed

lemma put_byte_flight:
  assumes ok: "pipe_ok (pipe_at k p)" and c: "pi_count (pipe_at k p) < PIPE_BUF_SIZE"
  shows "pipe_ok (pipe_at (put_byte p b k) p)"
    "in_flight (pipe_at (put_byte p b k) p) = in_flight (pipe_at k p) @ [b]"
proof -
  let ?x = "pipe_at k p"
  have lt: "unat (pi_count ?x) < 512" using c by (simp add: word_less_nat_alt)
  then have cnt: "unat (pi_count ?x + 1) = unat (pi_count ?x) + 1" by (simp add: unat_word_ariths)
  have h: "unat (pi_head ?x) < 512" using ok by (simp add: pipe_ok_def)
  have hd: "unat ((pi_head ?x + 1) mod 512) = (unat (pi_tail ?x) + Suc (unat (pi_count ?x))) mod 512"
    using ok unat_inc_mod_512 [OF h] by (simp add: pipe_ok_def mod_Suc_eq)
  show "pipe_ok (pipe_at (put_byte p b k) p)"
    using ok lt by (simp add: put_byte_def pipe_ok_def cnt hd)
  show "in_flight (pipe_at (put_byte p b k) p) = in_flight ?x @ [b]"
    using ok lt ring_contents_put [of "unat (pi_count ?x)" "pi_buf ?x" "unat (pi_tail ?x)" b]
    by (simp add: put_byte_def pipe_ok_def in_flight_def cnt)
qed

lemma take_byte_core:
  assumes "take_byte p k = (b, k')"
  shows "pi_writers (pipe_at k' q) = pi_writers (pipe_at k q)" "pi_readers (pipe_at k' q) = pi_readers (pipe_at k q)"
  using assms by (auto simp: take_byte_def Let_def)

text \<open>What a run of \<^verbatim>\<open>pipe_read\<close> delivers and why it stops.\<close>

lemma pipe_read_flight:
  assumes "pipe_ok (pipe_at k p)" "pipe_read p n k = (cs, r, k')"
  shows "pipe_ok (pipe_at k' p) \<and> in_flight (pipe_at k p) = cs @ in_flight (pipe_at k' p) \<and> length cs \<le> n \<and>
    (length cs < n \<longrightarrow> in_flight (pipe_at k' p) = []) \<and>
    (r = IoBlock \<longleftrightarrow> length cs < n \<and> pi_writers (pipe_at k p) \<noteq> 0)"
  using assms
proof (induction n arbitrary: k cs)
  case (Suc n)
  show ?case
  proof (cases "pi_count (pipe_at k p) > 0")
    case True
    obtain c k1 where t: "take_byte p k = (c, k1)" by fastforce
    obtain ds r1 k2 where rd: "pipe_read p n (wake_writer p k1) = (ds, r1, k2)" by (cases "pipe_read p n (wake_writer p k1)") auto
    have e: "cs = c # ds" "r1 = r" "k2 = k'" using Suc.prems(2) True t rd by auto
    note rd = rd [unfolded e(2,3)]
    note f = take_byte_flight [OF Suc.prems(1) True t]
    have "pipe_ok (pipe_at (wake_writer p k1) p)" using f(1) by (simp add: pipe_waits)
    from Suc.IH [OF this rd] show ?thesis using f(2) e by (auto simp: pipe_waits take_byte_core [OF t])
  next
    case False
    then have "in_flight (pipe_at k p) = []" by (simp add: word_gt_0 in_flight_def)
    then show ?thesis using Suc.prems False by (auto simp: pipe_waits split: if_splits)
  qed
qed simp

lemma pipe_write_flight:
  assumes "pipe_ok (pipe_at k p)" "pipe_write p cs k = (n, r, k')"
  shows "pipe_ok (pipe_at k' p) \<and> in_flight (pipe_at k' p) = in_flight (pipe_at k p) @ take n cs \<and> n \<le> length cs \<and>
    (r = WDone \<longleftrightarrow> n = length cs) \<and> (r = WBroken \<longleftrightarrow> n < length cs \<and> pi_readers (pipe_at k p) = 0) \<and>
    (r = WBlock \<longrightarrow> length (in_flight (pipe_at k' p)) = 512)"
  using assms
proof (induction cs arbitrary: k n)
  case (Cons c cs)
  let ?k = "wake_reader p (put_byte p c k)"
  consider "pi_readers (pipe_at k p) = 0" | "pi_readers (pipe_at k p) \<noteq> 0" "pi_count (pipe_at k p) < PIPE_BUF_SIZE"
    | "pi_readers (pipe_at k p) \<noteq> 0" "\<not> pi_count (pipe_at k p) < PIPE_BUF_SIZE" by blast
  then show ?case
  proof cases
    case 2
    obtain m r1 k2 where w: "pipe_write p cs ?k = (m, r1, k2)" by (cases "pipe_write p cs ?k") auto
    have e: "n = Suc m" "r1 = r" "k2 = k'" using Cons.prems(2) 2 w by auto
    note w = w [unfolded e(2,3)]
    note f = put_byte_flight [OF Cons.prems(1) 2(2), of c]
    have "pipe_ok (pipe_at ?k p)" using f(1) by (simp add: pipe_waits)
    from Cons.IH [OF this w] show ?thesis using f(2) e 2 by (auto simp: pipe_waits put_byte_def)
  next
    case 3
    have "unat (pi_count (pipe_at k p)) = 512"
      using 3(2) Cons.prems(1) by (simp add: pipe_ok_def word_less_nat_alt)
    then show ?thesis using Cons.prems 3 by (auto simp: pipe_waits length_in_flight)
  qed (use Cons.prems in auto)
qed auto

section \<open>Waking everyone\<close>

text \<open>Processes that may be put on a ready queue.\<close>

definition wakeable :: "'a tasks_scheme \<Rightarrow> (nat \<Rightarrow> addr list) \<Rightarrow> addr list \<Rightarrow> bool" where
  "wakeable k Q xs \<longleftrightarrow> (\<forall>p \<in> set xs. p_state (proc k p) \<noteq> PROCESS_DEAD \<and>
     unat (p_priority (proc k p)) < NUM_QUEUES \<and> p \<notin> ready_set Q)"

text \<open>The ready queues after the processes \<open>xs\<close> were appended to theirs, in order.\<close>

definition woken :: "'a tasks_scheme \<Rightarrow> addr list \<Rightarrow> (nat \<Rightarrow> addr list) \<Rightarrow> nat \<Rightarrow> addr list" where
  "woken k xs Q i = Q i @ filter (\<lambda>p. unat (p_priority (proc k p)) = i) xs"

lemma ready_set_woken: "wakeable k Q xs \<Longrightarrow> ready_set (woken k xs Q) = ready_set Q \<union> set xs"
  by (auto simp: ready_in_def woken_def wakeable_def)

lemma wq_rep_facts: "wq_rep k wq xs \<Longrightarrow> distinct xs \<and> NULL \<notin> set xs"
  by (auto simp: wq_rep_def dest: dqueue_distinct)

text \<open>What waking leaves alone: everything but the links and the state of the processes.\<close>

definition wake_frame :: "'a tasks_scheme \<Rightarrow> 'a tasks_scheme \<Rightarrow> bool" where
  "wake_frame k k' \<longleftrightarrow> kheap.truncate k' = kheap.truncate k \<and> tasks.more k' = tasks.more k \<and>
     global_ticks k' = global_ticks k \<and> current_process k' = current_process k \<and> idle_process k' = idle_process k \<and>
     (\<forall>a. same_process (proc k' a) (proc k a))"

lemma wake_frame_refl [simp]: "wake_frame k k"
  by (simp add: wake_frame_def)

lemma wake_frame_trans: "wake_frame k k' \<Longrightarrow> wake_frame k' k'' \<Longrightarrow> wake_frame k k''"
  by (simp add: wake_frame_def same_process_def)

lemma wake_frame_ops [simp]:
  "wake_frame k (mlfq_enqueue p k)" "wake_frame k (snd (snd (wait_queue_pop wq k)))"
  "wake_frame k (snd (wait_queue_push wq p k))"
  by (simp_all add: wake_frame_def)

lemma wake_frame_prio: "wake_frame k k' \<Longrightarrow> p_priority (proc k' a) = p_priority (proc k a)"
  unfolding wake_frame_def by (blast dest: same_processD(6))

lemma wait_queue_pop_links:
  assumes "wq_rep k wq (p # xs)" "a \<notin> set (p # xs)"
  shows "wnx (snd (snd (wait_queue_pop wq k))) a = wnx k a" "wpv (snd (snd (wait_queue_pop wq k))) a = wpv k a"
proof -
  have q: "dqueue (wnx k) (wpv k) (wq_head wq) (wq_tail wq) (p # xs)" using assms(1) by (simp add: wq_rep_def)
  have h: "wq_head wq = p" and n: "wnx k p = hd (xs @ [NULL])"
    using q by (auto simp: dqueue_def dlist_def)
  have "wnx k p \<noteq> NULL \<Longrightarrow> wnx k p \<in> set xs" using n by (cases xs) auto
  then show "wnx (snd (snd (wait_queue_pop wq k))) a = wnx k a" "wpv (snd (snd (wait_queue_pop wq k))) a = wpv k a"
    using h assms(2) by (auto simp: wait_queue_pop_def Let_def)
qed

lemma wake_all_rep:
  assumes "wq_rep k wq xs" "mlfq_rep k Q" "wakeable k Q xs"
  shows "\<exists>wq' k'. wake_all wq k = Some (wq', k') \<and> wq_rep k' wq' [] \<and> mlfq_rep k' (woken k xs Q) \<and> wake_frame k k' \<and>
    (\<forall>a. a \<notin> set xs \<longrightarrow> wnx k' a = wnx k a \<and> wpv k' a = wpv k a \<and> p_state (proc k' a) = p_state (proc k a)) \<and>
    (\<forall>a \<in> set xs. p_state (proc k' a) = PROCESS_READY)"
  using assms
proof (induction xs arbitrary: k wq Q)
  case Nil
  have "woken k [] Q = Q" by (simp add: woken_def fun_eq_iff)
  then show ?case using Nil wait_queue_pop_empty [OF Nil(1)]
    by (intro exI [of _ wq] exI [of _ k]) (simp add: wake_all.simps [of wq k])
next
  case (Cons p xs)
  let ?i = "unat (p_priority (proc k p))"
  obtain p' wq1 k1 where pop: "wait_queue_pop wq k = (p', wq1, k1)" by (cases "wait_queue_pop wq k") auto
  have p': "p' = p" and r1: "wq_rep k1 wq1 xs" using wait_queue_pop_rep [OF Cons.prems(1)] pop by auto
  have d: "p \<notin> set xs" "p \<noteq> NULL" using wq_rep_facts [OF Cons.prems(1)] by auto
  have f1: "wake_frame k k1" using wake_frame_ops(2) [of k wq] pop by simp
  have k1: "mlfq k1 = mlfq k" "\<And>a. qnx k1 a = qnx k a" "\<And>a. qpv k1 a = qpv k a"
    "\<And>a. p_state (proc k1 a) = p_state (proc k a)"
    using wait_queue_pop_frame [of wq k] pop by simp_all
  have m1: "mlfq_rep k1 Q"
    by (rule levels_rep_cong [OF Cons.prems(2)])
      (use k1 levels_rep_length [OF Cons.prems(2)] wake_frame_prio [OF f1] in auto)
  let ?k = "mlfq_enqueue p k1" and ?Q = "Q(?i := Q ?i @ [p])"
  have w: "p_state (proc k1 p) \<noteq> PROCESS_DEAD" "?i < NUM_QUEUES" "p \<notin> ready_set Q"
    using Cons.prems(3) k1(4) by (auto simp: wakeable_def)
  have m2: "mlfq_rep ?k ?Q"
    using mlfq_enqueue_levels [OF m1 subset_refl, of p] w d wake_frame_prio [OF f1, of p] by simp
  have f2: "wake_frame k ?k" by (rule wake_frame_trans [OF f1 wake_frame_ops(1)])
  have r2: "wq_rep ?k wq1 xs" using r1 wq_rep_cong [of xs ?k k1 wq1] by simp
  have st2: "p_state (proc ?k a) = p_state (proc k a)" if "a \<noteq> p" for a using that k1(4) by simp
  have w2: "wakeable ?k ?Q xs"
    unfolding wakeable_def
  proof
    fix a assume a: "a \<in> set xs"
    have "a \<noteq> p" using a d by auto
    then show "p_state (proc ?k a) \<noteq> PROCESS_DEAD \<and> unat (p_priority (proc ?k a)) < NUM_QUEUES \<and> a \<notin> ready_set ?Q"
      using Cons.prems(3) a w(2) st2 [of a] wake_frame_prio [OF f2] ready_in_snoc [of ?i "{..<NUM_QUEUES}" Q p]
      by (simp add: wakeable_def)
  qed
  from Cons.IH [OF r2 m2 w2] obtain wq' k' where IH: "wake_all wq1 ?k = Some (wq', k')" "wq_rep k' wq' []"
    "mlfq_rep k' (woken ?k xs ?Q)" "wake_frame ?k k'"
    "\<forall>a. a \<notin> set xs \<longrightarrow> wnx k' a = wnx ?k a \<and> wpv k' a = wpv ?k a \<and> p_state (proc k' a) = p_state (proc ?k a)"
    "\<forall>a \<in> set xs. p_state (proc k' a) = PROCESS_READY" by blast
  have "wake_all wq k = Some (wq', k')" using IH(1) pop p' d by (simp add: wake_all.simps [of wq k])
  moreover have "mlfq_rep k' (woken k (p # xs) Q)"
    by (rule levels_rep_eq [OF IH(3)]) (auto simp: woken_def wake_frame_prio [OF f2])
  moreover have "p_state (proc ?k p) = PROCESS_READY"
    by (rule mlfq_enqueue_level(5) [OF levels_repD(1) [OF m1], of ?i])
      (use w d levels_rep_length [OF m1] wake_frame_prio [OF f1, of p] in \<open>auto simp: ready_in_def\<close>)
  moreover have "wnx ?k a = wnx k a \<and> wpv ?k a = wpv k a" if "a \<notin> set (p # xs)" for a
    using wait_queue_pop_links [OF Cons.prems(1) that] pop by simp
  ultimately have goal: "wake_all wq k = Some (wq', k')" "mlfq_rep k' (woken k (p # xs) Q)"
    "p_state (proc k' p) = PROCESS_READY"
    "\<And>a. a \<notin> set (p # xs) \<Longrightarrow> wnx k' a = wnx k a \<and> wpv k' a = wpv k a \<and> p_state (proc k' a) = p_state (proc k a)"
    using IH(5) d st2 by simp_all
  show ?case
  proof (rule exI [of _ wq'], rule exI [of _ k'], intro conjI)
    show "wake_frame k k'" by (rule wake_frame_trans [OF f2 IH(4)])
    show "\<forall>a. a \<notin> set (p # xs) \<longrightarrow> wnx k' a = wnx k a \<and> wpv k' a = wpv k a \<and> p_state (proc k' a) = p_state (proc k a)"
      using goal(4) by blast
    show "\<forall>a \<in> set (p # xs). p_state (proc k' a) = PROCESS_READY" using goal(3) IH(6) by simp
  qed (fact goal(1) IH(2) goal(2))+
qed

section \<open>Closing an end\<close>

text \<open>
  A pipe in use: its ring is consistent and its two queues hold processes that are alive and on no other queue.
\<close>

definition pipe_rep :: "'a ipc_scheme \<Rightarrow> (nat \<Rightarrow> addr list) \<Rightarrow> addr \<Rightarrow> addr list \<Rightarrow> addr list \<Rightarrow> bool" where
  "pipe_rep k Q p rs ws \<longleftrightarrow> pipe_ok (pipe_at k p) \<and> wq_rep k (pi_read_waiters (pipe_at k p)) rs \<and>
     wq_rep k (pi_write_waiters (pipe_at k p)) ws \<and> wakeable k Q rs \<and> wakeable k Q ws \<and> set rs \<inter> set ws = {}"

lemma wakeable_frame:
  assumes "wakeable k Q xs" "wake_frame k k'" "\<And>a. a \<in> set xs \<Longrightarrow> p_state (proc k' a) = p_state (proc k a)"
    "\<And>a. a \<in> set xs \<Longrightarrow> a \<notin> ready_set Q'"
  shows "wakeable k' Q' xs"
  using assms wake_frame_prio [OF assms(2)] by (simp add: wakeable_def)

lemma mlfq_rep_pipe [simp]: "levels_rep (upd_pipe p f k) J Q = levels_rep k J Q"
  by (simp add: levels_rep_def level_rep_def)

lemma wq_rep_pipe [simp]: "wq_rep (upd_pipe p f k) wq xs = wq_rep k wq xs"
  by (simp add: wq_rep_def)

lemma wakeable_pipe [simp]: "wakeable (upd_pipe p f k) Q xs = wakeable k Q xs"
  by (simp add: wakeable_def)

lemma woken_pipe [simp]: "woken (upd_pipe p f k) xs Q = woken k xs Q"
  by (simp add: woken_def fun_eq_iff)

text \<open>Both queues emptied, in the order the source empties them.\<close>

lemma wake_both:
  assumes r: "wq_rep k wq ws" "wq_rep k wq' rs" and m: "mlfq_rep k Q" and w: "wakeable k Q rs" "wakeable k Q ws"
    and d: "set rs \<inter> set ws = {}"
  obtains v k1 v' k2 where "wake_all wq k = Some (v, k1)" "wake_all wq' (upd_pipe p (g v) k1) = Some (v', k2)"
    "wq_rep k2 v []" "wq_rep k2 v' []" "mlfq_rep k2 (woken k rs (woken k ws Q))"
    "\<And>a. a \<in> set rs \<union> set ws \<Longrightarrow> p_state (proc k2 a) = PROCESS_READY"
    "\<And>a. a \<notin> set rs \<union> set ws \<Longrightarrow> p_state (proc k2 a) = p_state (proc k a)"
    "wake_frame k k1" "wake_frame (upd_pipe p (g v) k1) k2" "wq_head v = NULL" "wq_head v' = NULL"
proof -
  obtain v k1 where 1: "wake_all wq k = Some (v, k1)" "wq_rep k1 v []" "mlfq_rep k1 (woken k ws Q)" "wake_frame k k1"
    "\<And>a. a \<notin> set ws \<Longrightarrow> wnx k1 a = wnx k a \<and> wpv k1 a = wpv k a \<and> p_state (proc k1 a) = p_state (proc k a)"
    "\<And>a. a \<in> set ws \<Longrightarrow> p_state (proc k1 a) = PROCESS_READY"
    using wake_all_rep [OF r(1) m w(2)] by blast
  let ?k = "upd_pipe p (g v) k1"
  have dj: "a \<notin> set ws" if "a \<in> set rs" for a using d that by auto
  have "wq_rep k1 wq' rs" using r(2) wq_rep_cong [of rs k1 k wq'] 1(5) dj by simp
  then have r2: "wq_rep ?k wq' rs" by simp
  have "wakeable k1 (woken k ws Q) rs"
    by (rule wakeable_frame [OF w(1) 1(4)]) (use 1(5) dj w in \<open>auto simp: ready_set_woken wakeable_def\<close>)
  then have w2: "wakeable ?k (woken k ws Q) rs" by simp
  have m2: "mlfq_rep ?k (woken k ws Q)" using 1(3) by simp
  obtain v' k2 where 2: "wake_all wq' ?k = Some (v', k2)" "wq_rep k2 v' []" "mlfq_rep k2 (woken ?k rs (woken k ws Q))"
    "wake_frame ?k k2"
    "\<And>a. a \<notin> set rs \<Longrightarrow> wnx k2 a = wnx ?k a \<and> wpv k2 a = wpv ?k a \<and> p_state (proc k2 a) = p_state (proc ?k a)"
    "\<And>a. a \<in> set rs \<Longrightarrow> p_state (proc k2 a) = PROCESS_READY"
    using wake_all_rep [OF r2 m2 w2] by blast
  have pr: "p_priority (proc k1 a) = p_priority (proc k a)" for a by (rule wake_frame_prio [OF 1(4)])
  have "woken k1 rs (woken k ws Q) = woken k rs (woken k ws Q)" by (simp add: woken_def pr fun_eq_iff)
  then have "mlfq_rep k2 (woken k rs (woken k ws Q))" using 2(3) by simp
  moreover have "wq_rep k2 v []" "wq_head v = NULL" using 1(2) by (simp_all add: wq_rep_def)
  moreover have "wq_head v' = NULL" using 2(2) by (simp add: wq_rep_def)
  moreover have "p_state (proc k2 a) = PROCESS_READY" if "a \<in> set rs \<union> set ws" for a
    using that 2(5,6) 1(6) by (cases "a \<in> set rs") auto
  moreover have "p_state (proc k2 a) = p_state (proc k a)" if "a \<notin> set rs \<union> set ws" for a
    using that 2(5) 1(5) by auto
  ultimately show thesis using that 1(1,4) 2(1,2,4) by blast
qed

lemma kfree_tasks [simp]:
  "proc (kfree p k) = proc k" "mlfq (kfree p k) = mlfq k" "global_ticks (kfree p k) = global_ticks k"
  "current_process (kfree p k) = current_process k" "idle_process (kfree p k) = idle_process k"
  "tasks.more (kfree p k) = tasks.more k"
  using more_kfree [of p k] by (cases "kfree p k"; cases k; simp)+

lemma mlfq_rep_kfree [simp]: "levels_rep (kfree p k) J Q = levels_rep k J Q"
  by (simp add: levels_rep_def level_rep_def)

lemma wq_rep_kfree [simp]: "wq_rep (kfree p k) wq xs = wq_rep k wq xs"
  by (simp add: wq_rep_def)

lemma pipe_at_kfree [simp]: "pipe_at (kfree p k) = pipe_at k"
  by (rule ipc_more) simp

lemma wake_frame_pipe: "wake_frame k k' \<Longrightarrow> pipe_at k' = pipe_at k"
  by (rule ipc_more) (simp add: wake_frame_def)

text \<open>Dropping one reference, never below zero.\<close>

definition drop_end :: "bool \<Rightarrow> pipe \<Rightarrow> pipe" where
  "drop_end is_read_end x =
     (if is_read_end then x\<lparr>pi_readers := (if sint (pi_readers x) > 0 then pi_readers x - 1 else pi_readers x)\<rparr>
      else x\<lparr>pi_writers := (if sint (pi_writers x) > 0 then pi_writers x - 1 else pi_writers x)\<rparr>)"

lemma drop_end_waiters [simp]:
  "pi_read_waiters (drop_end b x) = pi_read_waiters x" "pi_write_waiters (drop_end b x) = pi_write_waiters x"
  "pi_buf (drop_end b x) = pi_buf x" "pi_count (drop_end b x) = pi_count x"
  "pi_tail (drop_end b x) = pi_tail x" "pi_head (drop_end b x) = pi_head x"
  by (simp_all add: drop_end_def)

lemma close_end_drop:
  "(if is_read_end
    then (if sint (pi_readers (pipe_at k p)) > 0 then upd_pipe p (\<lambda>x. x\<lparr>pi_readers := pi_readers x - 1\<rparr>) k else k)
    else (if sint (pi_writers (pipe_at k p)) > 0 then upd_pipe p (\<lambda>x. x\<lparr>pi_writers := pi_writers x - 1\<rparr>) k else k)) =
   upd_pipe p (drop_end is_read_end) k"
  by (auto simp: upd_pipe_def drop_end_def)

lemma pipe_close_end_rep:
  assumes r: "pipe_rep k Q p rs ws" and m: "mlfq_rep k Q"
  obtains k' where "pipe_close_end p b k = Some k'" "mlfq_rep k' (woken k rs (woken k ws Q))"
    "pipe_rep k' (woken k rs (woken k ws Q)) p [] []"
    "pipe_core (pipe_at k' p) = pipe_core (drop_end b (pipe_at k p))"
    "\<And>a. a \<in> set rs \<union> set ws \<Longrightarrow> p_state (proc k' a) = PROCESS_READY"
    "\<And>a. a \<notin> set rs \<union> set ws \<Longrightarrow> p_state (proc k' a) = p_state (proc k a)"
    "\<And>q. q \<noteq> p \<Longrightarrow> pipe_at k' q = pipe_at k q" "\<And>a. same_process (proc k' a) (proc k a)"
    "\<exists>k5. kheap.truncate k5 = kheap.truncate k \<and> k' = (if pi_readers (drop_end b (pipe_at k p)) = 0 \<and>
       pi_writers (drop_end b (pipe_at k p)) = 0 then kfree p k5 else k5)"
proof -
  let ?x = "pipe_at k p" and ?k = "upd_pipe p (drop_end b) k"
  let ?f = "pi_readers (drop_end b ?x) = 0 \<and> pi_writers (drop_end b ?x) = 0"
  have r': "wq_rep ?k (pi_write_waiters ?x) ws" "wq_rep ?k (pi_read_waiters ?x) rs" "mlfq_rep ?k Q"
    "wakeable ?k Q rs" "wakeable ?k Q ws" "set rs \<inter> set ws = {}" using r m by (simp_all add: pipe_rep_def)
  obtain v k1 v' k2 where w: "wake_all (pi_write_waiters ?x) ?k = Some (v, k1)"
      "wake_all (pi_read_waiters ?x) (upd_pipe p (pi_write_waiters_update (\<lambda>_. v)) k1) = Some (v', k2)"
      "wq_rep k2 v []" "wq_rep k2 v' []" "mlfq_rep k2 (woken ?k rs (woken ?k ws Q))"
      "\<And>a. a \<in> set rs \<union> set ws \<Longrightarrow> p_state (proc k2 a) = PROCESS_READY"
      "\<And>a. a \<notin> set rs \<union> set ws \<Longrightarrow> p_state (proc k2 a) = p_state (proc ?k a)"
      "wake_frame ?k k1" "wake_frame (upd_pipe p (pi_write_waiters_update (\<lambda>_. v)) k1) k2"
    using wake_both [OF r', of p "\<lambda>v. pi_write_waiters_update (\<lambda>_. v)"] by metis
  let ?k5 = "upd_pipe p (pi_read_waiters_update (\<lambda>_. v')) k2"
  let ?k' = "if ?f then kfree p ?k5 else ?k5"
  have p1: "pipe_at k1 = pipe_at ?k" by (rule wake_frame_pipe [OF w(8)])
  have p2: "pipe_at k2 = (pipe_at ?k)(p := (drop_end b ?x)\<lparr>pi_write_waiters := v\<rparr>)"
    using wake_frame_pipe [OF w(9)] p1 by (simp add: fun_eq_iff)
  have px: "pipe_at ?k5 p = (drop_end b ?x)\<lparr>pi_write_waiters := v, pi_read_waiters := v'\<rparr>" by (simp add: p2)
  have e: "pipe_close_end p b k = Some ?k'"
    using w(1,2) by (simp add: pipe_close_end_def close_end_drop Let_def p1)
  have t: "kheap.truncate ?k5 = kheap.truncate k" using w(8,9) by (simp add: wake_frame_def)
  have sp: "same_process (proc ?k5 a) (proc k a)" for a
    using w(8,9) same_process_trans by (fastforce simp: wake_frame_def)
  have c: "pipe_core (pipe_at ?k5 p) = pipe_core (drop_end b ?x)" unfolding px by (simp add: pipe_core_def)
  have ok: "pipe_ok (pipe_at ?k5 p)" unfolding px using r by (simp add: pipe_rep_def pipe_ok_def)
  have rep: "pipe_rep ?k5 (woken k rs (woken k ws Q)) p [] []"
    unfolding pipe_rep_def px using ok [unfolded px] w(3,4) by (simp add: wakeable_def)
  have f: "proc ?k' = proc ?k5" "pipe_at ?k' = pipe_at ?k5" "mlfq ?k' = mlfq ?k5" by simp_all
  show thesis
  proof (rule that [of ?k'])
    show "pipe_close_end p b k = Some ?k'" by (rule e)
    show "mlfq_rep ?k' (woken k rs (woken k ws Q))" using w(5) by simp
    show "pipe_rep ?k' (woken k rs (woken k ws Q)) p [] []"
      using rep by (simp add: pipe_rep_def wakeable_def)
    show "pipe_core (pipe_at ?k' p) = pipe_core (drop_end b ?x)" unfolding f by (rule c)
    show "p_state (proc ?k' a) = PROCESS_READY" if "a \<in> set rs \<union> set ws" for a unfolding f using w(6) [OF that] by simp
    show "p_state (proc ?k' a) = p_state (proc k a)" if "a \<notin> set rs \<union> set ws" for a
      unfolding f using w(7) [OF that] by simp
    show "pipe_at ?k' q = pipe_at k q" if "q \<noteq> p" for q unfolding f using that by (simp add: p2)
    show "same_process (proc ?k' a) (proc k a)" for a unfolding f by (rule sp)
    show "\<exists>k5. kheap.truncate k5 = kheap.truncate k \<and> ?k' = (if ?f then kfree p k5 else k5)" using t by blast
  qed
qed

end
