(* ===== verification/Sched_Props.thy ===== *)
theory Sched_Props
  imports Pipe Slab_Props
begin

text \<open>
  Properties of the ready queues, the wait queues and the pipes: the scheduler always picks the first process of the
  highest non-empty priority level, picks every ready process, and its boost ends; pipes neither lose nor reorder
  bytes, and closing an end wakes everyone that waits.
\<close>

section \<open>Concrete states\<close>

text \<open>Three processes; 0x1000 and 0x2000 wait at the priorities 2 and 0, 0x3000 is the idle process.\<close>

definition proc0 :: "addr \<Rightarrow> process" where
  "proc0 a = (if a = 0x1000 then zero_process\<lparr>p_pid := 1, p_priority := 2\<rparr>
     else if a = 0x2000 then zero_process\<lparr>p_pid := 2\<rparr>
     else zero_process\<lparr>p_state := PROCESS_RUNNING, p_priority := 3\<rparr>)"

definition tasks0 :: tasks where
  "tasks0 = mlfq_init (kheap.extend heap0 (tasks.fields proc0 [] 0 0x3000 0x3000))"

definition ipc0 :: ipc where
  "ipc0 = tasks.extend tasks0 (ipc.fields (\<lambda>_. new_pipe))"

definition tasks1 :: tasks where
  "tasks1 = mlfq_enqueue 0x2000 (mlfq_enqueue 0x1000 tasks0)"

lemma tasks0_rep: "mlfq_rep tasks0 (\<lambda>_. [])"
  unfolding tasks0_def by (rule mlfq_init_rep)

lemma tasks0_proc [simp]: "proc tasks0 = proc0"
  by (simp add: tasks0_def mlfq_init_def kheap.extend_def tasks.fields_def)

lemma tasks1_rep: "mlfq_rep tasks1 ((\<lambda>_. [])(2 := [0x1000], 0 := [0x2000]))"
proof -
  have 1: "mlfq_rep (mlfq_enqueue 0x1000 tasks0) ((\<lambda>_. [])(2 := [0x1000]))"
    using mlfq_enqueue_levels [OF tasks0_rep subset_refl, of "0x1000"]
    by (simp add: proc0_def zero_process_def ready_in_def)
  have p: "p_priority (proc (mlfq_enqueue 0x1000 tasks0) 0x2000) = 0"
    using same_processD(6) [OF mlfq_enqueue_frame(1), of "0x1000" tasks0 "0x2000"] by (simp add: proc0_def zero_process_def)
  show ?thesis
    using mlfq_enqueue_levels [OF 1 subset_refl, of "0x2000"] p
    by (simp add: tasks1_def proc0_def zero_process_def ready_in_def split: if_splits)
qed

section \<open>Ready queues\<close>

text \<open>
  C19: \<^verbatim>\<open>mlfq_pick_next\<close> takes the first process of the non-empty level of highest priority and leaves every other ready
  process where it was; it returns \<^verbatim>\<open>NULL\<close>, and changes nothing, exactly when no process is ready.
\<close>

theorem mlfq_pick_next_highest:
  assumes r: "mlfq_rep k Q"
  shows "if ready_set Q = {} then mlfq_pick_next k = (NULL, k)
    else \<exists>i p xs k'. i < NUM_QUEUES \<and> Q i = p # xs \<and> concat (map Q [0..<i]) = [] \<and> mlfq_pick_next k = (p, k') \<and>
      p \<noteq> NULL \<and> mlfq_rep k' (Q(i := xs))"
proof (cases "ready_set Q = {}")
  case True
  then have "Q i = []" if "i < NUM_QUEUES" for i using that by (auto simp: ready_in_def)
  then show ?thesis using True mlfq_pick_next_none [OF r] by simp
next
  case False
  define i where "i = (LEAST i. i < NUM_QUEUES \<and> Q i \<noteq> [])"
  have ex: "\<exists>i. i < NUM_QUEUES \<and> Q i \<noteq> []" using False by (fastforce simp: ready_in_def)
  have i: "i < NUM_QUEUES" "Q i \<noteq> []" unfolding i_def using LeastI_ex [OF ex] by auto
  have lo: "Q j = []" if "j < i" for j
    using not_less_Least [OF that [unfolded i_def]] that i(1) by auto
  obtain p xs where q: "Q i = p # xs" using i(2) by (cases "Q i") auto
  obtain p' k' where e: "mlfq_pick_next k = (p', k')" by fastforce
  have "p' = p" "mlfq_rep k' (Q(i := xs))" using mlfq_pick_next_some [OF r i(1) q lo] e by simp_all
  moreover have "p \<noteq> NULL" using levels_repD(6) [OF r, of i] i q by auto
  moreover have "concat (map Q [0..<i]) = []" using lo by simp
  ultimately have "\<exists>i p xs k'. i < NUM_QUEUES \<and> Q i = p # xs \<and> concat (map Q [0..<i]) = [] \<and>
      mlfq_pick_next k = (p, k') \<and> p \<noteq> NULL \<and> mlfq_rep k' (Q(i := xs))" using i(1) q e by blast
  then show ?thesis using False by (simp only: if_False)
qed

theorem mlfq_pick_next_highest_witness:
  "\<exists>k'. mlfq_pick_next tasks1 = (0x2000, k') \<and> mlfq_rep k' ((\<lambda>_. [])(2 := [0x1000], 0 := []))"
proof -
  let ?Q = "(\<lambda>_. [])(2 := [0x1000], 0 := [0x2000]) :: nat \<Rightarrow> addr list"
  have ne: "ready_set ?Q \<noteq> {}" by (auto simp: ready_in_def intro!: bexI [of _ 0])
  obtain i p xs k' where i: "i < NUM_QUEUES" "?Q i = p # xs" "concat (map ?Q [0..<i]) = []"
    "mlfq_pick_next tasks1 = (p, k')" "mlfq_rep k' (?Q(i := xs))"
    using mlfq_pick_next_highest [OF tasks1_rep] ne by (simp only: if_False) blast
  have "i = 0" using i(3) by (cases i) (simp_all add: upt_conv_Cons del: upt_Suc)
  then show ?thesis using i by (auto intro!: exI [of _ k'] intro: levels_rep_eq)
qed

text \<open>Picking repeatedly, as successive context switches do while nothing becomes ready.\<close>

fun pick_n :: "nat \<Rightarrow> 'a tasks_scheme \<Rightarrow> addr list" where
  "pick_n 0 k = []"
| "pick_n (Suc n) k = (case mlfq_pick_next k of (p, k') \<Rightarrow> p # pick_n n k')"

definition all_ready :: "(nat \<Rightarrow> addr list) \<Rightarrow> addr list" where
  "all_ready Q = Q 0 @ Q 1 @ Q 2 @ Q 3"

lemma pick_step:
  assumes r: "mlfq_rep k Q" and q: "all_ready Q = p # ps"
  shows "\<exists>k' Q'. mlfq_pick_next k = (p, k') \<and> mlfq_rep k' Q' \<and> all_ready Q' = ps"
proof -
  have step: "\<exists>k' Q'. mlfq_pick_next k = (p, k') \<and> mlfq_rep k' Q' \<and> all_ready Q' = ps"
    if "i < NUM_QUEUES" "Q i = p # xs" "\<And>j. j < i \<Longrightarrow> Q j = []" "all_ready (Q(i := xs)) = ps" for i xs
  proof -
    obtain p' k' where e: "mlfq_pick_next k = (p', k')" by fastforce
    show ?thesis using mlfq_pick_next_some [OF r that(1-3)] e that(4) by auto
  qed
  consider xs where "Q 0 = p # xs" | "Q 0 = []" "Q 1 \<noteq> []" | "Q 0 = []" "Q 1 = []" "Q 2 \<noteq> []"
    | "Q 0 = []" "Q 1 = []" "Q 2 = []" "Q 3 \<noteq> []"
    using q by (cases "Q 0"; cases "Q 1 = []"; cases "Q 2 = []") (auto simp: all_ready_def)
  then show ?thesis
  proof cases
    case 1
    then show ?thesis using q by (intro step [of 0 xs]) (auto simp: all_ready_def)
  next
    case 2
    then obtain xs where "Q 1 = p # xs" using q by (cases "Q 1") (auto simp: all_ready_def)
    then show ?thesis using q 2 by (intro step [of 1 xs]) (auto simp: all_ready_def)
  next
    case 3
    then obtain xs where "Q 2 = p # xs" using q by (cases "Q 2") (auto simp: all_ready_def)
    then show ?thesis using q 3 by (intro step [of 2 xs]) (auto simp: all_ready_def less_2_cases_iff)
  next
    case 4
    then obtain xs where "Q 3 = p # xs" using q by (cases "Q 3") (auto simp: all_ready_def)
    moreover have "j < 3 \<Longrightarrow> Q j = []" for j using 4 by (cases "j = 0"; cases "j = 1"; cases "j = 2") auto
    ultimately show ?thesis using q 4 by (intro step [of 3 xs]) (auto simp: all_ready_def)
  qed
qed

text \<open>
  C20: If no process becomes ready in between, successive picks return every ready process, each exactly once, in the
  order of the levels and first-in first-out within a level.
\<close>

theorem every_ready_process_is_picked:
  assumes "mlfq_rep k Q"
  shows "pick_n (length (all_ready Q)) k = all_ready Q \<and> set (all_ready Q) = ready_set Q"
proof
  have "mlfq_rep k Q \<Longrightarrow> all_ready Q = ps \<Longrightarrow> pick_n (length ps) k = ps" for ps
  proof (induction ps arbitrary: k Q)
    case (Cons p ps)
    then show ?case using pick_step [OF Cons.prems] by fastforce
  qed simp
  then show "pick_n (length (all_ready Q)) k = all_ready Q" using assms by blast
  have "{..<4} = {0, 1, 2, 3 :: nat}" by auto
  then show "set (all_ready Q) = ready_set Q" by (simp add: all_ready_def ready_in_def Un_assoc)
qed

theorem every_ready_process_is_picked_witness: "pick_n 2 tasks1 = [0x2000, 0x1000]"
  using every_ready_process_is_picked [OF tasks1_rep] by (simp add: all_ready_def numeral_2_eq_2)

text \<open>
  C21: The loops of \<^verbatim>\<open>mlfq_boost_all\<close> end, although they relink the processes while they walk the queues, and afterwards
  every process that was ready is on level 0, after those already there, in the order of the levels; the running
  process, the wait queues and all other fields of the processes than priority and ticks are untouched.
\<close>

theorem boost_ends_at_level_0:
  assumes "mlfq_rep k Q"
  shows "\<exists>k'. mlfq_boost_all k = Some k' \<and> mlfq_rep k' (\<lambda>i. if i = 0 then all_ready Q else []) \<and> sched_frame k k'"
proof -
  obtain k' where "mlfq_boost_all k = Some k'" "mlfq_rep k' (boosted Q)" "sched_frame k k'"
    by (rule mlfq_boost_all_rep [OF assms])
  moreover have "boosted Q = (\<lambda>i. if i = 0 then all_ready Q else [])" by (simp add: fun_eq_iff boosted_def all_ready_def)
  ultimately show ?thesis by auto
qed

theorem boost_ends_at_level_0_witness:
  "\<exists>k'. mlfq_boost_all tasks1 = Some k' \<and> mlfq_rep k' (\<lambda>i. if i = 0 then [0x2000, 0x1000] else [])"
proof -
  have e: "all_ready ((\<lambda>_. [])(2 := [0x1000], 0 := [0x2000])) = [0x2000, 0x1000]" by (simp add: all_ready_def)
  show ?thesis using boost_ends_at_level_0 [OF tasks1_rep] unfolding e by blast
qed

section \<open>Pipes\<close>

text \<open>
  Reads and writes of one pipe in any interleaving, with the bytes written and the bytes read so far. Between them
  the other processes do anything that leaves the pipe's ring alone.
\<close>

inductive pipe_trace :: "addr \<Rightarrow> 'a ipc_scheme \<Rightarrow> 'a ipc_scheme \<Rightarrow> u8 list \<Rightarrow> u8 list \<Rightarrow> bool"
  for p :: addr and k0 :: "'a ipc_scheme" where
  trace_start: "pipe_trace p k0 k0 [] []"
| trace_read: "pipe_trace p k0 k sent got \<Longrightarrow> pipe_read p n k = (cs, r, k') \<Longrightarrow> pipe_trace p k0 k' sent (got @ cs)"
| trace_write: "pipe_trace p k0 k sent got \<Longrightarrow> pipe_write p cs k = (n, r, k') \<Longrightarrow> pipe_trace p k0 k' (sent @ take n cs) got"
| trace_other: "pipe_trace p k0 k sent got \<Longrightarrow> pipe_core (pipe_at k' p) = pipe_core (pipe_at k p) \<Longrightarrow>
    pipe_trace p k0 k' sent got"

lemma new_pipe_ok [simp]: "pipe_ok new_pipe" "in_flight new_pipe = []"
  by (simp_all add: new_pipe_def pipe_ok_def in_flight_def)

lemma ipc0_pipe [simp]: "pipe_at ipc0 p = new_pipe"
  by (simp add: ipc0_def tasks.extend_def ipc.fields_def)

text \<open>
  C17: Whatever the interleaving of reads and writes, and wherever they block, the bytes read from a pipe followed by
  the at most 512 bytes in its buffer are the bytes that were in it at the start followed by those written to it:
  no byte is lost, duplicated or reordered.
\<close>

theorem pipe_fifo:
  assumes "pipe_trace p k0 k sent got" "pipe_ok (pipe_at k0 p)"
  shows "got @ in_flight (pipe_at k p) = in_flight (pipe_at k0 p) @ sent \<and> length (in_flight (pipe_at k p)) \<le> 512
    \<and> pipe_ok (pipe_at k p)"
  using assms(1)
proof induction
  case trace_start
  then show ?case using assms(2) by (simp add: length_in_flight pipe_ok_def)
next
  case (trace_read k sent got n cs r k')
  then show ?case using pipe_read_flight [of k p n cs r k'] by (auto simp: length_in_flight pipe_ok_def)
next
  case (trace_write k sent got cs n r k')
  then have "pipe_ok (pipe_at k' p)" "in_flight (pipe_at k' p) = in_flight (pipe_at k p) @ take n cs"
    using pipe_write_flight [of k p cs n r k'] by auto
  then show ?case using trace_write by (metis append_assoc length_in_flight pipe_ok_def)
next
  case (trace_other k sent got k')
  then show ?case using pipe_coreD [OF trace_other(2)] by simp
qed

theorem pipe_fifo_witness:
  "case pipe_write 0x5000 [1, 2, 3] ipc0 of (n, r, k) \<Rightarrow>
     (case pipe_read 0x5000 2 k of (cs, r', k') \<Rightarrow> cs @ in_flight (pipe_at k' 0x5000) = take n [1, 2, 3])"
proof -
  obtain n r k where w: "pipe_write 0x5000 [1, 2, 3] ipc0 = (n, r, k)" by (cases "pipe_write 0x5000 [1, 2, 3] ipc0") auto
  obtain cs r' k' where g: "pipe_read 0x5000 2 k = (cs, r', k')" by (cases "pipe_read 0x5000 2 k") auto
  show ?thesis using pipe_fifo [OF trace_read [OF trace_write [OF trace_start w] g]] w g by simp
qed

text \<open>
  \<^verbatim>\<open>pipe_read\<close> gives up its turn only when the buffer is empty and a writer is left, and returns fewer bytes than
  asked for only at end of file, that is when the buffer is empty and no writer is left; \<^verbatim>\<open>pipe_write\<close> stops short only
  when no reader is left, and blocks only on a full buffer.
\<close>

lemma pipe_stops:
  assumes "pipe_ok (pipe_at k p)" "pipe_read p n k = (cs, r, k')" "pipe_write p ds k = (w, e, k'')"
  shows "(r = IoDone \<longrightarrow> length cs = n \<or> in_flight (pipe_at k' p) = [] \<and> pi_writers (pipe_at k p) = 0) \<and>
    (r = IoBlock \<longrightarrow> in_flight (pipe_at k' p) = [] \<and> pi_writers (pipe_at k p) \<noteq> 0) \<and>
    (e = WDone \<longrightarrow> w = length ds) \<and> (e = WBroken \<longrightarrow> pi_readers (pipe_at k p) = 0) \<and>
    (e = WBlock \<longrightarrow> length (in_flight (pipe_at k'' p)) = 512)"
proof -
  have r: "length cs \<le> n" "length cs < n \<longrightarrow> in_flight (pipe_at k' p) = []"
    "r = IoBlock \<longleftrightarrow> length cs < n \<and> pi_writers (pipe_at k p) \<noteq> 0"
    using pipe_read_flight [OF assms(1,2)] by blast+
  have w: "e = WDone \<longleftrightarrow> w = length ds" "e = WBroken \<longleftrightarrow> w < length ds \<and> pi_readers (pipe_at k p) = 0"
    "e = WBlock \<longrightarrow> length (in_flight (pipe_at k'' p)) = 512"
    using pipe_write_flight [OF assms(1,3)] by blast+
  have "r = IoDone \<Longrightarrow> length cs \<noteq> n \<Longrightarrow> length cs < n \<and> pi_writers (pipe_at k p) = 0" using r(1,3) by auto
  then show ?thesis using r(2,3) w by blast
qed

text \<open>
  C18: \<^verbatim>\<open>pipe_close_end\<close> ends, and every process that was blocked on either end of the pipe is ready again and on the
  ready queue of its priority, in the order in which it blocked; both wait queues are empty. The bytes in flight
  stay, and exactly when the last reference of both ends is gone the pipe's memory is freed.
\<close>

theorem close_wakes_everyone:
  assumes "pipe_rep k Q p rs ws" "mlfq_rep k Q"
  shows "\<exists>k' k5. pipe_close_end p b k = Some k' \<and> mlfq_rep k' (woken k rs (woken k ws Q)) \<and>
    pipe_rep k' (woken k rs (woken k ws Q)) p [] [] \<and> set rs \<union> set ws \<subseteq> ready_set (woken k rs (woken k ws Q)) \<and>
    in_flight (pipe_at k' p) = in_flight (pipe_at k p) \<and>
    kheap.truncate k5 = kheap.truncate k \<and>
    k' = (if pi_readers (drop_end b (pipe_at k p)) = 0 \<and> pi_writers (drop_end b (pipe_at k p)) = 0 then kfree p k5 else k5)"
proof -
  obtain k' where k': "pipe_close_end p b k = Some k'" "mlfq_rep k' (woken k rs (woken k ws Q))"
    "pipe_rep k' (woken k rs (woken k ws Q)) p [] []" "pipe_core (pipe_at k' p) = pipe_core (drop_end b (pipe_at k p))"
    "\<exists>k5. kheap.truncate k5 = kheap.truncate k \<and> k' = (if pi_readers (drop_end b (pipe_at k p)) = 0 \<and>
       pi_writers (drop_end b (pipe_at k p)) = 0 then kfree p k5 else k5)"
    by (rule pipe_close_end_rep [OF assms])
  have "in_flight (pipe_at k' p) = in_flight (pipe_at k p)"
    using k'(4) by (simp add: pipe_core_def in_flight_def drop_end_def split: if_splits)
  moreover have "set rs \<union> set ws \<subseteq> ready_set (woken k rs (woken k ws Q))"
    using assms(1) by (auto simp: pipe_rep_def wakeable_def ready_in_def woken_def)
  ultimately show ?thesis using k' by blast
qed

text \<open>A pipe with a process blocked on its read end.\<close>

definition ipc1 :: ipc where
  "ipc1 = ipc0\<lparr>pipe_at := (\<lambda>_. new_pipe\<lparr>pi_read_waiters := \<lparr>wq_head = 0x2000, wq_tail = 0x2000\<rparr>\<rparr>)\<rparr>"

theorem close_wakes_everyone_witness:
  "\<exists>k' Q. pipe_close_end 0x5000 False ipc1 = Some k' \<and> mlfq_rep k' Q \<and> 0x2000 \<in> ready_set Q"
proof -
  have m: "mlfq_rep ipc1 (\<lambda>_. [])"
    using tasks0_rep by (simp add: levels_rep_def level_rep_def ipc1_def ipc0_def tasks.extend_def ipc.fields_def)
  have pr: "proc ipc1 = proc0"
    by (simp add: ipc1_def ipc0_def tasks0_def mlfq_init_def kheap.extend_def tasks.extend_def tasks.fields_def ipc.fields_def)
  have q: "wq_rep ipc1 \<lparr>wq_head = 0x2000, wq_tail = 0x2000\<rparr> [0x2000]" "wakeable ipc1 (\<lambda>_. []) [0x2000]"
    by (simp_all add: wq_rep_def dqueue_def dlist_def wakeable_def ready_in_def pr proc0_def zero_process_def)
  have r: "pipe_rep ipc1 (\<lambda>_. []) 0x5000 [0x2000] []"
    using q by (simp add: pipe_rep_def wakeable_def ipc1_def) (simp add: new_pipe_def pipe_ok_def)
  show ?thesis using close_wakes_everyone [OF r m, of False] by auto
qed

end
