(* ===== verification/Mem_String.thy ===== *)
theory Mem_String
  imports Aeryk_Prelude
begin

text \<open>
  The memory routines of \<^verbatim>\<open>src/kernel/src/arch/x86_64/string.c\<close> and of \<^verbatim>\<open>src/libc/string/string.c\<close> over a flat byte
  memory. The sources copy eight bytes at a time and then the rest; the lemmas show that this is the copy of the
  bytes one would write down, also where \<^verbatim>\<open>memmove\<close>'s two blocks overlap.
\<close>

section \<open>Byte memory and 64-bit accesses\<close>

type_synonym bytes = "u64 \<Rightarrow> u8"

definition byte_of :: "nat \<Rightarrow> u64 \<Rightarrow> u8" where
  "byte_of i w = ucast (drop_bit (8 * i) w)"

text \<open>A \<^verbatim>\<open>u64_unaligned\<close> load and store: eight bytes in little-endian order at any address.\<close>

definition load64 :: "bytes \<Rightarrow> u64 \<Rightarrow> u64" where
  "load64 m a = foldr (\<lambda>i w. push_bit (8 * i) (ucast (m (a + of_nat i))) OR w) [0..<8] 0"

definition store64 :: "bytes \<Rightarrow> u64 \<Rightarrow> u64 \<Rightarrow> bytes" where
  "store64 m a w = (\<lambda>x. if unat (x - a) < 8 then byte_of (unat (x - a)) w else m x)"

definition store8 :: "bytes \<Rightarrow> u64 \<Rightarrow> u8 \<Rightarrow> bytes" where
  "store8 m a b = m(a := b)"

section \<open>The routines\<close>

definition copy_words :: "nat list \<Rightarrow> u64 \<Rightarrow> u64 \<Rightarrow> bytes \<Rightarrow> bytes" where
  "copy_words is d s = fold (\<lambda>i m. store64 m (d + 8 * of_nat i) (load64 m (s + 8 * of_nat i))) is"

definition copy_bytes :: "nat list \<Rightarrow> u64 \<Rightarrow> u64 \<Rightarrow> bytes \<Rightarrow> bytes" where
  "copy_bytes is d s = fold (\<lambda>i m. store8 m (d + of_nat i) (m (s + of_nat i))) is"

definition memcpy :: "u64 \<Rightarrow> u64 \<Rightarrow> u64 \<Rightarrow> bytes \<Rightarrow> bytes" where
  "memcpy dest src n m =
     (let words = unat n div 8
      in copy_bytes [words * 8..<unat n] dest src (copy_words [0..<words] dest src m))"

definition memset :: "u64 \<Rightarrow> u32 \<Rightarrow> u64 \<Rightarrow> bytes \<Rightarrow> bytes" where
  "memset dest c n m =
     (let byte = ucast c :: u8;
          pattern = ucast byte :: u64;
          pattern = pattern OR push_bit 8 pattern;
          pattern = pattern OR push_bit 16 pattern;
          pattern = pattern OR push_bit 32 pattern;
          words = unat n div 8;
          m1 = fold (\<lambda>i m. store64 m (dest + 8 * of_nat i) pattern) [0..<words] m
      in fold (\<lambda>i m. store8 m (dest + of_nat i) byte) [words * 8..<unat n] m1)"

definition memmove :: "u64 \<Rightarrow> u64 \<Rightarrow> u64 \<Rightarrow> bytes \<Rightarrow> bytes" where
  "memmove dest src n m =
     (if src > dest then
        let words = unat n div 8
        in copy_bytes [words * 8..<unat n] dest src (copy_words [0..<words] dest src m)
      else if src < dest then
        let tail_bytes = unat n mod 8;
            words = (unat n - tail_bytes) div 8
        in copy_words (rev [0..<words]) dest src (copy_bytes (rev [unat n - tail_bytes..<unat n]) dest src m)
      else m)"

definition memcmp :: "u64 \<Rightarrow> u64 \<Rightarrow> u64 \<Rightarrow> bytes \<Rightarrow> int" where
  "memcmp s1 s2 n m =
     (case find (\<lambda>i. m (s1 + of_nat i) \<noteq> m (s2 + of_nat i)) [0..<unat n] of
        None \<Rightarrow> 0
      | Some i \<Rightarrow> if m (s1 + of_nat i) < m (s2 + of_nat i) then - 1 else 1)"

partial_function (option) strlen_from :: "u64 \<Rightarrow> u64 \<Rightarrow> bytes \<Rightarrow> u64 option" where
  "strlen_from str len m = (if m (str + len) = 0 then Some len else strlen_from str (len + 1) m)"

definition strlen :: "u64 \<Rightarrow> bytes \<Rightarrow> u64 option" where
  "strlen str m = strlen_from str 0 m"

text \<open>The C library's copies of the routines.\<close>

definition libc_memcpy :: "u64 \<Rightarrow> u64 \<Rightarrow> u64 \<Rightarrow> bytes \<Rightarrow> bytes" where
  "libc_memcpy dest src len m =
     (let words = unat len div 8;
          m1 = copy_words [0..<words] dest src m
      in copy_bytes [words * 8..<unat len] dest src m1)"

definition libc_memset :: "u64 \<Rightarrow> u32 \<Rightarrow> u64 \<Rightarrow> bytes \<Rightarrow> bytes" where
  "libc_memset s c n m =
     (let byte = ucast c :: u8;
          pattern = ucast byte :: u64;
          pattern = pattern OR push_bit 8 pattern;
          pattern = pattern OR push_bit 16 pattern;
          pattern = pattern OR push_bit 32 pattern;
          words = unat n div 8;
          m1 = fold (\<lambda>i m. store64 m (s + 8 * of_nat i) pattern) [0..<words] m
      in fold (\<lambda>i m. store8 m (s + of_nat i) byte) [words * 8..<unat n] m1)"

definition libc_memmove :: "u64 \<Rightarrow> u64 \<Rightarrow> u64 \<Rightarrow> bytes \<Rightarrow> bytes" where
  "libc_memmove dest src n m =
     (if src > dest then
        let words = unat n div 8;
            m1 = copy_words [0..<words] dest src m
        in copy_bytes [words * 8..<unat n] dest src m1
      else if src < dest then
        let tail_bytes = unat n mod 8;
            m1 = copy_bytes (rev [unat n - tail_bytes..<unat n]) dest src m;
            words = (unat n - tail_bytes) div 8
        in copy_words (rev [0..<words]) dest src m1
      else m)"

definition libc_memcmp :: "u64 \<Rightarrow> u64 \<Rightarrow> u64 \<Rightarrow> bytes \<Rightarrow> int" where
  "libc_memcmp s1 s2 n m =
     (case find (\<lambda>i. m (s1 + of_nat i) \<noteq> m (s2 + of_nat i)) [0..<unat n] of
        None \<Rightarrow> 0
      | Some i \<Rightarrow> if m (s1 + of_nat i) < m (s2 + of_nat i) then - 1 else 1)"

section \<open>Word accesses move eight bytes\<close>

lemma bit_load64_aux:
  "bit (foldr (\<lambda>i w. push_bit (8 * i) (ucast (f i :: u8)) OR w) is (0 :: u64)) n \<longleftrightarrow>
     n < 64 \<and> (\<exists>i \<in> set is. 8 * i \<le> n \<and> n < 8 * i + 8 \<and> bit (f i) (n - 8 * i))"
  by (induction "is") (auto simp: bit_simps dest: bit_imp_le_length)

lemma bit_load64: "n < 64 \<Longrightarrow> bit (load64 m a) n \<longleftrightarrow> bit (m (a + of_nat (n div 8))) (n mod 8)"
proof -
  assume n: "n < 64"
  have "(8 * i \<le> n \<and> n < 8 * i + 8) \<longleftrightarrow> i = n div 8" for i by auto
  then have "bit (load64 m a) n \<longleftrightarrow> (\<exists>i \<in> set [0..<8]. i = n div 8 \<and> bit (m (a + of_nat i)) (n - 8 * i))"
    unfolding load64_def bit_load64_aux using n by blast
  then show ?thesis using n by (auto simp: minus_mult_div_eq_mod simp del: upt_rec_numeral)
qed

lemma bit_byte_of: "n < 8 \<Longrightarrow> bit (byte_of i w) n = bit w (8 * i + n)"
  by (simp add: byte_of_def bit_simps)

lemma byte_of_load64: "i < 8 \<Longrightarrow> byte_of i (load64 m a) = m (a + of_nat i)"
proof (rule bit_eqI)
  fix n assume i: "i < 8" and "possible_bit TYPE(u8) n"
  then have n: "n < 8" by (simp add: possible_bit_def)
  have "bit (byte_of i (load64 m a)) n = bit (load64 m a) (8 * i + n)"
    by (rule bit_byte_of [OF n])
  then show "bit (byte_of i (load64 m a)) n = bit (m (a + of_nat i)) n"
    using i n by (simp add: bit_load64)
qed

lemma store_load:
  "store64 m d (load64 m' s) = (\<lambda>x. if unat (x - d) < 8 then m' (s + (x - d)) else m x)"
  by (auto simp: store64_def byte_of_load64)

section \<open>Copying\<close>

text \<open>The memory in which the bytes at the offsets in \<open>A\<close> have been copied from the original memory.\<close>

definition copied :: "u64 \<Rightarrow> u64 \<Rightarrow> nat set \<Rightarrow> bytes \<Rightarrow> bytes" where
  "copied d s A m = (\<lambda>x. if unat (x - d) \<in> A then m (s + (x - d)) else m x)"

lemma copied_empty [simp]: "copied d s {} m = m"
  by (simp add: copied_def)

lemma offset_iff: "i < 2 ^ 64 \<Longrightarrow> x = d + of_nat i \<longleftrightarrow> unat (x - d) = i" for x d :: u64
proof
  assume i: "i < 2 ^ 64" and "x = d + of_nat i"
  then show "unat (x - d) = i" by (simp add: unat_of_nat take_bit_nat_eq_self)
next
  assume "unat (x - d) = i"
  then have "of_nat i = x - d" by auto
  then show "x = d + of_nat i" by simp
qed

lemma copied_byte:
  assumes "i < 2 ^ 64" "unat (s + of_nat i - d) \<notin> A"
  shows "(copied d s A m)(d + of_nat i := copied d s A m (s + of_nat i)) = copied d s (insert i A) m"
proof
  fix x
  show "((copied d s A m)(d + of_nat i := copied d s A m (s + of_nat i))) x = copied d s (insert i A) m x"
    using assms offset_iff [OF assms(1), of x d] by (cases "x = d + of_nat i") (auto simp: copied_def)
qed

lemma unat_sub_offset:
  "8 * i + 8 \<le> 2 ^ 64 \<Longrightarrow> unat (x - (d + 8 * of_nat i)) < 8 \<longleftrightarrow> unat (x - d) \<in> {8 * i..<8 * i + 8}" for x d :: u64
proof -
  assume i: "8 * i + 8 \<le> (2 ^ 64 :: nat)"
  define y where "y = x - d"
  have "8 * of_nat i = (of_nat (8 * i) :: u64)" by simp
  then have e: "unat (8 * of_nat i :: u64) = 8 * i"
    using i by (simp only: unat_of_nat take_bit_nat_eq_self_iff) (simp add: take_bit_nat_eq_self)
  have x: "x - (d + 8 * of_nat i) = y - 8 * of_nat i" by (simp add: y_def)
  show ?thesis
  proof (cases "8 * i \<le> unat y")
    case True
    then have "unat (y - 8 * of_nat i) = unat y - 8 * i" by (simp add: unat_sub_if_size e)
    then show ?thesis using True by (auto simp: x y_def)
  next
    case False
    then have "unat (y - 8 * of_nat i) = unat y + 2 ^ 64 - 8 * i"
      by (simp add: unat_sub_if_size e word_size)
    then show ?thesis using False i by (auto simp: x y_def)
  qed
qed

lemma copied_word:
  assumes i: "8 * i + 8 \<le> 2 ^ 64" and "\<And>j. j < 8 \<Longrightarrow> unat (s + of_nat (8 * i + j) - d) \<notin> A"
  shows "store64 (copied d s A m) (d + 8 * of_nat i) (load64 (copied d s A m) (s + 8 * of_nat i)) =
    copied d s (A \<union> {8 * i..<8 * i + 8}) m"
proof
  fix x
  have o: "s + 8 * of_nat i + (x - (d + 8 * of_nat i)) = s + (x - d)" by simp
  show "store64 (copied d s A m) (d + 8 * of_nat i) (load64 (copied d s A m) (s + 8 * of_nat i)) x =
    copied d s (A \<union> {8 * i..<8 * i + 8}) m x"
  proof (cases "unat (x - d) \<in> {8 * i..<8 * i + 8}")
    case True
    define j where "j = unat (x - d) - 8 * i"
    have j: "j < 8" "x - d = of_nat (8 * i + j)" using True by (auto simp: j_def)
    have "unat (s + (x - d) - d) \<notin> A" unfolding j(2) by (rule assms(2) [OF j(1)])
    then show ?thesis using True unat_sub_offset [OF i, of x d] unfolding store_load o by (simp add: copied_def)
  next
    case False
    then show ?thesis using unat_sub_offset [OF i, of x d] unfolding store_load by (auto simp: copied_def)
  qed
qed

text \<open>Where the byte read for offset \<open>k\<close> lies, relative to the destination.\<close>

lemma source_ahead: "unat (s - d) + k < 2 ^ 64 \<Longrightarrow> unat (s + of_nat k - d) = unat (s - d) + k" for s d :: u64
proof -
  assume k: "unat (s - d) + k < 2 ^ 64"
  have "s + of_nat k - d = of_nat (unat (s - d) + k)" by simp
  then show ?thesis using k by (simp only: unat_of_nat take_bit_nat_eq_self) (simp add: take_bit_nat_eq_self)
qed

lemma source_behind:
  fixes s d :: u64
  assumes "k < 2 ^ 64" "unat (d - s) + n \<le> 2 ^ 64" "k < n" 
  shows "unat (s + of_nat k - d) \<le> k \<or> n \<le> unat (s + of_nat k - d)"
proof -
  have u: "unat (of_nat k :: u64) = k" using assms(1) by (simp add: unat_of_nat take_bit_nat_eq_self)
  have e: "s + of_nat k - d = of_nat k - (d - s)" by simp
  show ?thesis
  proof (cases "unat (d - s) \<le> k")
    case True
    then show ?thesis unfolding e by (simp add: unat_sub_if_size u)
  next
    case False
    then have "unat (of_nat k - (d - s)) = k + 2 ^ 64 - unat (d - s)"
      by (simp add: unat_sub_if_size u word_size)
    moreover have "n \<le> k + 2 ^ 64 - unat (d - s)" using assms(2) by linarith
    ultimately show ?thesis unfolding e by simp
  qed
qed

lemma copy_words_forward:
  "unat (s - d) + 8 * w \<le> 2 ^ 64 \<Longrightarrow> copy_words [0..<w] d s m = copied d s {..<8 * w} m"
proof (induction w)
  case (Suc w)
  have b: "8 * w + 8 \<le> 2 ^ 64" using Suc.prems by simp
  have "unat (s + of_nat (8 * w + j) - d) \<notin> {..<8 * w}" if "j < 8" for j
    using source_ahead [of s d "8 * w + j"] Suc.prems that by simp
  moreover have "{..<8 * w} \<union> {8 * w..<8 * w + 8} = {..<8 * Suc w}" by auto
  ultimately show ?case using Suc copied_word [OF b, of s d "{..<8 * w}" m]
    by (simp add: copy_words_def)
qed (simp add: copy_words_def)

lemma copy_bytes_forward:
  "a \<le> b \<Longrightarrow> unat (s - d) + b \<le> 2 ^ 64 \<Longrightarrow> copy_bytes [a..<b] d s (copied d s {..<a} m) = copied d s {..<b} m"
proof (induction b)
  case (Suc b)
  show ?case
  proof (cases "a \<le> b")
    case True
    have "unat (s + of_nat b - d) \<notin> {..<b}" using source_ahead [of s d b] Suc.prems by simp
    then have "(copied d s {..<b} m)(d + of_nat b := copied d s {..<b} m (s + of_nat b)) = copied d s (insert b {..<b}) m"
      using copied_byte [of b s d "{..<b}" m] Suc.prems by simp
    then show ?thesis using Suc True by (simp add: copy_bytes_def lessThan_Suc store8_def)
  qed (use Suc in \<open>simp add: copy_bytes_def le_Suc_eq\<close>)
qed (simp add: copy_bytes_def)

lemma copy_bytes_backward:
  "a \<le> n \<Longrightarrow> n \<le> 2 ^ 64 \<Longrightarrow> unat (d - s) + n \<le> 2 ^ 64 \<Longrightarrow> copy_bytes (rev [a..<n]) d s m = copied d s {a..<n} m"
proof (induction "n - a" arbitrary: a)
  case (Suc x)
  have a: "a < n" "x = n - Suc a" using Suc.hyps by auto
  have "unat (s + of_nat a - d) \<notin> {Suc a..<n}" using source_behind [of a d s n] a Suc.prems by auto
  then have c: "(copied d s {Suc a..<n} m)(d + of_nat a := copied d s {Suc a..<n} m (s + of_nat a)) =
      copied d s (insert a {Suc a..<n}) m" using copied_byte [of a s d "{Suc a..<n}" m] a Suc.prems by simp
  have "rev [a..<n] = rev [Suc a..<n] @ [a]" using a by (simp add: upt_conv_Cons)
  moreover have "insert a {Suc a..<n} = {a..<n}" using a by auto
  ultimately show ?case using Suc.hyps(1) [OF a(2)] Suc.prems a c by (simp add: copy_bytes_def store8_def)
qed (simp add: copy_bytes_def)

lemma copy_words_backward:
  assumes "8 * w \<le> n" "n \<le> 2 ^ 64" "unat (d - s) + n \<le> 2 ^ 64"
  shows "copy_words (rev [0..<w]) d s (copied d s {8 * w..<n} m) = copied d s {..<n} m"
  using assms
proof (induction w)
  case (Suc w)
  have b: "8 * w + 8 \<le> 2 ^ 64" using Suc.prems by simp
  have o: "unat (s + of_nat (8 * w + j) - d) \<notin> {8 * Suc w..<n}" if "j < 8" for j
    using source_behind [of "8 * w + j" d s n] Suc.prems that by auto
  have "{8 * Suc w..<n} \<union> {8 * w..<8 * w + 8} = {8 * w..<n}" using Suc.prems by auto
  then show ?case using Suc copied_word [OF b o, of m] by (simp add: copy_words_def)
qed (simp add: copy_words_def lessThan_atLeast0)

lemma forward_copy:
  assumes "unat (s - d) + n \<le> 2 ^ 64"
  shows "copy_bytes [n div 8 * 8..<n] d s (copy_words [0..<n div 8] d s m) = copied d s {..<n} m"
  using assms copy_words_forward [of s d "n div 8" m] copy_bytes_forward [of "n div 8 * 8" n s d m]
  by (simp add: mult.commute)

lemma backward_copy:
  assumes "unat (d - s) + n \<le> 2 ^ 64"
  shows "copy_words (rev [0..<(n - n mod 8) div 8]) d s (copy_bytes (rev [n - n mod 8..<n]) d s m) = copied d s {..<n} m"
proof -
  have e: "8 * ((n - n mod 8) div 8) = n - n mod 8" by (simp add: minus_mod_eq_mult_div)
  show ?thesis
    using assms copy_bytes_backward [of "n - n mod 8" n d s m] copy_words_backward [of "(n - n mod 8) div 8" n d s m]
    by (simp add: e)
qed

lemma memmove_copied:
  assumes "unat dest + unat n \<le> 2 ^ 64" "unat src + unat n \<le> 2 ^ 64"
  shows "memmove dest src n m = copied dest src {..<unat n} m"
proof -
  consider "dest < src" | "src < dest" | "src = dest" by (rule linorder_cases)
  then show ?thesis
  proof cases
    case 1
    then have "unat (src - dest) + unat n \<le> 2 ^ 64"
      using assms by (simp add: unat_sub_if_size word_less_nat_alt)
    then show ?thesis using 1 forward_copy [of src dest "unat n" m] by (simp add: memmove_def Let_def)
  next
    case 2
    then have "unat (dest - src) + unat n \<le> 2 ^ 64"
      using assms by (simp add: unat_sub_if_size word_less_nat_alt)
    moreover have "\<not> dest < src" using 2 by simp
    ultimately show ?thesis using 2 backward_copy [of dest src "unat n" m] by (simp add: memmove_def Let_def)
  qed (simp add: memmove_def copied_def fun_eq_iff)
qed

lemma memcpy_copied:
  assumes "unat (src - dest) + unat n \<le> 2 ^ 64"
  shows "memcpy dest src n m = copied dest src {..<unat n} m"
  using forward_copy [OF assms, of m] by (simp add: memcpy_def Let_def)

section \<open>Filling\<close>

definition filled :: "u64 \<Rightarrow> u8 \<Rightarrow> nat set \<Rightarrow> bytes \<Rightarrow> bytes" where
  "filled d b A m = (\<lambda>x. if unat (x - d) \<in> A then b else m x)"

lemma bit_ucast8: "bit (ucast (b :: u8) :: u64) n \<longleftrightarrow> bit b n"
  by (auto simp: bit_simps dest: bit_imp_le_length)

lemma pattern_bytes:
  fixes b :: u8
  defines "p1 \<equiv> ucast b OR push_bit 8 (ucast b) :: u64"
  defines "p2 \<equiv> p1 OR push_bit 16 p1"
  assumes "i < 8"
  shows "byte_of i (p2 OR push_bit 32 p2) = b"
proof -
  have b: "bit b n \<Longrightarrow> n < 8" for n using bit_imp_le_length [of b n] by simp
  have 1: "bit p1 n \<longleftrightarrow> n < 16 \<and> bit b (n mod 8)" for n
  proof (cases "n < 8")
    case False
    then obtain k where "n = 8 + k" by (metis le_Suc_ex not_less)
    then show ?thesis using b [of n] b [of k] by (auto simp: p1_def bit_simps bit_ucast8)
  qed (auto simp: p1_def bit_simps bit_ucast8)
  have 2: "bit p2 n \<longleftrightarrow> n < 32 \<and> bit b (n mod 8)" for n
  proof (cases "n < 16")
    case False
    then obtain k where n: "n = 16 + k" by (metis le_Suc_ex not_less)
    have "(16 + k) mod 8 = k mod 8" by presburger
    then show ?thesis using n by (auto simp: p2_def bit_simps 1)
  qed (auto simp: p2_def bit_simps 1)
  have 3: "bit (p2 OR push_bit 32 p2) n \<longleftrightarrow> n < 64 \<and> bit b (n mod 8)" for n
  proof (cases "n < 32")
    case False
    then obtain k where n: "n = 32 + k" by (metis le_Suc_ex not_less)
    have "(32 + k) mod 8 = k mod 8" by presburger
    then show ?thesis using n by (auto simp: bit_simps 2)
  qed (auto simp: bit_simps 2)
  show ?thesis
  proof (rule bit_eqI)
    fix n assume "possible_bit TYPE(u8) n"
    then have n: "n < 8" by (simp add: possible_bit_def)
    have "bit (byte_of i (p2 OR push_bit 32 p2)) n \<longleftrightarrow> bit (p2 OR push_bit 32 p2) (8 * i + n)"
      by (rule bit_byte_of [OF n])
    then show "bit (byte_of i (p2 OR push_bit 32 p2)) n \<longleftrightarrow> bit b n"
      unfolding 3 using n assms(3) by simp
  qed
qed

lemma fill_words:
  assumes p: "\<And>i. i < 8 \<Longrightarrow> byte_of i p = b"
  shows "8 * w \<le> 2 ^ 64 \<Longrightarrow> fold (\<lambda>i m. store64 m (d + 8 * of_nat i) p) [0..<w] m = filled d b {..<8 * w} m"
proof (induction w)
  case (Suc w)
  have w: "8 * w + 8 \<le> 2 ^ 64" using Suc.prems by simp
  have "store64 (filled d b {..<8 * w} m) (d + 8 * of_nat w) p = filled d b {..<8 * Suc w} m"
  proof
    fix x
    show "store64 (filled d b {..<8 * w} m) (d + 8 * of_nat w) p x = filled d b {..<8 * Suc w} m x"
      using unat_sub_offset [OF w, of x d] p unfolding store64_def filled_def by auto
  qed
  then show ?case using Suc by simp
qed (simp add: filled_def)

lemma fill_bytes:
  "a \<le> c \<Longrightarrow> c \<le> 2 ^ 64 \<Longrightarrow>
   fold (\<lambda>i m. store8 m (d + of_nat i) b) [a..<c] (filled d b {..<a} m) = filled d b {..<c} m"
proof (induction c)
  case (Suc c)
  show ?case
  proof (cases "a \<le> c")
    case True
    have "store8 (filled d b {..<c} m) (d + of_nat c) b = filled d b {..<Suc c} m"
    proof
      fix x
      show "store8 (filled d b {..<c} m) (d + of_nat c) b x = filled d b {..<Suc c} m x"
        using offset_iff [of c x d] Suc.prems unfolding filled_def store8_def by (auto simp: less_Suc_eq)
    qed
    then show ?thesis using Suc True by simp
  qed (use Suc in \<open>simp add: le_Suc_eq\<close>)
qed simp

lemma memset_filled: "memset dest c n m = filled dest (ucast c) {..<unat n} m"
proof -
  have n: "unat n \<le> 2 ^ 64" "8 * (unat n div 8) \<le> 2 ^ 64" "unat n div 8 * 8 = 8 * (unat n div 8)"
    using unat_less_two_power [of n] by auto
  show ?thesis
    using fill_words [OF pattern_bytes [where b = "ucast c"] n(2), of dest m] fill_bytes [OF _ n(1), of "8 * (unat n div 8)" dest "ucast c" m]
    by (simp add: memset_def Let_def n(3))
qed

section \<open>Comparison and length\<close>

definition bytes_at :: "u64 \<Rightarrow> nat \<Rightarrow> bytes \<Rightarrow> u8 list" where
  "bytes_at a n m = map (\<lambda>i. m (a + of_nat i)) [0..<n]"

lemma memcmp_0: "memcmp s1 s2 n m = 0 \<longleftrightarrow> bytes_at s1 (unat n) m = bytes_at s2 (unat n) m"
proof (cases "find (\<lambda>i. m (s1 + of_nat i) \<noteq> m (s2 + of_nat i)) [0..<unat n]")
  case None
  then have "\<forall>i < unat n. m (s1 + of_nat i) = m (s2 + of_nat i)" by (simp add: find_upt_None)
  then show ?thesis using None by (simp add: memcmp_def bytes_at_def)
next
  case (Some i)
  then have "i < unat n" "m (s1 + of_nat i) \<noteq> m (s2 + of_nat i)" by (simp_all add: find_upt_Some)
  then show ?thesis using Some by (auto simp: memcmp_def bytes_at_def)
qed

lemma strlen_from_ends:
  "m (str + len + of_nat k) = 0 \<Longrightarrow> (\<And>j. j < k \<Longrightarrow> m (str + len + of_nat j) \<noteq> 0) \<Longrightarrow>
   strlen_from str len m = Some (len + of_nat k)"
proof (induction k arbitrary: len)
  case (Suc k)
  have "strlen_from str (len + 1) m = Some (len + 1 + of_nat k)"
    by (rule Suc.IH) (use Suc.prems(1) Suc.prems(2) [of "Suc j" for j] in \<open>simp_all add: algebra_simps\<close>)
  then show ?case using Suc.prems(2) [of 0] by (simp add: strlen_from.simps [of str len] algebra_simps)
qed (simp add: strlen_from.simps)

lemma disjoint_blocks:
  fixes src dest :: u64
  assumes "n \<le> unat (src - dest)" "n \<le> unat (dest - src)"
  shows "unat (src - dest) + n \<le> 2 ^ 64"
proof (cases "src = dest")
  case False
  then have "0 < unat (src - dest)" by (simp add: unat_gt_0)
  then have "unat (0 - (src - dest)) = 2 ^ 64 - unat (src - dest)"
    by (simp only: unat_sub_if_size word_size) simp
  then have "unat (dest - src) = 2 ^ 64 - unat (src - dest)" by simp
  then show ?thesis using assms unat_less_two_power [of "src - dest"] by simp
qed (use assms in simp)

text \<open>
  C22: \<^verbatim>\<open>memmove\<close>, in the kernel and in the C library, leaves at the destination the bytes the source block held before
  the call, whether or not the blocks overlap and whatever the length, and changes no other byte.
\<close>

theorem memmove_snapshot:
  assumes "unat dest + unat n \<le> 2 ^ 64" "unat src + unat n \<le> 2 ^ 64"
  shows "bytes_at dest (unat n) (memmove dest src n m) = bytes_at src (unat n) m \<and>
    (\<forall>x. unat n \<le> unat (x - dest) \<longrightarrow> memmove dest src n m x = m x) \<and>
    libc_memmove dest src n m = memmove dest src n m"
proof (intro conjI allI impI)
  have n: "unat (of_nat i :: u64) = i" if "i < unat n" for i
    using that unat_less_two_power [of n] by (simp add: unat_of_nat take_bit_nat_eq_self)
  show "bytes_at dest (unat n) (memmove dest src n m) = bytes_at src (unat n) m"
    by (auto simp: memmove_copied [OF assms] bytes_at_def copied_def n)
  show "memmove dest src n m x = m x" if "unat n \<le> unat (x - dest)" for x
    using that by (simp add: memmove_copied [OF assms] copied_def)
  show "libc_memmove dest src n m = memmove dest src n m" by (simp add: libc_memmove_def memmove_def Let_def)
qed

theorem memmove_snapshot_witness:
  "bytes_at 0x1003 20 (memmove 0x1003 0x1000 20 ucast) = bytes_at 0x1000 20 ucast"
  using memmove_snapshot [of "0x1003" 20 "0x1000" ucast] by simp

text \<open>
  C23: \<^verbatim>\<open>memset\<close> writes the low byte of its argument to exactly the \<^verbatim>\<open>n\<close> bytes from its destination on, and \<^verbatim>\<open>memcpy\<close>
  on blocks that do not overlap copies exactly \<^verbatim>\<open>n\<close> bytes, for every \<^verbatim>\<open>n\<close>, multiple of eight or not; the C library's
  versions compute the same.
\<close>

theorem memset_memcpy_bytewise:
  assumes "unat n \<le> unat (src - dest)" "unat n \<le> unat (dest - src)"
  shows "memset dest c n m x = (if unat (x - dest) < unat n then ucast c else m x) \<and>
    memcpy dest src n m x = (if unat (x - dest) < unat n then m (src + (x - dest)) else m x) \<and>
    libc_memset dest c n m = memset dest c n m \<and> libc_memcpy dest src n m = memcpy dest src n m"
proof (intro conjI)
  show "libc_memset dest c n m = memset dest c n m" "libc_memcpy dest src n m = memcpy dest src n m"
    by (simp_all only: libc_memset_def memset_def libc_memcpy_def memcpy_def Let_def)
qed (simp_all add: memset_filled filled_def memcpy_copied [OF disjoint_blocks [OF assms]] copied_def)

theorem memset_memcpy_bytewise_witness:
  "memset 0x2000 0x1ff 13 ucast 0x200c = 0xff \<and> memcpy 0x2000 0x1000 13 ucast 0x200c = 0x0c"
  using memset_memcpy_bytewise [of 13 "0x1000" "0x2000" "0x1ff" ucast "0x200c"] by simp

end
