(* ===== verification/Input.thy ===== *)
theory Input
  imports Sched_Props
begin

text \<open>
  The keyboard and mouse drivers, \<^verbatim>\<open>src/kernel/src/arch/x86_64/drivers/keyboard.c\<close> and \<^verbatim>\<open>mouse.c\<close>: the interrupt
  handlers, their ring buffers and the blocking reads. The byte an interrupt handler reads from the controller is an
  argument; what it echoes on the screen is appended to \<open>echo\<close>.
\<close>

section \<open>State\<close>

abbreviation KBD_BUF_SIZE :: u32 where "KBD_BUF_SIZE \<equiv> 256"
abbreviation LINE_BUF_SIZE :: u32 where "LINE_BUF_SIZE \<equiv> 256"
abbreviation MOUSE_BUF_SIZE :: u32 where "MOUSE_BUF_SIZE \<equiv> 64"

record kbd =
  kbd_buf :: "u8 list"
  kbd_head :: u32
  kbd_tail :: u32
  kbd_waitq :: wait_queue
  line_buf :: "u8 list"
  line_len :: u32
  shift_down :: bool

text \<open>The movements of a packet are \<^verbatim>\<open>int16_t\<close>: 16-bit words read as two's complement.\<close>

type_synonym i16 = "16 word"

record mouse_packet =
  mp_dx :: i16
  mp_dy :: i16
  mp_buttons :: u8

record mouse =
  mouse_buf :: "mouse_packet list"
  mouse_head :: u32
  mouse_tail :: u32
  mouse_waitq :: wait_queue
  packet_bytes :: "u8 list"
  packet_idx :: nat

record input = ipc +
  kb :: kbd
  ms :: mouse
  echo :: "u8 list"

section \<open>Keyboard\<close>

abbreviation SC_LSHIFT :: u8 where "SC_LSHIFT \<equiv> 0x2A"
abbreviation SC_RSHIFT :: u8 where "SC_RSHIFT \<equiv> 0x36"

definition kbd_us :: "u8 list" where
  "kbd_us = [0, 27, 49, 50, 51, 52, 53, 54, 55, 56, 57, 48, 45,
     61, 8, 9, 113, 119, 101, 114, 116, 121, 117, 105, 111, 112,
     91, 93, 10, 0, 97, 115, 100, 102, 103, 104, 106, 107, 108,
     59, 39, 96, 0, 92, 122, 120, 99, 118, 98, 110, 109, 44,
     46, 47, 0, 42, 0, 32, 0, 0, 0, 0, 0, 0, 0,
     0, 0, 0, 0, 0, 0, 0, 0, 0, 45, 0, 0, 0,
     43, 0, 0, 0, 0, 0, 0, 0, 0, 0, 0, 0] @ replicate 38 0"

definition shift_char :: "u8 \<Rightarrow> u8" where
  "shift_char c =
     (if 97 \<le> c \<and> c \<le> 122 then c - (97 - 65)
      else if c = 49 then 33 else if c = 50 then 64 else if c = 51 then 35 else if c = 52 then 36
      else if c = 53 then 37 else if c = 54 then 94 else if c = 55 then 38 else if c = 56 then 42
      else if c = 57 then 40 else if c = 48 then 41 else if c = 45 then 95 else if c = 61 then 43
      else if c = 91 then 123 else if c = 93 then 125 else if c = 59 then 58 else if c = 39 then 34
      else if c = 96 then 126 else if c = 92 then 124 else if c = 44 then 60 else if c = 46 then 62
      else if c = 47 then 63 else c)"

definition kbd_buf_push :: "u8 \<Rightarrow> kbd \<Rightarrow> kbd" where
  "kbd_buf_push c s =
     (let nxt = (kbd_head s + 1) mod KBD_BUF_SIZE in
      if nxt = kbd_tail s then s
      else s\<lparr>kbd_buf := (kbd_buf s)[unat (kbd_head s) := c], kbd_head := nxt\<rparr>)"

definition kbd_buf_pop :: "kbd \<Rightarrow> (u8 \<times> kbd) option" where
  "kbd_buf_pop s =
     (if kbd_tail s = kbd_head s then None
      else Some (kbd_buf s ! unat (kbd_tail s), s\<lparr>kbd_tail := (kbd_tail s + 1) mod KBD_BUF_SIZE\<rparr>))"

text \<open>The character a key press produces, if any: break codes, shift keys and unmapped keys produce none.\<close>

definition key_char :: "u8 \<Rightarrow> bool \<Rightarrow> u8" where
  "key_char scancode shift =
     (let c = kbd_us ! unat scancode in if c \<noteq> 0 \<and> shift then shift_char c else c)"

definition put_line :: "kbd \<Rightarrow> kbd" where
  "put_line s = (fold (\<lambda>i. kbd_buf_push (line_buf s ! i)) [0..<unat (line_len s)] s)\<lparr>line_len := 0\<rparr>"

definition on_irq1 :: "u8 \<Rightarrow> 'a input_scheme \<Rightarrow> 'a input_scheme" where
  "on_irq1 scancode k =
     (let code = scancode AND 0x7F; is_break = (scancode AND 0x80 \<noteq> 0) in
      if code = SC_LSHIFT \<or> code = SC_RSHIFT then k\<lparr>kb := (kb k)\<lparr>shift_down := \<not> is_break\<rparr>\<rparr>
      else if is_break then k
      else
        let c = key_char scancode (shift_down (kb k)) in
        if c = 0 then k
        else if c = 8 then
          (if line_len (kb k) > 0
           then k\<lparr>kb := (kb k)\<lparr>line_len := line_len (kb k) - 1\<rparr>, echo := echo k @ [8, 32, 8]\<rparr>
           else k)
        else
          let k1 = k\<lparr>echo := echo k @ [c]\<rparr>;
              k2 = (if line_len (kb k1) < LINE_BUF_SIZE
                    then k1\<lparr>kb := (kb k1)\<lparr>line_buf := (line_buf (kb k1))[unat (line_len (kb k1)) := c],
                                          line_len := line_len (kb k1) + 1\<rparr>\<rparr>
                    else k1)
          in if c = 10 \<or> line_len (kb k2) = LINE_BUF_SIZE then
               let k3 = k2\<lparr>kb := put_line (kb k2)\<rparr>
               in case wait_queue_pop (kbd_waitq (kb k3)) k3 of (w, wq, k4) \<Rightarrow>
                    let k5 = k4\<lparr>kb := (kb k4)\<lparr>kbd_waitq := wq\<rparr>\<rparr>
                    in if w \<noteq> NULL then mlfq_enqueue w k5 else k5
             else k2)"

text \<open>\<open>left\<close> is \<^verbatim>\<open>count - n\<close>; the call blocks, or has returned, at the end of the run.\<close>

fun keyboard_read :: "nat \<Rightarrow> 'a input_scheme \<Rightarrow> u8 list \<times> io \<times> 'a input_scheme" where
  "keyboard_read 0 k = ([], IoDone, k)"
| "keyboard_read (Suc left) k =
     (case kbd_buf_pop (kb k) of
        Some (c, s) \<Rightarrow>
          if c = 10 then ([c], IoDone, k\<lparr>kb := s\<rparr>)
          else (case keyboard_read left (k\<lparr>kb := s\<rparr>) of (cs, r, k1) \<Rightarrow> (c # cs, r, k1))
      | None \<Rightarrow>
          let k1 = upd_proc (current_process k) (p_state_update (\<lambda>_. PROCESS_BLOCKED_KBD)) k
          in case wait_queue_push (kbd_waitq (kb k1)) (current_process k1) k1 of (wq, k2) \<Rightarrow>
               ([], IoBlock, k2\<lparr>kb := (kb k2)\<lparr>kbd_waitq := wq\<rparr>\<rparr>))"

section \<open>Mouse\<close>

definition mouse_buf_push :: "mouse_packet \<Rightarrow> mouse \<Rightarrow> mouse" where
  "mouse_buf_push pkt s =
     (let nxt = (mouse_head s + 1) mod MOUSE_BUF_SIZE in
      if nxt = mouse_tail s then s
      else s\<lparr>mouse_buf := (mouse_buf s)[unat (mouse_head s) := pkt], mouse_head := nxt\<rparr>)"

definition mouse_buf_pop :: "mouse \<Rightarrow> (mouse_packet \<times> mouse) option" where
  "mouse_buf_pop s =
     (if mouse_tail s = mouse_head s then None
      else Some (mouse_buf s ! unat (mouse_tail s), s\<lparr>mouse_tail := (mouse_tail s + 1) mod MOUSE_BUF_SIZE\<rparr>))"

definition decode_packet :: "u8 list \<Rightarrow> mouse_packet" where
  "decode_packet bs =
     (let flags = bs ! 0 in
      \<lparr>mp_dx = (if flags AND 0x10 \<noteq> 0 then ucast (bs ! 1) - 256 else ucast (bs ! 1)),
       mp_dy = (if flags AND 0x20 \<noteq> 0 then ucast (bs ! 2) - 256 else ucast (bs ! 2)),
       mp_buttons = flags AND 0x07\<rparr>)"

definition on_irq12 :: "u8 \<Rightarrow> 'a input_scheme \<Rightarrow> 'a input_scheme" where
  "on_irq12 data k =
     (if packet_idx (ms k) = 0 \<and> data AND 0x08 = 0 then k
      else
        let k1 = k\<lparr>ms := (ms k)\<lparr>packet_bytes := (packet_bytes (ms k))[packet_idx (ms k) := data],
                                packet_idx := packet_idx (ms k) + 1\<rparr>\<rparr>
        in if packet_idx (ms k1) < 3 then k1
           else
             let k2 = k1\<lparr>ms := (ms k1)\<lparr>packet_idx := 0\<rparr>\<rparr>
             in if packet_bytes (ms k2) ! 0 AND 0xC0 \<noteq> 0 then k2
                else
                  let k3 = k2\<lparr>ms := mouse_buf_push (decode_packet (packet_bytes (ms k2))) (ms k2)\<rparr>
                  in case wait_queue_pop (mouse_waitq (ms k3)) k3 of (w, wq, k4) \<Rightarrow>
                       let k5 = k4\<lparr>ms := (ms k4)\<lparr>mouse_waitq := wq\<rparr>\<rparr>
                       in if w \<noteq> NULL then mlfq_enqueue w k5 else k5)"

text \<open>\<open>got\<close> says whether earlier iterations of the loop delivered a packet (\<^verbatim>\<open>n > 0\<close>).\<close>

fun mouse_read :: "nat \<Rightarrow> bool \<Rightarrow> bool \<Rightarrow> 'a input_scheme \<Rightarrow> mouse_packet list \<times> io \<times> 'a input_scheme" where
  "mouse_read 0 got nonblock k = ([], IoDone, k)"
| "mouse_read (Suc left) got nonblock k =
     (case mouse_buf_pop (ms k) of
        Some (pkt, s) \<Rightarrow> (case mouse_read left True nonblock (k\<lparr>ms := s\<rparr>) of (ps, r, k1) \<Rightarrow> (pkt # ps, r, k1))
      | None \<Rightarrow>
          if got \<or> nonblock then ([], IoDone, k)
          else
            let k1 = upd_proc (current_process k) (p_state_update (\<lambda>_. PROCESS_BLOCKED_MOUSE)) k
            in case wait_queue_push (mouse_waitq (ms k1)) (current_process k1) k1 of (wq, k2) \<Rightarrow>
                 ([], IoBlock, k2\<lparr>ms := (ms k2)\<lparr>mouse_waitq := wq\<rparr>\<rparr>))"

section \<open>The buffers hold lists\<close>

text \<open>
  A ring that keeps one slot free and has no counter: empty when the two indices are equal, full when the next slot
  to write would be the next to read.
\<close>

definition gap_count :: "nat \<Rightarrow> nat \<Rightarrow> nat \<Rightarrow> nat" where
  "gap_count n h t = (if t \<le> h then h - t else h + n - t)"

lemma gap_head: "h < n \<Longrightarrow> t < n \<Longrightarrow> h = (t + gap_count n h t) mod n"
  by (auto simp: gap_count_def)

lemma gap_bound: "h < n \<Longrightarrow> t < n \<Longrightarrow> gap_count n h t \<le> n - 1"
  by (auto simp: gap_count_def)

lemma gap_empty: "h < n \<Longrightarrow> t < n \<Longrightarrow> gap_count n h t = 0 \<longleftrightarrow> t = h"
  by (auto simp: gap_count_def)

lemma gap_full: "h < n \<Longrightarrow> t < n \<Longrightarrow> (h + 1) mod n = t \<longleftrightarrow> gap_count n h t = n - 1"
  by (cases "h + 1 = n") (auto simp: gap_count_def)

lemma gap_put: "h < n \<Longrightarrow> t < n \<Longrightarrow> (h + 1) mod n \<noteq> t \<Longrightarrow> gap_count n ((h + 1) mod n) t = Suc (gap_count n h t)"
  by (cases "h + 1 = n") (auto simp: gap_count_def)

lemma gap_get: "h < n \<Longrightarrow> t < n \<Longrightarrow> t \<noteq> h \<Longrightarrow> gap_count n h ((t + 1) mod n) = gap_count n h t - 1"
  by (cases "t + 1 = n") (auto simp: gap_count_def)

definition gap_held :: "nat \<Rightarrow> 'b list \<Rightarrow> u32 \<Rightarrow> u32 \<Rightarrow> 'b list" where
  "gap_held n buf h t = ring_contents buf (unat t) (gap_count n (unat h) (unat t))"

definition gap_ok :: "nat \<Rightarrow> 'b list \<Rightarrow> u32 \<Rightarrow> u32 \<Rightarrow> bool" where
  "gap_ok n buf h t \<longleftrightarrow> length buf = n \<and> unat h < n \<and> unat t < n \<and> n < 2 ^ 32"

lemma unat_next: "unat (w :: u32) < n \<Longrightarrow> n < 2 ^ 32 \<Longrightarrow> unat ((w + 1) mod of_nat n) = (unat w + 1) mod n"
proof -
  assume w: "unat w < n" and n: "n < 2 ^ 32"
  have "unat (w + 1) = unat w + 1" using w n by (simp add: unat_word_ariths)
  moreover have "unat (of_nat n :: u32) = n" using n by (simp add: unat_of_nat take_bit_nat_eq_self)
  ultimately show ?thesis by (simp add: unat_mod)
qed

lemma gap_held_bound: "gap_ok n buf h t \<Longrightarrow> length (gap_held n buf h t) \<le> n - 1"
  using gap_bound [of "unat h" n "unat t"] by (simp add: gap_ok_def gap_held_def)

lemma gap_held_put:
  assumes ok: "gap_ok n buf h t"
  shows "(h + 1) mod of_nat n = t \<longleftrightarrow> length (gap_held n buf h t) = n - 1"
    "(h + 1) mod of_nat n \<noteq> t \<Longrightarrow> gap_ok n (buf[unat h := c]) ((h + 1) mod of_nat n) t"
    "(h + 1) mod of_nat n \<noteq> t \<Longrightarrow> gap_held n (buf[unat h := c]) ((h + 1) mod of_nat n) t = gap_held n buf h t @ [c]"
proof -
  have r: "length buf = n" "unat h < n" "unat t < n" "n < 2 ^ 32" using ok by (auto simp: gap_ok_def)
  have nx: "unat ((h + 1) mod of_nat n) = (unat h + 1) mod n" by (rule unat_next [OF r(2,4)])
  have e: "(h + 1) mod of_nat n = t \<longleftrightarrow> (unat h + 1) mod n = unat t" by (simp only: word_unat_eq_iff nx)
  show "(h + 1) mod of_nat n = t \<longleftrightarrow> length (gap_held n buf h t) = n - 1"
    unfolding e gap_full [OF r(2,3)] by (simp add: gap_held_def)
  assume "(h + 1) mod of_nat n \<noteq> t"
  then have ne: "(unat h + 1) mod n \<noteq> unat t" using e by simp
  have g: "gap_count n (unat h) (unat t) < length buf"
    using gap_full [OF r(2,3)] gap_bound [OF r(2,3)] ne r(1,2) by linarith
  show "gap_ok n (buf[unat h := c]) ((h + 1) mod of_nat n) t" using r nx by (simp add: gap_ok_def)
  show "gap_held n (buf[unat h := c]) ((h + 1) mod of_nat n) t = gap_held n buf h t @ [c]"
    using ring_contents_put [OF g, of "unat t" c] gap_head [OF r(2,3)] r(1) gap_put [OF r(2,3) ne] nx
    by (simp add: gap_held_def)
qed

lemma gap_held_get:
  assumes ok: "gap_ok n buf h t"
  shows "t = h \<longleftrightarrow> gap_held n buf h t = []"
    "t \<noteq> h \<Longrightarrow> gap_ok n buf h ((t + 1) mod of_nat n)"
    "t \<noteq> h \<Longrightarrow> gap_held n buf h t = buf ! unat t # gap_held n buf h ((t + 1) mod of_nat n)"
proof -
  have r: "length buf = n" "unat h < n" "unat t < n" "n < 2 ^ 32" using ok by (auto simp: gap_ok_def)
  have nx: "unat ((t + 1) mod of_nat n) = (unat t + 1) mod n" by (rule unat_next [OF r(3,4)])
  have e: "t = h \<longleftrightarrow> gap_count n (unat h) (unat t) = 0" using gap_empty [OF r(2,3)] by (simp add: word_unat_eq_iff)
  show "t = h \<longleftrightarrow> gap_held n buf h t = []"
    unfolding e gap_held_def by (metis length_ring_contents list.size(3) length_0_conv)
  assume "t \<noteq> h"
  then have ne: "unat t \<noteq> unat h" "0 < gap_count n (unat h) (unat t)" using e by (simp_all add: word_unat_eq_iff)
  show "gap_ok n buf h ((t + 1) mod of_nat n)" using r nx by (simp add: gap_ok_def)
  show "gap_held n buf h t = buf ! unat t # gap_held n buf h ((t + 1) mod of_nat n)"
    using ring_contents_get [OF ne(2), of "unat t" buf] r gap_get [OF r(2,3) ne(1)] nx by (simp add: gap_held_def)
qed

definition kbd_ok :: "kbd \<Rightarrow> bool" where
  "kbd_ok s \<longleftrightarrow> gap_ok 256 (kbd_buf s) (kbd_head s) (kbd_tail s)"

definition kbd_held :: "kbd \<Rightarrow> u8 list" where
  "kbd_held s = gap_held 256 (kbd_buf s) (kbd_head s) (kbd_tail s)"

definition mouse_ok :: "mouse \<Rightarrow> bool" where
  "mouse_ok s \<longleftrightarrow> gap_ok 64 (mouse_buf s) (mouse_head s) (mouse_tail s)"

definition mouse_held :: "mouse \<Rightarrow> mouse_packet list" where
  "mouse_held s = gap_held 64 (mouse_buf s) (mouse_head s) (mouse_tail s)"

interpretation kbd_ring: bounded_fifo kbd_buf_push kbd_buf_pop kbd_ok kbd_held 255
proof unfold_locales
  fix s :: kbd assume "kbd_ok s"
  then have ok: "gap_ok 256 (kbd_buf s) (kbd_head s) (kbd_tail s)" by (simp add: kbd_ok_def)
  note p = gap_held_put [OF ok, simplified] and g = gap_held_get [OF ok, simplified]
  show "kbd_ok (kbd_buf_push x s)" for x using ok p by (simp add: kbd_ok_def kbd_buf_push_def Let_def)
  show "kbd_held (kbd_buf_push x s) = (if length (kbd_held s) < 255 then kbd_held s @ [x] else kbd_held s)" for x
  proof (cases "(kbd_head s + 1) mod 256 = kbd_tail s")
    case True
    then have "kbd_buf_push x s = s" by (simp add: kbd_buf_push_def)
    moreover have "length (kbd_held s) = 255" using p(1) True by (simp only: kbd_held_def) blast
    ultimately show ?thesis by simp
  next
    case False
    have "length (kbd_held s) \<noteq> 255" using p(1) False by (simp only: kbd_held_def) blast
    then have "length (kbd_held s) < 255" using gap_held_bound [OF ok] by (simp add: kbd_held_def)
    moreover have "kbd_held (kbd_buf_push x s) = kbd_held s @ [x]"
      using p(3) [OF False, of x] False by (simp add: kbd_held_def kbd_buf_push_def)
    ultimately show ?thesis by simp
  qed
  show "kbd_held s = [] \<Longrightarrow> kbd_buf_pop s = None" using g(1) by (simp add: kbd_held_def kbd_buf_pop_def)
  show "\<exists>t. kbd_buf_pop s = Some (x, t) \<and> kbd_ok t \<and> kbd_held t = xs" if "kbd_held s = x # xs" for x xs
  proof -
    have ne: "kbd_tail s \<noteq> kbd_head s" using that g(1) by (auto simp: kbd_held_def)
    have "x # xs = kbd_buf s ! unat (kbd_tail s) # kbd_held (s\<lparr>kbd_tail := (kbd_tail s + 1) mod 256\<rparr>)"
      using that g(3) [OF ne] by (simp only: kbd_held_def) simp
    then show ?thesis using ne g(2) [OF ne] by (simp add: kbd_buf_pop_def kbd_ok_def)
  qed
  show "length (kbd_held s) \<le> 255" using gap_held_bound [OF ok] by (simp add: kbd_held_def)
qed

interpretation mouse_ring: bounded_fifo mouse_buf_push mouse_buf_pop mouse_ok mouse_held 63
proof unfold_locales
  fix s :: mouse assume "mouse_ok s"
  then have ok: "gap_ok 64 (mouse_buf s) (mouse_head s) (mouse_tail s)" by (simp add: mouse_ok_def)
  note p = gap_held_put [OF ok, simplified] and g = gap_held_get [OF ok, simplified]
  show "mouse_ok (mouse_buf_push x s)" for x using ok p by (simp add: mouse_ok_def mouse_buf_push_def Let_def)
  show "mouse_held (mouse_buf_push x s) = (if length (mouse_held s) < 63 then mouse_held s @ [x] else mouse_held s)" for x
  proof (cases "(mouse_head s + 1) mod 64 = mouse_tail s")
    case True
    then have "mouse_buf_push x s = s" by (simp add: mouse_buf_push_def)
    moreover have "length (mouse_held s) = 63" using p(1) True by (simp only: mouse_held_def) blast
    ultimately show ?thesis by simp
  next
    case False
    have "length (mouse_held s) \<noteq> 63" using p(1) False by (simp only: mouse_held_def) blast
    then have "length (mouse_held s) < 63" using gap_held_bound [OF ok] by (simp add: mouse_held_def)
    moreover have "mouse_held (mouse_buf_push x s) = mouse_held s @ [x]"
      using p(3) [OF False, of x] False by (simp add: mouse_held_def mouse_buf_push_def)
    ultimately show ?thesis by simp
  qed
  show "mouse_held s = [] \<Longrightarrow> mouse_buf_pop s = None" using g(1) by (simp add: mouse_held_def mouse_buf_pop_def)
  show "\<exists>t. mouse_buf_pop s = Some (x, t) \<and> mouse_ok t \<and> mouse_held t = xs" if "mouse_held s = x # xs" for x xs
  proof -
    have ne: "mouse_tail s \<noteq> mouse_head s" using that g(1) by (auto simp: mouse_held_def)
    have "x # xs = mouse_buf s ! unat (mouse_tail s) # mouse_held (s\<lparr>mouse_tail := (mouse_tail s + 1) mod 64\<rparr>)"
      using that g(3) [OF ne] by (simp only: mouse_held_def) simp
    then show ?thesis using ne g(2) [OF ne] by (simp add: mouse_buf_pop_def mouse_ok_def)
  qed
  show "length (mouse_held s) \<le> 63" using gap_held_bound [OF ok] by (simp add: mouse_held_def)
qed

section \<open>The keyboard's line discipline\<close>

lemma input_more: "tasks.more k' = tasks.more k \<Longrightarrow> kb k' = kb k \<and> ms k' = ms k \<and> echo k' = echo k"
  by (cases k; cases k') simp

lemma input_frame [simp]:
  "kb (mlfq_enqueue p k) = kb k" "ms (mlfq_enqueue p k) = ms k" "echo (mlfq_enqueue p k) = echo k"
  "kb (upd_proc p f k) = kb k" "ms (upd_proc p f k) = ms k" "echo (upd_proc p f k) = echo k"
  "kb (snd (snd (wait_queue_pop wq k))) = kb k" "ms (snd (snd (wait_queue_pop wq k))) = ms k"
  "kb (snd (wait_queue_push wq p k)) = kb k" "ms (snd (wait_queue_push wq p k)) = ms k"
  using input_more [of "mlfq_enqueue p k" k] input_more [of "upd_proc p f k" k]
    input_more [of "snd (snd (wait_queue_pop wq k))" k] input_more [of "snd (wait_queue_push wq p k)" k] by simp_all

definition kbd_wf :: "kbd \<Rightarrow> bool" where
  "kbd_wf s \<longleftrightarrow> kbd_ok s \<and> length (line_buf s) = 256 \<and> unat (line_len s) < 256"

definition kbd_line :: "kbd \<Rightarrow> u8 list" where
  "kbd_line s = take (unat (line_len s)) (line_buf s)"

text \<open>
  What the driver promises: a shift state, the line being edited and the bytes ready to be read, of which there are at
  most 255.
\<close>

type_synonym kbd_abs = "bool \<times> u8 list \<times> u8 list"

definition kbd_abs :: "kbd \<Rightarrow> kbd_abs" where
  "kbd_abs s = (shift_down s, kbd_line s, kbd_held s)"

definition kbd_key :: "u8 \<Rightarrow> kbd_abs \<Rightarrow> kbd_abs" where
  "kbd_key scancode = (\<lambda>(shift, line, held).
     if scancode AND 0x7F \<in> {SC_LSHIFT, SC_RSHIFT} then (scancode AND 0x80 = 0, line, held)
     else if scancode AND 0x80 \<noteq> 0 \<or> key_char scancode shift = 0 then (shift, line, held)
     else if key_char scancode shift = 8 then (shift, butlast line, held)
     else if key_char scancode shift = 10 \<or> length line = 255
       then (shift, [], take 255 (held @ line @ [key_char scancode shift]))
     else (shift, line @ [key_char scancode shift], held))"

lemma kbd_push_fields [simp]:
  "line_buf (kbd_buf_push c s) = line_buf s" "line_len (kbd_buf_push c s) = line_len s"
  "shift_down (kbd_buf_push c s) = shift_down s" "kbd_waitq (kbd_buf_push c s) = kbd_waitq s"
  by (simp_all add: kbd_buf_push_def Let_def)

lemma kbd_push_all_fields [simp]:
  "line_buf (fold kbd_buf_push cs s) = line_buf s" "line_len (fold kbd_buf_push cs s) = line_len s"
  "shift_down (fold kbd_buf_push cs s) = shift_down s" "kbd_waitq (fold kbd_buf_push cs s) = kbd_waitq s"
  by (induction cs arbitrary: s) simp_all

lemma kbd_len_upd [simp]:
  "kbd_ok (s\<lparr>line_len := n\<rparr>) = kbd_ok s" "kbd_held (s\<lparr>line_len := n\<rparr>) = kbd_held s"
  "kbd_ok (s\<lparr>line_buf := b\<rparr>) = kbd_ok s" "kbd_held (s\<lparr>line_buf := b\<rparr>) = kbd_held s"
  "kbd_ok (s\<lparr>kbd_waitq := w\<rparr>) = kbd_ok s" "kbd_held (s\<lparr>kbd_waitq := w\<rparr>) = kbd_held s"
  "kbd_ok (s\<lparr>shift_down := d\<rparr>) = kbd_ok s" "kbd_held (s\<lparr>shift_down := d\<rparr>) = kbd_held s"
  by (simp_all add: kbd_ok_def kbd_held_def)

lemma put_line_held:
  assumes ok: "kbd_ok s" and l: "unat (line_len s) \<le> length (line_buf s)"
  shows "kbd_ok (put_line s) \<and> kbd_held (put_line s) = take 255 (kbd_held s @ kbd_line s) \<and> line_len (put_line s) = 0 \<and>
    line_buf (put_line s) = line_buf s \<and> shift_down (put_line s) = shift_down s"
proof -
  have "map ((!) (line_buf s)) [0..<unat (line_len s)] = kbd_line s"
    using l by (simp add: kbd_line_def list_eq_iff_nth_eq)
  then have "fold (\<lambda>i. kbd_buf_push (line_buf s ! i)) [0..<unat (line_len s)] s = fold kbd_buf_push (kbd_line s) s"
    using fold_map [of kbd_buf_push "(!) (line_buf s)" "[0..<unat (line_len s)]"] by (simp add: comp_def)
  then have "put_line s = (fold kbd_buf_push (kbd_line s) s)\<lparr>line_len := 0\<rparr>" by (simp add: put_line_def)
  then show ?thesis using kbd_ring.put_all [OF ok, of "kbd_line s"] by simp
qed

lemma kbd_line_snoc:
  assumes "unat (line_len s) < 256" "length (line_buf s) = 256"
  shows "kbd_line (s\<lparr>line_buf := (line_buf s)[unat (line_len s) := c], line_len := line_len s + 1\<rparr>) = kbd_line s @ [c]"
    "unat (line_len s + 1) = Suc (unat (line_len s))"
proof -
  show n: "unat (line_len s + 1) = Suc (unat (line_len s))" using assms by (simp add: unat_word_ariths)
  show "kbd_line (s\<lparr>line_buf := (line_buf s)[unat (line_len s) := c], line_len := line_len s + 1\<rparr>) = kbd_line s @ [c]"
    using assms by (simp add: kbd_line_def n take_Suc_conv_app_nth)
qed

text \<open>Storing one character in the line, and what is done with a line that is complete or full.\<close>

lemma store_char:
  fixes c :: u8
  assumes wf: "kbd_wf s"
  defines "s2 \<equiv> s\<lparr>line_buf := (line_buf s)[unat (line_len s) := c], line_len := line_len s + 1\<rparr>"
  shows "kbd_line s2 = kbd_line s @ [c]" "kbd_held s2 = kbd_held s" "shift_down s2 = shift_down s"
    "line_len s2 = 256 \<longleftrightarrow> length (kbd_line s) = 255"
    "line_len s2 \<noteq> 256 \<Longrightarrow> kbd_wf s2" "kbd_wf (put_line s2)"
    "kbd_held (put_line s2) = take 255 (kbd_held s @ kbd_line s @ [c])" "kbd_line (put_line s2) = []"
    "shift_down (put_line s2) = shift_down s"
proof -
  have w: "kbd_ok s" "length (line_buf s) = 256" "unat (line_len s) < 256" using wf by (simp_all add: kbd_wf_def)
  note sn = kbd_line_snoc(1) [OF w(3,2), of c] kbd_line_snoc(2) [OF w(3,2)]
  show l: "kbd_line s2 = kbd_line s @ [c]" using sn(1) by (simp add: s2_def)
  show h: "kbd_held s2 = kbd_held s" and "shift_down s2 = shift_down s" by (simp_all add: s2_def kbd_held_def)
  have u: "unat (line_len s2) = Suc (unat (line_len s))" using sn(2) by (simp add: s2_def)
  have "length (kbd_line s) = unat (line_len s)" using w by (simp add: kbd_line_def)
  then show "line_len s2 = 256 \<longleftrightarrow> length (kbd_line s) = 255" using u by (auto simp: word_unat_eq_iff)
  have ok2: "kbd_ok s2" "length (line_buf s2) = 256" "unat (line_len s2) \<le> 256"
    using w u by (simp_all add: s2_def kbd_ok_def)
  show "kbd_wf s2" if "line_len s2 \<noteq> 256"
    using ok2 that by (auto simp: kbd_wf_def word_unat_eq_iff)
  have "unat (line_len s2) \<le> length (line_buf s2)" using ok2 by simp
  note pl = put_line_held [OF ok2(1) this]
  show "kbd_wf (put_line s2)" using pl ok2 by (simp add: kbd_wf_def)
  show "kbd_held (put_line s2) = take 255 (kbd_held s @ kbd_line s @ [c])" using pl l h by simp
  show "kbd_line (put_line s2) = []" using pl by (simp add: kbd_line_def)
  show "shift_down (put_line s2) = shift_down s" using pl by (simp add: s2_def)
qed

lemma kbd_waitq_abs [simp]:
  "kbd_wf (s\<lparr>kbd_waitq := w\<rparr>) = kbd_wf s" "kbd_abs (s\<lparr>kbd_waitq := w\<rparr>) = kbd_abs s"
  "kbd_line (s\<lparr>kbd_waitq := w\<rparr>) = kbd_line s"
  by (simp_all add: kbd_wf_def kbd_abs_def kbd_line_def)

text \<open>Waking a reader changes nothing of the keyboard but its wait queue.\<close>

lemma kbd_wake:
  "\<exists>w. kb (case wait_queue_pop (kbd_waitq (kb k)) k of (p, wq, k4) \<Rightarrow>
       let k5 = k4\<lparr>kb := (kb k4)\<lparr>kbd_waitq := wq\<rparr>\<rparr> in if p \<noteq> NULL then mlfq_enqueue p k5 else k5) = (kb k)\<lparr>kbd_waitq := w\<rparr>"
proof -
  obtain p wq k4 where e: "wait_queue_pop (kbd_waitq (kb k)) k = (p, wq, k4)"
    by (cases "wait_queue_pop (kbd_waitq (kb k)) k") auto
  have "kb k4 = kb k" using input_frame(7) [of "kbd_waitq (kb k)" k] e by simp
  then show ?thesis using e by (auto simp: Let_def)
qed

lemma on_irq1_refines:
  assumes wf: "kbd_wf (kb k)"
  shows "kbd_wf (kb (on_irq1 sc k)) \<and> kbd_abs (kb (on_irq1 sc k)) = kbd_key sc (kbd_abs (kb k))"
proof -
  let ?c = "key_char sc (shift_down (kb k))" and ?s = "kb k"
  let ?s2 = "?s\<lparr>line_buf := (line_buf ?s)[unat (line_len ?s) := ?c], line_len := line_len ?s + 1\<rparr>"
  have w: "kbd_ok ?s" "length (line_buf ?s) = 256" "unat (line_len ?s) < 256" using wf by (simp_all add: kbd_wf_def)
  have lt: "line_len ?s < 256" using w(3) by (simp add: word_less_nat_alt)
  note st = store_char [OF wf, of ?c]
  consider (shift) "sc AND 0x7F \<in> {SC_LSHIFT, SC_RSHIFT}"
    | (none) "sc AND 0x7F \<notin> {SC_LSHIFT, SC_RSHIFT}" "sc AND 0x80 \<noteq> 0 \<or> ?c = 0"
    | (erase) "sc AND 0x7F \<notin> {SC_LSHIFT, SC_RSHIFT}" "sc AND 0x80 = 0" "?c = 8"
    | (line) "sc AND 0x7F \<notin> {SC_LSHIFT, SC_RSHIFT}" "sc AND 0x80 = 0" "?c \<noteq> 0" "?c \<noteq> 8" "?c = 10 \<or> length (kbd_line ?s) = 255"
    | (key) "sc AND 0x7F \<notin> {SC_LSHIFT, SC_RSHIFT}" "sc AND 0x80 = 0" "?c \<noteq> 0" "?c \<noteq> 8" "?c \<noteq> 10" "length (kbd_line ?s) \<noteq> 255"
    by blast
  then show ?thesis
  proof cases
    case shift
    then show ?thesis using wf by (auto simp: on_irq1_def kbd_key_def kbd_abs_def kbd_wf_def kbd_line_def)
  next
    case none
    then show ?thesis using wf by (auto simp: on_irq1_def kbd_key_def kbd_abs_def)
  next
    case erase
    have "line_len ?s > 0 \<Longrightarrow> unat (line_len ?s - 1) = unat (line_len ?s) - 1" by (simp add: unat_minus_one word_gt_0)
    moreover have "butlast (kbd_line ?s) = take (unat (line_len ?s) - 1) (line_buf ?s)"
      using w by (simp add: kbd_line_def butlast_take)
    ultimately show ?thesis using erase wf by (auto simp: on_irq1_def kbd_key_def kbd_abs_def kbd_wf_def kbd_line_def word_gt_0)
  next
    case line
    let ?k1 = "k\<lparr>echo := echo k @ [?c]\<rparr>"
    let ?k3 = "?k1\<lparr>kb := put_line ?s2\<rparr>"
    obtain v where "kb (on_irq1 sc k) = (put_line ?s2)\<lparr>kbd_waitq := v\<rparr>"
      using kbd_wake [of ?k3] line lt st(4) by (auto simp: on_irq1_def Let_def)
    then show ?thesis using st(6-9) line by (simp add: kbd_abs_def kbd_key_def)
  next
    case key
    then have "kb (on_irq1 sc k) = ?s2" using lt st(4) by (auto simp: on_irq1_def Let_def)
    then show ?thesis using st(1-5) key by (simp add: kbd_abs_def kbd_key_def)
  qed
qed

section \<open>Reading\<close>

lemma keyboard_read_held:
  "kbd_ok (kb k) \<Longrightarrow> keyboard_read n k = (cs, r, k') \<Longrightarrow>
   kbd_ok (kb k') \<and> kbd_held (kb k) = cs @ kbd_held (kb k') \<and> length cs \<le> n \<and> 10 \<notin> set (butlast cs) \<and>
   (r = IoBlock \<longrightarrow> kbd_held (kb k') = [] \<and> length cs < n \<and> 10 \<notin> set cs) \<and>
   (r = IoDone \<longrightarrow> length cs = n \<or> cs \<noteq> [] \<and> last cs = 10)"
proof (induction n arbitrary: k cs)
  case (Suc n)
  show ?case
  proof (cases "kbd_held (kb k)")
    case Nil
    let ?k1 = "upd_proc (current_process k) (p_state_update (\<lambda>_. PROCESS_BLOCKED_KBD)) k"
    obtain wq k2 where p: "wait_queue_push (kbd_waitq (kb ?k1)) (current_process ?k1) ?k1 = (wq, k2)" by fastforce
    have "k2 = snd (wait_queue_push (kbd_waitq (kb ?k1)) (current_process ?k1) ?k1)" using p by simp
    then have "kb k2 = kb k" by (simp only: input_frame)
    then show ?thesis using Suc.prems Nil kbd_ring.get_empty [OF Suc.prems(1) Nil] p by auto
  next
    case (Cons c ds)
    then obtain t where t: "kbd_buf_pop (kb k) = Some (c, t)" "kbd_ok t" "kbd_held t = ds"
      using kbd_ring.get_first [OF Suc.prems(1) Cons] by blast
    show ?thesis
    proof (cases "c = 10")
      case True
      then show ?thesis using Suc.prems(2) t Cons by auto
    next
      case False
      obtain es r1 k1 where rd: "keyboard_read n (k\<lparr>kb := t\<rparr>) = (es, r1, k1)"
        by (cases "keyboard_read n (k\<lparr>kb := t\<rparr>)") auto
      have e: "cs = c # es" "r1 = r" "k1 = k'" using Suc.prems(2) t False rd by auto
      note IH = Suc.IH [of "k\<lparr>kb := t\<rparr>" es, OF _ rd [unfolded e(2,3)]]
      show ?thesis using IH t(2,3) Cons e False by (cases es) auto
    qed
  qed
qed auto

section \<open>Mouse packets\<close>

lemma mouse_idx_upd [simp]:
  "mouse_ok (s\<lparr>packet_idx := n\<rparr>) = mouse_ok s" "mouse_held (s\<lparr>packet_idx := n\<rparr>) = mouse_held s"
  "mouse_ok (s\<lparr>packet_bytes := b\<rparr>) = mouse_ok s" "mouse_held (s\<lparr>packet_bytes := b\<rparr>) = mouse_held s"
  "mouse_ok (s\<lparr>mouse_waitq := w\<rparr>) = mouse_ok s" "mouse_held (s\<lparr>mouse_waitq := w\<rparr>) = mouse_held s"
  by (simp_all add: mouse_ok_def mouse_held_def)

lemma mouse_wake:
  "\<exists>w. ms (case wait_queue_pop (mouse_waitq (ms k)) k of (p, wq, k4) \<Rightarrow>
       let k5 = k4\<lparr>ms := (ms k4)\<lparr>mouse_waitq := wq\<rparr>\<rparr> in if p \<noteq> NULL then mlfq_enqueue p k5 else k5) = (ms k)\<lparr>mouse_waitq := w\<rparr>"
proof -
  obtain p wq k4 where e: "wait_queue_pop (mouse_waitq (ms k)) k = (p, wq, k4)"
    by (cases "wait_queue_pop (mouse_waitq (ms k)) k") auto
  have "ms k4 = ms k" using input_frame(8) [of "mouse_waitq (ms k)" k] e by simp
  then show ?thesis using e by (auto simp: Let_def)
qed

lemma mouse_push_fields [simp]:
  "packet_idx (mouse_buf_push p s) = packet_idx s" "packet_bytes (mouse_buf_push p s) = packet_bytes s"
  by (simp_all add: mouse_buf_push_def Let_def)

text \<open>Three bytes of a packet, from a state between two packets.\<close>

lemma mouse_three_bytes:
  fixes b0 b1 b2 :: u8
  assumes idx: "packet_idx (ms k) = 0" "length (packet_bytes (ms k)) = 3" and ok: "mouse_ok (ms k)" and b: "b0 AND 0x08 \<noteq> 0"
  defines "k' \<equiv> on_irq12 b2 (on_irq12 b1 (on_irq12 b0 k))"
  shows "packet_idx (ms k') = 0 \<and> packet_bytes (ms k') = [b0, b1, b2] \<and> mouse_ok (ms k') \<and>
    mouse_held (ms k') = (if b0 AND 0xC0 = 0 \<and> length (mouse_held (ms k)) < 63
      then mouse_held (ms k) @ [decode_packet [b0, b1, b2]] else mouse_held (ms k))"
proof -
  obtain x0 x1 x2 where x: "packet_bytes (ms k) = [x0, x1, x2]"
    using idx(2) by (auto simp: numeral_3_eq_3 length_Suc_conv)
  let ?s1 = "(ms k)\<lparr>packet_bytes := [b0, x1, x2], packet_idx := 1\<rparr>"
  let ?s2 = "(ms k)\<lparr>packet_bytes := [b0, b1, x2], packet_idx := 2\<rparr>"
  let ?s3 = "(ms k)\<lparr>packet_bytes := [b0, b1, b2], packet_idx := 0\<rparr>"
  have 1: "on_irq12 b0 k = k\<lparr>ms := ?s1\<rparr>" using idx b x by (simp add: on_irq12_def)
  have 2: "on_irq12 b1 (k\<lparr>ms := ?s1\<rparr>) = k\<lparr>ms := ?s2\<rparr>" by (simp add: on_irq12_def numeral_2_eq_2)
  show ?thesis
  proof (cases "b0 AND 0xC0 = 0")
    case False
    then have "k' = k\<lparr>ms := ?s3\<rparr>" unfolding k'_def 1 2 by (simp add: on_irq12_def)
    then show ?thesis using False ok by simp
  next
    case True
    obtain w where "ms k' = (mouse_buf_push (decode_packet [b0, b1, b2]) ?s3)\<lparr>mouse_waitq := w\<rparr>"
      using mouse_wake [of "k\<lparr>ms := mouse_buf_push (decode_packet [b0, b1, b2]) ?s3\<rparr>"] True
      unfolding k'_def 1 2 by (auto simp: on_irq12_def Let_def)
    moreover have "mouse_ok ?s3" using ok by simp
    ultimately show ?thesis
      using True mouse_ring.put_held [of ?s3] mouse_ring.put_ok [of ?s3] by simp
  qed
qed

section \<open>Properties\<close>

definition kbd0 :: kbd where
  "kbd0 = \<lparr>kbd_buf = replicate 256 0, kbd_head = 0, kbd_tail = 0, kbd_waitq = wq_empty, line_buf = replicate 256 0,
     line_len = 0, shift_down = False\<rparr>"

definition mouse0 :: mouse where
  "mouse0 = \<lparr>mouse_buf = replicate 64 \<lparr>mp_dx = 0, mp_dy = 0, mp_buttons = 0\<rparr>, mouse_head = 0, mouse_tail = 0,
     mouse_waitq = wq_empty, packet_bytes = [0, 0, 0], packet_idx = 0\<rparr>"

definition input0 :: input where
  "input0 = ipc.extend ipc0 (input.fields kbd0 mouse0 [])"

lemma input0_simps [simp]: "kb input0 = kbd0" "ms input0 = mouse0"
  by (simp_all add: input0_def ipc.extend_def input.fields_def)

lemma kbd0_wf: "kbd_wf kbd0" "kbd_abs kbd0 = (False, [], [])"
  by (simp_all add: kbd_wf_def kbd_ok_def gap_ok_def kbd0_def kbd_abs_def kbd_line_def kbd_held_def gap_held_def gap_count_def)

text \<open>
  C26: The keyboard interrupt handler implements the line discipline \<open>kbd_key\<close>, for every sequence of scan codes: shift
  is a modifier, backspace removes the last character of the line, and a line is handed over as a whole when it ends
  or reaches 256 characters.
\<close>

theorem keyboard_line_discipline:
  assumes "kbd_wf (kb k)"
  shows "kbd_wf (kb (fold on_irq1 scs k)) \<and> kbd_abs (kb (fold on_irq1 scs k)) = fold kbd_key scs (kbd_abs (kb k))"
  using assms
proof (induction scs arbitrary: k)
  case (Cons sc scs)
  then show ?case using on_irq1_refines [OF Cons.prems, of sc] by simp
qed simp

text \<open>The keys h, left shift down, i, left shift up, o, backspace, enter.\<close>

theorem keyboard_line_discipline_witness:
  "kbd_held (kb (fold on_irq1 [0x23, 0x2A, 0x17, 0xAA, 0x18, 0x0E, 0x1C] input0)) = [104, 73, 10]"
proof -
  have "fold kbd_key [0x23, 0x2A, 0x17, 0xAA, 0x18, 0x0E, 0x1C] (False, [], []) = (False, [], [104, 73, 10])"
    by (simp add: kbd_key_def key_char_def kbd_us_def shift_char_def)
  then show ?thesis
    using keyboard_line_discipline [of input0 "[0x23, 0x2A, 0x17, 0xAA, 0x18, 0x0E, 0x1C]"] kbd0_wf
    by (simp add: kbd_abs_def)
qed

text \<open>
  C30: The ring buffer holds one byte less than the longest line: when a line reaches 256 characters, and nothing was
  waiting to be read, its last character - the newline, if there was one - is dropped and the reader gets 255.
\<close>

theorem full_line_loses_last_byte:
  assumes "kbd_wf (kb k)" "kbd_held (kb k) = []" "length (kbd_line (kb k)) = 255"
    and "key_char sc (shift_down (kb k)) \<notin> {0, 8}" "sc AND 0x80 = 0" "sc AND 0x7F \<notin> {SC_LSHIFT, SC_RSHIFT}"
  shows "kbd_held (kb (on_irq1 sc k)) = kbd_line (kb k) \<and> kbd_line (kb (on_irq1 sc k)) = []"
  using on_irq1_refines [OF assms(1), of sc] assms(2-) by (auto simp: kbd_abs_def kbd_key_def)

theorem full_line_loses_last_byte_witness:
  "kbd_held (kb (on_irq1 0x1C (input0\<lparr>kb := kbd0\<lparr>line_len := 255\<rparr>\<rparr>))) = replicate 255 0"
proof -
  let ?k = "input0\<lparr>kb := kbd0\<lparr>line_len := 255\<rparr>\<rparr>"
  have "kbd_wf (kb ?k)" "kbd_held (kb ?k) = []" "kbd_line (kb ?k) = replicate 255 0"
    by (simp_all add: kbd_wf_def kbd_line_def kbd0_def kbd_ok_def gap_ok_def kbd_held_def gap_held_def gap_count_def)
  moreover have "key_char 0x1C (shift_down (kb ?k)) = 10" by (simp add: key_char_def kbd_us_def kbd0_def)
  ultimately show ?thesis using full_line_loses_last_byte [of ?k "0x1C"] by simp
qed

text \<open>
  The PS/2 protocol: a movement is a 9-bit two's complement number whose sign is a bit of the first byte (bit 4 for x, bit
  5 for y) and whose low eight bits are a byte of their own; bits 0 to 2 of the first byte are the buttons.
\<close>

definition ps2_delta :: "bool \<Rightarrow> u8 \<Rightarrow> int" where
  "ps2_delta sign b = sint (word_cat (of_bool sign :: 1 word) b :: 9 word)"

definition ps2_packet :: "u8 \<Rightarrow> u8 \<Rightarrow> u8 \<Rightarrow> mouse_packet \<Rightarrow> bool" where
  "ps2_packet b0 b1 b2 p \<longleftrightarrow> sint (mp_dx p) = ps2_delta (bit b0 4) b1 \<and> sint (mp_dy p) = ps2_delta (bit b0 5) b2 \<and>
     (\<forall>i. bit (mp_buttons p) i \<longleftrightarrow> i < 3 \<and> bit b0 i)"

lemma u8_bounds: "0 \<le> uint b" "uint b < 256" "- 32768 \<le> uint b" for b :: u8
  using uint_bounded [of b] order_trans [of "- 32768" 0 "uint b"] by simp_all

lemma sint_small: "- (2 ^ (LENGTH('a) - 1)) \<le> k \<Longrightarrow> k < 2 ^ (LENGTH('a) - 1) \<Longrightarrow> sint (word_of_int k :: 'a::len word) = k"
  by (simp add: signed_of_int signed_take_bit_int_eq_self_iff)

lemma ps2_delta_int: "ps2_delta sign b = (if sign then uint b - 256 else uint b)"
proof -
  have "uint (word_cat (of_bool sign :: 1 word) b :: 9 word) = (if sign then 256 else 0) + uint b"
    using u8_bounds [of b] by (simp add: word_cat_eq uint_word_ariths unsigned_ucast_eq take_bit_int_eq_self push_bit_eq_mult)
  moreover have "uint (word_of_int (if sign then uint b - 256 else uint b) :: 9 word) = (if sign then 256 else 0) + uint b"
  proof -
    have "(uint b - 256) mod 512 = (uint b + 256) mod 512" using mod_add_self2 [of "uint b - 256" 512] by (simp add: add.commute)
    then show ?thesis using u8_bounds [of b] by (simp add: unsigned_of_int take_bit_eq_mod)
  qed
  ultimately have w: "(word_cat (of_bool sign :: 1 word) b :: 9 word) = word_of_int (if sign then uint b - 256 else uint b)"
    by (metis word_of_int_uint)
  show ?thesis unfolding ps2_delta_def w
    by (rule sint_small) (use u8_bounds [of b] order_trans [of "- 256" 0 "uint b"] in simp_all)
qed

lemma sint_delta: "sint (ucast b :: i16) = uint b" "sint ((ucast b :: i16) - 256) = uint b - 256" for b :: u8
proof -
  have e: "(ucast b :: i16) = word_of_int (uint b)" and e': "(ucast b :: i16) - 256 = word_of_int (uint b - 256)"
    by simp_all
  show "sint (ucast b :: i16) = uint b" unfolding e by (rule sint_small) (use u8_bounds [of b] in simp_all)
  show "sint ((ucast b :: i16) - 256) = uint b - 256" unfolding e' by (rule sint_small) (use u8_bounds [of b] in simp_all)
qed

lemma flag_bits:
  fixes b0 :: u8
  shows "bit b0 3 \<Longrightarrow> b0 AND 0x08 \<noteq> 0" "b0 AND 0xC0 = 0 \<longleftrightarrow> \<not> bit b0 6 \<and> \<not> bit b0 7"
    "b0 AND 0x10 = 0 \<longleftrightarrow> \<not> bit b0 4" "b0 AND 0x20 = 0 \<longleftrightarrow> \<not> bit b0 5" "bit (b0 AND 0x07) i \<longleftrightarrow> i < 3 \<and> bit b0 i"
proof -
  have c: "(0xC0 :: u8) = 2 ^ 6 OR 2 ^ 7" "(0x07 :: u8) = mask 3" by (simp_all add: mask_eq_exp_minus_1)
  show "bit b0 3 \<Longrightarrow> b0 AND 0x08 \<noteq> 0" using and_exp_eq_0_iff_not_bit [of b0 3] by simp
  show "b0 AND 0x10 = 0 \<longleftrightarrow> \<not> bit b0 4" using and_exp_eq_0_iff_not_bit [of b0 4] by simp
  show "b0 AND 0x20 = 0 \<longleftrightarrow> \<not> bit b0 5" using and_exp_eq_0_iff_not_bit [of b0 5] by simp
  show "b0 AND 0xC0 = 0 \<longleftrightarrow> \<not> bit b0 6 \<and> \<not> bit b0 7"
    unfolding c(1) bit.conj_disj_distrib or_eq_0_iff and_exp_eq_0_iff_not_bit ..
  show "bit (b0 AND 0x07) i \<longleftrightarrow> i < 3 \<and> bit b0 i" unfolding c(2) by (auto simp: bit_simps)
qed

lemma decode_packet_ps2: "ps2_packet b0 b1 b2 (decode_packet [b0, b1, b2])"
  by (simp add: ps2_packet_def decode_packet_def ps2_delta_int sint_delta flag_bits)

text \<open>
  C27: Three bytes of a PS/2 packet whose first byte has bit 3 set and no overflow bit add exactly one packet, if the
  buffer is not full, and this packet holds the movements and the buttons the protocol encodes in the three bytes. An
  overflowing packet is dropped, and either way the driver is ready for the next packet.
\<close>

theorem mouse_packet_decoded:
  assumes "packet_idx (ms k) = 0" "length (packet_bytes (ms k)) = 3" "mouse_ok (ms k)" "bit b0 3"
  shows "\<exists>p k'. k' = on_irq12 b2 (on_irq12 b1 (on_irq12 b0 k)) \<and> ps2_packet b0 b1 b2 p \<and>
    packet_idx (ms k') = 0 \<and> length (packet_bytes (ms k')) = 3 \<and> mouse_ok (ms k') \<and>
    mouse_held (ms k') = (if \<not> bit b0 6 \<and> \<not> bit b0 7 \<and> length (mouse_held (ms k)) < 63
      then mouse_held (ms k) @ [p] else mouse_held (ms k))"
proof -
  have b: "b0 AND 0x08 \<noteq> 0" "b0 AND 0xC0 = 0 \<longleftrightarrow> \<not> bit b0 6 \<and> \<not> bit b0 7"
    using flag_bits(1) [OF assms(4)] flag_bits(2) by blast+
  show ?thesis
    using mouse_three_bytes [where ?b1.0 = b1 and ?b2.0 = b2, OF assms(1-3) b(1)] decode_packet_ps2 [of b0 b1 b2] b(2)
    by (intro exI [of _ "decode_packet [b0, b1, b2]"]) simp
qed

theorem mouse_packet_decoded_witness:
  "\<exists>p. mouse_held (ms (on_irq12 0xFF (on_irq12 0x05 (on_irq12 0x29 input0)))) = [p] \<and> sint (mp_dx p) = 5 \<and> sint (mp_dy p) = - 1 \<and>
     bit (mp_buttons p) 0"
proof -
  have "packet_idx (ms input0) = 0" "length (packet_bytes (ms input0)) = 3" "mouse_ok (ms input0)" "mouse_held (ms input0) = []"
    by (simp_all add: mouse0_def mouse_ok_def gap_ok_def mouse_held_def gap_held_def gap_count_def)
  moreover have "bit (0x29 :: u8) 3" "\<not> bit (0x29 :: u8) 6" "\<not> bit (0x29 :: u8) 7" "bit (0x29 :: u8) 5" "\<not> bit (0x29 :: u8) 4" "bit (0x29 :: u8) 0"
    by (simp_all add: bit_numeral_rec)
  ultimately show ?thesis using mouse_packet_decoded [of input0 "0x29" "0xFF" "0x05"] by (auto simp: ps2_packet_def ps2_delta_int)
qed

end
