(* ===== verification/Descriptors.thy ===== *)
theory Descriptors
  imports Aeryk_Prelude
begin

text \<open>
  The descriptor tables: \<^verbatim>\<open>src/kernel/src/arch/x86_64/gdt.c\<close>, the gates of \<^verbatim>\<open>idt.c\<close> and the system-call registers of
  \<^verbatim>\<open>init_syscalls\<close> in \<^verbatim>\<open>syscall.c\<close>. The address of an interrupt stub, of the task state segment and of the system-call
  entry are arguments: they are assigned by the linker. Reading back what the processor reads from a descriptor gives
  the base, the limit and the handler that were written.
\<close>

section \<open>Global descriptor table\<close>

abbreviation GDT_SIZE :: nat where "GDT_SIZE \<equiv> 7"

record gdt_entry =
  g_limit_low :: u16
  g_base_low :: u16
  g_base_middle :: u8
  g_access :: u8
  g_flags :: u8
  g_base_high :: u8

record tss_entry =
  t_rsp0 :: u64
  t_rsp1 :: u64
  t_rsp2 :: u64
  t_ist :: "u64 list"
  t_iomap_base :: u16

record gdt_state =
  gdt_entries :: "gdt_entry list"
  tss_entry :: tss_entry
  gdt_limit :: u16

definition set_gdt_gate :: "nat \<Rightarrow> u32 \<Rightarrow> u32 \<Rightarrow> u8 \<Rightarrow> u8 \<Rightarrow> gdt_state \<Rightarrow> gdt_state" where
  "set_gdt_gate num base limit access gran s =
     s\<lparr>gdt_entries := (gdt_entries s)[num :=
       \<lparr>g_limit_low = ucast (limit AND 0xFFFF),
        g_base_low = ucast (base AND 0xFFFF),
        g_base_middle = ucast (drop_bit 16 base AND 0xFF),
        g_access = access,
        g_flags = ucast (drop_bit 16 limit AND 0x0F) OR (gran AND 0xF0),
        g_base_high = ucast (drop_bit 24 base AND 0xFF)\<rparr>]\<rparr>"

text \<open>\<^verbatim>\<open>sizeof(struct tss_entry_struct)\<close> is 104.\<close>

definition write_tss :: "nat \<Rightarrow> u64 \<Rightarrow> u64 \<Rightarrow> gdt_state \<Rightarrow> gdt_state" where
  "write_tss num rsp0 base s =
     (let s1 = set_gdt_gate num (ucast (base AND 0xFFFFFFFF)) (104 - 1) 0x89 0x00 s;
          s2 = s1\<lparr>gdt_entries := (gdt_entries s1)[num + 1 :=
            \<lparr>g_limit_low = ucast (drop_bit 32 base AND 0xFFFF), g_base_low = ucast (drop_bit 48 base AND 0xFFFF),
             g_base_middle = 0, g_access = 0, g_flags = 0, g_base_high = 0\<rparr>]\<rparr>
      in s2\<lparr>tss_entry := \<lparr>t_rsp0 = rsp0, t_rsp1 = 0, t_rsp2 = 0, t_ist = replicate 7 0, t_iomap_base = 104\<rparr>\<rparr>)"

definition set_kernel_stack :: "u64 \<Rightarrow> gdt_state \<Rightarrow> gdt_state" where
  "set_kernel_stack rsp0 s = s\<lparr>tss_entry := (tss_entry s)\<lparr>t_rsp0 := rsp0\<rparr>\<rparr>"

definition init_gdt :: "u64 \<Rightarrow> gdt_state \<Rightarrow> gdt_state" where
  "init_gdt tss_base s =
     (let s0 = s\<lparr>gdt_limit := of_nat (8 * GDT_SIZE) - 1\<rparr>;
          s1 = set_gdt_gate 0 0 0 0x00 0x00 s0;
          s2 = set_gdt_gate 1 0 0xFFFFFFFF 0x9A 0xAF s1;
          s3 = set_gdt_gate 2 0 0xFFFFFFFF 0x92 0xCF s2;
          s4 = set_gdt_gate 3 0 0xFFFFFFFF 0xF2 0xCF s3;
          s5 = set_gdt_gate 4 0 0xFFFFFFFF 0xFA 0xAF s4
      in write_tss 5 0 tss_base s5)"

section \<open>Interrupt descriptor table\<close>

abbreviation IDT_SIZE :: nat where "IDT_SIZE \<equiv> 256"

record idt_entry =
  i_base_low :: u16
  i_set :: u16
  i_ist :: u8
  i_type_attributes :: u8
  i_base_middle :: u16
  i_base_high :: u32
  i_reserved :: u32

definition zero_gate :: idt_entry where
  "zero_gate = \<lparr>i_base_low = 0, i_set = 0, i_ist = 0, i_type_attributes = 0, i_base_middle = 0, i_base_high = 0, i_reserved = 0\<rparr>"

definition set_idt_gate :: "nat \<Rightarrow> u64 \<Rightarrow> u16 \<Rightarrow> u8 \<Rightarrow> u8 \<Rightarrow> idt_entry list \<Rightarrow> idt_entry list" where
  "set_idt_gate num handler sel ist type_attributes idt =
     idt[num := \<lparr>i_base_low = ucast (handler AND 0xFFFF),
       i_set = sel,
       i_ist = ist AND 0x07,
       i_type_attributes = type_attributes,
       i_base_middle = ucast (drop_bit 16 handler AND 0xFFFF),
       i_base_high = ucast (drop_bit 32 handler AND 0xFFFFFFFF),
       i_reserved = 0\<rparr>]"

text \<open>\<open>isr i\<close> is the address of the stub \<^verbatim>\<open>isr<i>\<close>.\<close>

definition init_idt :: "(nat \<Rightarrow> u64) \<Rightarrow> idt_entry list" where
  "init_idt isr = fold (\<lambda>i. set_idt_gate i (isr i) 0x08 0 0x8E) [0..<48] (replicate IDT_SIZE zero_gate)"

section \<open>System-call registers\<close>

record msrs =
  msr_efer :: u64
  msr_star :: u64
  msr_lstar :: u64
  msr_fmask :: u64

definition init_syscalls :: "u64 \<Rightarrow> msrs \<Rightarrow> msrs" where
  "init_syscalls entry r =
     (let r1 = r\<lparr>msr_efer := msr_efer r OR 1\<rparr>;
          r2 = r1\<lparr>msr_star := push_bit 32 0x08 OR push_bit 48 0x10\<rparr>;
          r3 = r2\<lparr>msr_lstar := entry\<rparr>
      in r3\<lparr>msr_fmask := 0x47700\<rparr>)"

section \<open>What the processor reads\<close>

definition gdt_base :: "gdt_entry \<Rightarrow> u32" where
  "gdt_base e = ucast (g_base_low e) OR push_bit 16 (ucast (g_base_middle e)) OR push_bit 24 (ucast (g_base_high e))"

definition gdt_seg_limit :: "gdt_entry \<Rightarrow> u32" where
  "gdt_seg_limit e = ucast (g_limit_low e) OR push_bit 16 (ucast (g_flags e AND 0x0F))"

text \<open>A system descriptor of 64-bit mode takes two slots.\<close>

definition tss_base :: "gdt_entry \<Rightarrow> gdt_entry \<Rightarrow> u64" where
  "tss_base lo hi = ucast (gdt_base lo) OR push_bit 32 (ucast (g_limit_low hi)) OR push_bit 48 (ucast (g_base_low hi))"

definition idt_handler :: "idt_entry \<Rightarrow> u64" where
  "idt_handler e = ucast (i_base_low e) OR push_bit 16 (ucast (i_base_middle e)) OR push_bit 32 (ucast (i_base_high e))"

definition gdt_dpl :: "gdt_entry \<Rightarrow> u8" where
  "gdt_dpl e = drop_bit 5 (g_access e) AND 3"

text \<open>The selectors \<^verbatim>\<open>syscall\<close> and \<^verbatim>\<open>sysret\<close> load, by the processor manual, from the STAR register.\<close>

definition syscall_cs :: "u64 \<Rightarrow> u16" where "syscall_cs star = ucast (drop_bit 32 star) AND 0xFFFC"
definition syscall_ss :: "u64 \<Rightarrow> u16" where "syscall_ss star = ucast (drop_bit 32 star) + 8"
definition sysret_cs :: "u64 \<Rightarrow> u16" where "sysret_cs star = (ucast (drop_bit 48 star) + 16) OR 3"
definition sysret_ss :: "u64 \<Rightarrow> u16" where "sysret_ss star = (ucast (drop_bit 48 star) + 8) OR 3"
definition selector_index :: "u16 \<Rightarrow> nat" where "selector_index s = unat (drop_bit 3 s)"

section \<open>Round trips\<close>

lemma and_masks:
  "w AND 0xFFFF = take_bit 16 w" "w AND 0xFF = take_bit 8 w" "w AND 0x0F = take_bit 4 w"
  "w AND 0xFFFFFFFF = take_bit 32 w" "w AND 0xFFFFF = take_bit 20 w" for w :: "'a::len word"
  by (simp_all add: take_bit_eq_mask mask_eq_exp_minus_1)

lemma gran_high: "\<not> bit (gran AND 0xF0 :: u8) n" if "n < 4"
proof -
  have "(0xF0 :: u8) = push_bit 4 0x0F" by simp
  then show ?thesis using that by (simp only: bit_and_iff bit_push_bit_iff) simp
qed

lemma gate_base:
  fixes base :: u32
  shows "ucast (ucast (base AND 0xFFFF) :: u16) OR push_bit 16 (ucast (ucast (drop_bit 16 base AND 0xFF) :: u8))
    OR push_bit 24 (ucast (ucast (drop_bit 24 base AND 0xFF) :: u8)) = base"
proof (rule bit_eqI)
  fix n assume "possible_bit TYPE(u32) n"
  then have n: "n < 32" by (simp add: possible_bit_def)
  consider "n < 16" | "16 \<le> n" "n < 24" | "24 \<le> n" by linarith
  then show "bit (ucast (ucast (base AND 0xFFFF) :: u16) OR push_bit 16 (ucast (ucast (drop_bit 16 base AND 0xFF) :: u8))
      OR push_bit 24 (ucast (ucast (drop_bit 24 base AND 0xFF) :: u8)) :: u32) n = bit base n"
    unfolding and_masks using n by cases (auto simp: bit_simps)
qed

lemma handler_base:
  fixes h :: u64
  shows "ucast (ucast (h AND 0xFFFF) :: u16) OR push_bit 16 (ucast (ucast (drop_bit 16 h AND 0xFFFF) :: u16))
    OR push_bit 32 (ucast (ucast (drop_bit 32 h AND 0xFFFFFFFF) :: u32)) = h"
proof (rule bit_eqI)
  fix n assume "possible_bit TYPE(u64) n"
  then have n: "n < 64" by (simp add: possible_bit_def)
  consider "n < 16" | "16 \<le> n" "n < 32" | "32 \<le> n" by linarith
  then show "bit (ucast (ucast (h AND 0xFFFF) :: u16) OR push_bit 16 (ucast (ucast (drop_bit 16 h AND 0xFFFF) :: u16))
    OR push_bit 32 (ucast (ucast (drop_bit 32 h AND 0xFFFFFFFF) :: u32)) :: u64) n = bit h n"
    unfolding and_masks using n by cases (auto simp: bit_simps)
qed

lemma tss_base_parts:
  fixes b :: u64
  shows "ucast (ucast (b AND 0xFFFFFFFF) :: u32) OR push_bit 32 (ucast (ucast (drop_bit 32 b AND 0xFFFF) :: u16))
    OR push_bit 48 (ucast (ucast (drop_bit 48 b AND 0xFFFF) :: u16)) = b"
proof (rule bit_eqI)
  fix n assume "possible_bit TYPE(u64) n"
  then have n: "n < 64" by (simp add: possible_bit_def)
  consider "n < 32" | "32 \<le> n" "n < 48" | "48 \<le> n" by linarith
  then show "bit (ucast (ucast (b AND 0xFFFFFFFF) :: u32) OR push_bit 32 (ucast (ucast (drop_bit 32 b AND 0xFFFF) :: u16))
    OR push_bit 48 (ucast (ucast (drop_bit 48 b AND 0xFFFF) :: u16)) :: u64) n = bit b n"
    unfolding and_masks using n by cases (auto simp: bit_simps)
qed

lemma gate_limit:
  fixes limit :: u32
  shows "ucast (ucast (limit AND 0xFFFF) :: u16) OR
    push_bit 16 (ucast ((ucast (drop_bit 16 limit AND 0x0F) OR (gran AND 0xF0) :: u8) AND 0x0F)) = limit AND 0xFFFFF"
proof -
  show ?thesis
  proof (rule bit_eqI)
    fix n assume "possible_bit TYPE(u32) n"
    then have n: "n < 32" by (simp add: possible_bit_def)
    consider "n < 16" | "16 \<le> n" "n < 20" | "20 \<le> n" by linarith
    then show "bit (ucast (ucast (limit AND 0xFFFF) :: u16) OR
      push_bit 16 (ucast ((ucast (drop_bit 16 limit AND 0x0F) OR (gran AND 0xF0) :: u8) AND 0x0F)) :: u32) n =
      bit (limit AND 0xFFFFF) n"
      unfolding and_masks(1,3,5) using n gran_high [of "n - 16" gran] by cases (auto simp: bit_simps)
  qed
qed

lemma init_idt_nth:
  "n \<le> 256 \<Longrightarrow> i < 256 \<Longrightarrow>
   fold (\<lambda>i. set_idt_gate i (isr i) 0x08 0 0x8E) [0..<n] (replicate IDT_SIZE zero_gate) ! i =
   (if i < n then set_idt_gate i (isr i) 0x08 0 0x8E (replicate IDT_SIZE zero_gate) ! i else zero_gate)"
proof (induction n)
  case (Suc n)
  have l: "length (fold (\<lambda>i. set_idt_gate i (isr i) 0x08 0 0x8E) xs t) = length t" for xs t
    by (induction xs arbitrary: t) (simp_all add: set_idt_gate_def)
  show ?case
  proof (cases "i = n")
    case True
    then show ?thesis using Suc.prems by (simp add: set_idt_gate_def [of n] l)
  next
    case False
    then show ?thesis using Suc by (simp add: set_idt_gate_def [of n] less_Suc_eq)
  qed
qed simp

text \<open>
  C28: The processor reads back what was written: the base and the low 20 bits of the limit of every segment descriptor,
  the 64-bit base of the task state segment from its two slots, and from each of the 48 gates the address of its stub
  with the kernel's code selector; the other 208 gates are not present.
\<close>

theorem descriptors_roundtrip:
  assumes "num < length (gdt_entries s)" "n + 1 < length (gdt_entries s)" "i < 256"
  shows "gdt_base (gdt_entries (set_gdt_gate num base limit access gran s) ! num) = base \<and>
    gdt_seg_limit (gdt_entries (set_gdt_gate num base limit access gran s) ! num) = limit AND 0xFFFFF \<and>
    g_access (gdt_entries (set_gdt_gate num base limit access gran s) ! num) = access \<and>
    tss_base (gdt_entries (write_tss n rsp0 b s) ! n) (gdt_entries (write_tss n rsp0 b s) ! (n + 1)) = b \<and>
    t_rsp0 (tss_entry (set_kernel_stack r (write_tss n rsp0 b s))) = r \<and>
    (if i < 48 then idt_handler (init_idt isr ! i) = isr i \<and> i_set (init_idt isr ! i) = 0x08 \<and>
       i_type_attributes (init_idt isr ! i) = 0x8E else init_idt isr ! i = zero_gate)"
proof -
  have 1: "gdt_base (gdt_entries (set_gdt_gate num base limit access gran s) ! num) = base"
    using assms(1) gate_base [of base] by (simp add: set_gdt_gate_def gdt_base_def)
  have 2: "gdt_seg_limit (gdt_entries (set_gdt_gate num base limit access gran s) ! num) = limit AND 0xFFFFF"
    using assms(1) gate_limit [of limit gran] by (simp only: set_gdt_gate_def gdt_seg_limit_def) simp
  have 3: "g_access (gdt_entries (set_gdt_gate num base limit access gran s) ! num) = access"
    using assms(1) by (simp add: set_gdt_gate_def)
  have b: "gdt_base (gdt_entries (write_tss n rsp0 b s) ! n) = ucast (b AND 0xFFFFFFFF)"
    using assms(2) gate_base [of "ucast (b AND 0xFFFFFFFF)"]
    by (simp only: write_tss_def Let_def set_gdt_gate_def gdt_base_def) simp
  have 4: "tss_base (gdt_entries (write_tss n rsp0 b s) ! n) (gdt_entries (write_tss n rsp0 b s) ! (n + 1)) = b"
    using assms(2) tss_base_parts [of b] unfolding tss_base_def b by (simp add: write_tss_def Let_def set_gdt_gate_def)
  have g: "init_idt isr ! i = (if i < 48 then set_idt_gate i (isr i) 0x08 0 0x8E (replicate IDT_SIZE zero_gate) ! i else zero_gate)"
    unfolding init_idt_def by (rule init_idt_nth) (use assms(3) in simp_all)
  have 5: "idt_handler (init_idt isr ! i) = isr i \<and> i_set (init_idt isr ! i) = 0x08 \<and>
       i_type_attributes (init_idt isr ! i) = 0x8E" if "i < 48"
    using that assms(3) handler_base [of "isr i"] unfolding g by (simp add: set_idt_gate_def idt_handler_def)
  show ?thesis using 1 2 3 4 5 g by (simp add: set_kernel_stack_def)
qed

definition gdt0 :: gdt_state where
  "gdt0 = \<lparr>gdt_entries = replicate GDT_SIZE \<lparr>g_limit_low = 0, g_base_low = 0, g_base_middle = 0, g_access = 0, g_flags = 0,
      g_base_high = 0\<rparr>, tss_entry = \<lparr>t_rsp0 = 0, t_rsp1 = 0, t_rsp2 = 0, t_ist = [], t_iomap_base = 0\<rparr>, gdt_limit = 0\<rparr>"

theorem descriptors_roundtrip_witness:
  "tss_base (gdt_entries (write_tss 5 0 0xFFFFFFFF80123456 gdt0) ! 5) (gdt_entries (write_tss 5 0 0xFFFFFFFF80123456 gdt0) ! 6)
     = 0xFFFFFFFF80123456"
  using descriptors_roundtrip [of 5 gdt0 5 3 0 0 0 0 0 "0xFFFFFFFF80123456" 0 "\<lambda>_. 0"] by (simp add: gdt0_def)

text \<open>
  C29: The selectors that \<^verbatim>\<open>syscall\<close> and \<^verbatim>\<open>sysret\<close> derive from the STAR register written by \<^verbatim>\<open>init_syscalls\<close> name the
  descriptors \<^verbatim>\<open>init_gdt\<close> set up for them: kernel code and data at privilege 0, user code and data at privilege 3,
  and interrupts are off on entry.
\<close>

theorem syscall_selectors_match_gdt:
  "(let g = gdt_entries (init_gdt tss gdt0); star = msr_star (init_syscalls entry r) in
    g_access (g ! selector_index (syscall_cs star)) = 0x9A \<and> gdt_dpl (g ! selector_index (syscall_cs star)) = 0 \<and>
    g_access (g ! selector_index (syscall_ss star)) = 0x92 \<and>
    g_access (g ! selector_index (sysret_cs star)) = 0xFA \<and> gdt_dpl (g ! selector_index (sysret_cs star)) = 3 \<and>
    g_access (g ! selector_index (sysret_ss star)) = 0xF2 \<and> gdt_dpl (g ! selector_index (sysret_ss star)) = 3 \<and>
    bit (msr_fmask (init_syscalls entry r)) 9 \<and> bit (msr_efer (init_syscalls entry r)) 0 \<and>
    msr_lstar (init_syscalls entry r) = entry)"
proof -
  define g where "g = gdt_entries (init_gdt tss gdt0)"
  define star where "star = msr_star (init_syscalls entry r)"
  have st: "star = 0x0010000800000000" by (simp add: star_def init_syscalls_def Let_def)
  have sel: "selector_index (syscall_cs star) = 1" "selector_index (syscall_ss star) = 2"
    "selector_index (sysret_cs star) = 4" "selector_index (sysret_ss star) = 3"
    by (simp_all add: st syscall_cs_def syscall_ss_def sysret_cs_def sysret_ss_def selector_index_def)
  have acc: "g_access (g ! 1) = 0x9A" "g_access (g ! 2) = 0x92" "g_access (g ! 3) = 0xF2" "g_access (g ! 4) = 0xFA"
    by (simp_all add: g_def init_gdt_def write_tss_def set_gdt_gate_def gdt0_def Let_def)
  show ?thesis
    unfolding Let_def g_def [symmetric] star_def [symmetric] sel gdt_dpl_def acc by (simp add: init_syscalls_def Let_def bit_or_iff bit_1_iff)
qed

end
