(* ===== verification/Vfs.thy ===== *)
theory Vfs
  imports Input Mem_String
begin

text \<open>
  The in-memory file system, \<^verbatim>\<open>src/kernel/src/arch/x86_64/fs/vfs.c\<close>, and the archive reader that fills it,
  \<^verbatim>\<open>initramfs.c\<close>. A C string is the list of its bytes before the terminating zero. The archive is the read-only
  byte memory \<open>ramdisk\<close>. Nodes are only ever created, so the store of nodes only grows. Operations return \<open>None\<close> where
  the source loops forever or runs into undefined behaviour: a null pointer from a failed \<^verbatim>\<open>kmalloc\<close>, or a path
  segment that does not fit the 128-byte buffer of \<^verbatim>\<open>create_directories\<close>.
\<close>

section \<open>State\<close>

datatype vfs_node_type = VFS_FILE | VFS_DIRECTORY

record vfs_node =
  v_name :: "u8 list"
  v_type :: vfs_node_type
  v_size :: u32
  v_data :: addr
  v_parent :: addr
  v_children :: addr
  v_next :: addr

record vfs = input +
  vfs_at :: "addr \<Rightarrow> vfs_node"
  vfs_root :: addr
  ramdisk :: bytes

abbreviation vfs_node_bytes :: u64 where "vfs_node_bytes \<equiv> 168"

abbreviation slash :: u8 where "slash \<equiv> 47"

definition upd_node :: "addr \<Rightarrow> (vfs_node \<Rightarrow> vfs_node) \<Rightarrow> 'a vfs_scheme \<Rightarrow> 'a vfs_scheme" where
  "upd_node a f k = k\<lparr>vfs_at := (vfs_at k)(a := f (vfs_at k a))\<rparr>"

section \<open>Operations\<close>

text \<open>The byte a C string pointer points to.\<close>

definition at_ptr :: "u8 list \<Rightarrow> u8" where
  "at_ptr s = (case s of [] \<Rightarrow> 0 | c # _ \<Rightarrow> c)"

fun strncmp_path :: "u8 list \<Rightarrow> u8 list \<Rightarrow> nat \<Rightarrow> int" where
  "strncmp_path s1 s2 0 = 0"
| "strncmp_path s1 s2 (Suc n) =
     (if at_ptr s1 \<noteq> 0 \<and> at_ptr s1 = at_ptr s2 then strncmp_path (tl s1) (tl s2) n
      else sint (at_ptr s1) - sint (at_ptr s2))"

definition vfs_create_node :: "u8 list \<Rightarrow> vfs_node_type \<Rightarrow> 'a vfs_scheme \<Rightarrow> (addr \<times> 'a vfs_scheme) option" where
  "vfs_create_node name type k =
     (case kmalloc vfs_node_bytes k of (p, k1) \<Rightarrow>
        if p = NULL then None
        else Some (p, upd_node p (\<lambda>_. \<lparr>v_name = take 127 (takeWhile (\<lambda>c. c \<noteq> slash) name), v_type = type, v_size = 0,
               v_data = NULL, v_parent = NULL, v_children = NULL, v_next = NULL\<rparr>) k1))"

definition init_vfs :: "'a vfs_scheme \<Rightarrow> 'a vfs_scheme option" where
  "init_vfs k = map_option (\<lambda>(p, k1). k1\<lparr>vfs_root := p\<rparr>) (vfs_create_node [slash] VFS_DIRECTORY k)"

definition vfs_add_child :: "addr \<Rightarrow> addr \<Rightarrow> 'a vfs_scheme \<Rightarrow> 'a vfs_scheme" where
  "vfs_add_child parent child k =
     (let k1 = upd_node child (v_parent_update (\<lambda>_. parent)) k;
          k2 = upd_node child (v_next_update (\<lambda>_. v_children (vfs_at k1 parent))) k1
      in upd_node parent (v_children_update (\<lambda>_. child)) k2)"

text \<open>The loop over the children of a node; the segment has \<open>length seg\<close> characters.\<close>

partial_function (option) find_child :: "addr \<Rightarrow> u8 list \<Rightarrow> 'a vfs_scheme \<Rightarrow> addr option" where
  "find_child child seg k =
     (if child = NULL then Some NULL
      else if strncmp_path (v_name (vfs_at k child)) seg (length seg) = 0 \<and> length (v_name (vfs_at k child)) = length seg
      then Some child
      else find_child (v_next (vfs_at k child)) seg k)"

lemma segment_shorter: "xs \<noteq> [] \<Longrightarrow> length (tl (dropWhile P xs)) < length xs"
proof -
  assume "xs \<noteq> []"
  then have "0 < length xs" by simp
  moreover have "length (tl (dropWhile P xs)) = length (dropWhile P xs) - 1" by simp
  ultimately show ?thesis using length_dropWhile_le [of P xs] by linarith
qed

function vfs_find_node :: "addr \<Rightarrow> u8 list \<Rightarrow> 'a vfs_scheme \<Rightarrow> addr option" where
  "vfs_find_node parent path k =
     (if parent = NULL \<or> path = [] then Some parent
      else
        let path1 = dropWhile (\<lambda>c. c = slash) path in
        if path1 = [] then Some parent
        else
          let seg = takeWhile (\<lambda>c. c \<noteq> slash) path1;
              rest = tl (dropWhile (\<lambda>c. c \<noteq> slash) path1)
          in case find_child (v_children (vfs_at k parent)) seg k of
               None \<Rightarrow> None
             | Some child \<Rightarrow> if child = NULL then Some NULL else vfs_find_node child rest k)"
  by pat_completeness auto
termination
proof (relation "measure (\<lambda>(_, path, _). length path)")
  fix parent :: addr and path path1 rest :: "u8 list" and k :: "'a vfs_scheme" and seg x2
  assume a: "\<not> (parent = NULL \<or> path = [])" "path1 = dropWhile (\<lambda>c. c = slash) path" "path1 \<noteq> []"
    "rest = tl (dropWhile (\<lambda>c. c \<noteq> slash) path1)"
  have "length rest < length path1" unfolding a(4) by (rule segment_shorter [OF a(3)])
  moreover have "length path1 \<le> length path" unfolding a(2) by (rule length_dropWhile_le)
  ultimately show "((x2, rest, k), parent, path, k) \<in> measure (\<lambda>(_, path, _). length path)" by simp
qed simp

text \<open>The loop of \<^verbatim>\<open>create_directories\<close>, at \<open>current\<close> with the rest \<open>p\<close> of the path.\<close>

function make_dirs :: "addr \<Rightarrow> u8 list \<Rightarrow> 'a vfs_scheme \<Rightarrow> (addr \<times> 'a vfs_scheme) option" where
  "make_dirs current p k =
     (let buffer = takeWhile (\<lambda>c. c \<noteq> slash) p;
          next_slash = dropWhile (\<lambda>c. c \<noteq> slash) p
      in if next_slash = [] then Some (current, k)
         else if length buffer \<ge> 128 then None
         else
           case vfs_find_node current buffer k of
             None \<Rightarrow> None
           | Some child \<Rightarrow>
               if child \<noteq> NULL then make_dirs child (tl next_slash) k
               else case vfs_create_node buffer VFS_DIRECTORY k of
                      None \<Rightarrow> None
                    | Some (d, k1) \<Rightarrow> make_dirs d (tl next_slash) (vfs_add_child current d k1))"
  by pat_completeness auto
termination
proof (relation "measure (\<lambda>(_, p, _). length p)")
  have *: "length (tl ns) < length p" if "ns = dropWhile (\<lambda>c. c \<noteq> slash) p" "ns \<noteq> []" for ns p :: "u8 list"
    using that segment_shorter [of p "\<lambda>c. c \<noteq> slash"] by (cases p) simp_all
  show "((x2, tl xa, k), current, p, k) \<in> measure (\<lambda>(_, p, _). length p)"
    if "xa = dropWhile (\<lambda>c. c \<noteq> slash) p" "xa \<noteq> []" for x2 xa current p and k :: "'a vfs_scheme"
    using *[OF that] by simp
  show "((d, tl xa, k'), current, p, k) \<in> measure (\<lambda>(_, p, _). length p)"
    if "xa = dropWhile (\<lambda>c. c \<noteq> slash) p" "xa \<noteq> []" for d xa current p and k k' :: "'a vfs_scheme"
    using *[OF that] by simp
qed simp

definition create_directories :: "u8 list \<Rightarrow> 'a vfs_scheme \<Rightarrow> (addr \<times> 'a vfs_scheme) option" where
  "create_directories path k = make_dirs (vfs_root k) path k"

section \<open>The archive\<close>

definition ALIGN4 :: "u64 \<Rightarrow> u64" where
  "ALIGN4 v = (v + 3) AND NOT 3"

definition hex_digit :: "u8 \<Rightarrow> u32" where
  "hex_digit c =
     (if 48 \<le> c \<and> c \<le> 57 then ucast (c - 48)
      else if 65 \<le> c \<and> c \<le> 70 then ucast (c - 65 + 10)
      else if 97 \<le> c \<and> c \<le> 102 then ucast (c - 97 + 10)
      else 0)"

definition parse_hex_str :: "u8 list \<Rightarrow> u32" where
  "parse_hex_str str = fold (\<lambda>c val. push_bit 4 val OR hex_digit c) str 0"

text \<open>The string that starts at an address of the archive.\<close>

definition bytes_from :: "u64 \<Rightarrow> nat \<Rightarrow> bytes \<Rightarrow> u8 list" where
  "bytes_from a n m = map (\<lambda>i. m (a + of_nat i)) [0..<n]"

partial_function (option) c_string :: "u64 \<Rightarrow> bytes \<Rightarrow> u8 list option" where
  "c_string a m = (if m a = 0 then Some [] else do { s \<leftarrow> c_string (a + 1) m; Some (m a # s) })"

definition MAGIC_NEWC :: "u8 list" where "MAGIC_NEWC = [48, 55, 48, 55, 48, 49]"
definition MAGIC_CRC :: "u8 list" where "MAGIC_CRC = [48, 55, 48, 55, 48, 50]"
definition TRAILER :: "u8 list" where "TRAILER = [84, 82, 65, 73, 76, 69, 82, 33, 33, 33]"

abbreviation cpio_header_bytes :: u64 where "cpio_header_bytes \<equiv> 110"

text \<open>The part of a path behind its last slash.\<close>

definition leaf_name :: "u8 list \<Rightarrow> u8 list" where
  "leaf_name s = rev (takeWhile (\<lambda>c. c \<noteq> slash) (rev s))"

definition add_entry :: "u8 list \<Rightarrow> u32 \<Rightarrow> u32 \<Rightarrow> u64 \<Rightarrow> 'a vfs_scheme \<Rightarrow> 'a vfs_scheme option" where
  "add_entry filename mode filesize data_addr k =
     (if filename = [46] then Some k
      else do {
        (parent_dir, k1) \<leftarrow> create_directories filename k;
        let leaf = leaf_name filename;
        if mode AND 0xF000 = 0x4000 then do {
          d \<leftarrow> vfs_find_node parent_dir leaf k1;
          if d = NULL then do {
            (n, k2) \<leftarrow> vfs_create_node leaf VFS_DIRECTORY k1;
            Some (vfs_add_child parent_dir n k2)
          } else Some k1
        } else if mode AND 0xF000 = 0x8000 then do {
          (n, k2) \<leftarrow> vfs_create_node leaf VFS_FILE k1;
          let k3 = upd_node n (\<lambda>x. x\<lparr>v_size := filesize, v_data := data_addr\<rparr>) k2;
          Some (vfs_add_child parent_dir n k3)
        } else Some k1
      })"

partial_function (option) read_entries :: "u64 \<Rightarrow> u64 \<Rightarrow> 'a vfs_scheme \<Rightarrow> 'a vfs_scheme option" where
  "read_entries current_addr end_addr k =
     (if \<not> current_addr < end_addr then Some k
      else
        let m = ramdisk k in
        if bytes_from current_addr 6 m \<noteq> MAGIC_NEWC \<and> bytes_from current_addr 6 m \<noteq> MAGIC_CRC then Some k
        else
          let filesize = parse_hex_str (bytes_from (current_addr + 54) 8 m);
              namesize = parse_hex_str (bytes_from (current_addr + 94) 8 m);
              mode = parse_hex_str (bytes_from (current_addr + 14) 8 m);
              name_addr = current_addr + cpio_header_bytes
          in if bytes_from name_addr 10 m = TRAILER then Some k
             else
               let data_addr = ALIGN4 (current_addr + cpio_header_bytes + ucast namesize);
                   name_addr1 = (if m name_addr = 46 \<and> m (name_addr + 1) = slash then name_addr + 2 else name_addr)
               in do {
                 filename \<leftarrow> c_string name_addr1 m;
                 k1 \<leftarrow> add_entry filename mode filesize data_addr k;
                 read_entries (ALIGN4 (data_addr + ucast filesize)) end_addr k1
               })"

definition initramfs_init :: "u64 \<Rightarrow> u64 \<Rightarrow> 'a vfs_scheme \<Rightarrow> 'a vfs_scheme option" where
  "initramfs_init base_address sz k =
     do { k1 \<leftarrow> init_vfs k; read_entries base_address (base_address + sz) k1 }"

section \<open>Looking up a path\<close>

lemma strncmp_path_eq:
  "0 \<notin> set seg \<Longrightarrow> strncmp_path s seg (length seg) = 0 \<and> length s = length seg \<longleftrightarrow> s = seg"
proof (induction seg arbitrary: s)
  case (Cons c seg)
  show ?case
  proof (cases s)
    case (Cons d ds)
    have "sint d - sint c = 0 \<longleftrightarrow> d = c" by (auto intro: signed_word_eqI)
    then show ?thesis using Cons Cons.IH [of ds] Cons.prems by (auto simp: at_ptr_def)
  qed simp
qed simp

text \<open>
  What the nodes stand for: a tree of named nodes, each with its address. \<open>walk\<close> follows the segments of a path, taking
  the first child of that name.
\<close>

datatype vtree = VT (vt_addr: addr) (vt_name: "u8 list") (vt_kids: "vtree list")

fun vfs_tree :: "'a vfs_scheme \<Rightarrow> vtree \<Rightarrow> bool" and siblings :: "'a vfs_scheme \<Rightarrow> addr \<Rightarrow> vtree list \<Rightarrow> bool" where
  "vfs_tree k (VT a n ts) \<longleftrightarrow> a \<noteq> NULL \<and> v_name (vfs_at k a) = n \<and> siblings k (v_children (vfs_at k a)) ts"
| "siblings k h [] \<longleftrightarrow> h = NULL"
| "siblings k h (t # ts) \<longleftrightarrow> h = vt_addr t \<and> vfs_tree k t \<and> siblings k (v_next (vfs_at k h)) ts"

function segments :: "u8 list \<Rightarrow> u8 list list" where
  "segments path =
     (let p = dropWhile (\<lambda>c. c = slash) path
      in if p = [] then [] else takeWhile (\<lambda>c. c \<noteq> slash) p # segments (tl (dropWhile (\<lambda>c. c \<noteq> slash) p)))"
  by pat_completeness auto
termination
proof (relation "measure length")
  fix path p :: "u8 list" assume a: "p = dropWhile (\<lambda>c. c = slash) path" "p \<noteq> []"
  have "length (tl (dropWhile (\<lambda>c. c \<noteq> slash) p)) < length p" by (rule segment_shorter [OF a(2)])
  moreover have "length p \<le> length path" unfolding a(1) by (rule length_dropWhile_le)
  ultimately show "(tl (dropWhile (\<lambda>c. c \<noteq> slash) p), path) \<in> measure length" by simp
qed simp

lemma in_set_tl: "x \<in> set (tl ys) \<Longrightarrow> x \<in> set ys"
  by (cases ys) auto

lemma segment_set:
  "x \<in> set (takeWhile P (dropWhile R xs)) \<Longrightarrow> x \<in> set xs"
  "x \<in> set (tl (dropWhile P (dropWhile R xs))) \<Longrightarrow> x \<in> set xs"
  using set_takeWhileD [of x P "dropWhile R xs"] set_dropWhileD [of x R xs] in_set_tl [of x "dropWhile P (dropWhile R xs)"]
    set_dropWhileD [of x P "dropWhile R xs"] by simp_all

declare segments.simps [simp del] vfs_find_node.simps [simp del] make_dirs.simps [simp del]

fun walk_tree :: "vtree \<Rightarrow> u8 list list \<Rightarrow> vtree option" where
  "walk_tree t [] = Some t"
| "walk_tree t (s # ss) =
     (case find (\<lambda>u. vt_name u = s) (vt_kids t) of None \<Rightarrow> None | Some u \<Rightarrow> walk_tree u ss)"

lemma vfs_treeD: "vfs_tree k t \<Longrightarrow> vt_addr t \<noteq> NULL \<and> v_name (vfs_at k (vt_addr t)) = vt_name t \<and>
    siblings k (v_children (vfs_at k (vt_addr t))) (vt_kids t)"
  by (cases t) simp

lemma siblings_mem: "siblings k h ts \<Longrightarrow> t \<in> set ts \<Longrightarrow> vfs_tree k t"
  by (induction ts arbitrary: h) auto

lemma find_child_rep:
  "siblings k h ts \<Longrightarrow> 0 \<notin> set seg \<Longrightarrow>
   find_child h seg k = Some (case find (\<lambda>u. vt_name u = seg) ts of None \<Rightarrow> NULL | Some u \<Rightarrow> vt_addr u)"
proof (induction ts arbitrary: h)
  case Nil
  then show ?case by (simp add: find_child.simps)
next
  case (Cons t ts)
  have t: "h = vt_addr t" "vfs_tree k t" "siblings k (v_next (vfs_at k h)) ts" using Cons.prems by auto
  have d: "h \<noteq> NULL" "v_name (vfs_at k h) = vt_name t" using vfs_treeD [OF t(2)] t(1) by simp_all
  show ?case
    using Cons.IH [OF t(3) Cons.prems(2)] d t(1) strncmp_path_eq [OF Cons.prems(2), of "vt_name t"]
    by (subst find_child.simps) simp
qed

lemma vfs_find_node_rep:
  "vfs_tree k t \<Longrightarrow> 0 \<notin> set path \<Longrightarrow>
   vfs_find_node (vt_addr t) path k =
     Some (case walk_tree t (segments path) of None \<Rightarrow> NULL | Some u \<Rightarrow> vt_addr u)"
proof (induction "length path" arbitrary: path t rule: less_induct)
  case less
  let ?p = "dropWhile (\<lambda>c. c = slash) path"
  let ?seg = "takeWhile (\<lambda>c. c \<noteq> slash) ?p" and ?rest = "tl (dropWhile (\<lambda>c. c \<noteq> slash) ?p)"
  have d: "vt_addr t \<noteq> NULL" "siblings k (v_children (vfs_at k (vt_addr t))) (vt_kids t)"
    using vfs_treeD [OF less.prems(1)] by simp_all
  show ?case
  proof (cases "?p = []")
    case True
    have "segments path = []" using True by (simp add: segments.simps [of path])
    then show ?thesis using True by (simp add: vfs_find_node.simps [of _ path])
  next
    case False
    then have ne: "path \<noteq> []" by auto
    have sg: "segments path = ?seg # segments ?rest" using False by (simp add: segments.simps [of path] Let_def)
    have z: "0 \<notin> set ?seg" "0 \<notin> set ?rest"
      using less.prems(2) segment_set(1) [of "0 :: u8" _ _ path] segment_set(2) [of "0 :: u8" _ _ path] by blast+
    have len: "length ?rest < length path"
      using segment_shorter [OF False] length_dropWhile_le [of "\<lambda>c. c = slash" path] by (rule less_le_trans)
    have fc: "find_child (v_children (vfs_at k (vt_addr t))) ?seg k =
        Some (case find (\<lambda>u. vt_name u = ?seg) (vt_kids t) of None \<Rightarrow> NULL | Some u \<Rightarrow> vt_addr u)"
      by (rule find_child_rep [OF d(2) z(1)])
    show ?thesis
    proof (cases "find (\<lambda>u. vt_name u = ?seg) (vt_kids t)")
      case None
      then show ?thesis using False ne d fc by (simp add: vfs_find_node.simps [of _ path] sg Let_def del: dropWhile_eq_Nil_conv)
    next
      case (Some u)
      have u: "vfs_tree k u" using siblings_mem [OF d(2), of u] Some by (auto simp: find_Some_iff)
      have "vt_addr u \<noteq> NULL" using vfs_treeD [OF u] by simp
      then show ?thesis using False ne d fc Some less.hyps [OF len u z(2)]
        by (simp add: vfs_find_node.simps [of _ path] sg Let_def del: dropWhile_eq_Nil_conv)
    qed
  qed
qed

text \<open>Adding a child in front of the others.\<close>

fun tree_addrs :: "vtree \<Rightarrow> addr set" where
  "tree_addrs (VT a n ts) = insert a (\<Union>t \<in> set ts. tree_addrs t)"

lemma vfs_tree_cong:
  "(\<And>a. a \<in> tree_addrs t \<Longrightarrow> vfs_at k' a = vfs_at k a) \<Longrightarrow> vfs_tree k' t = vfs_tree k t"
  "(\<And>t a. t \<in> set ts \<Longrightarrow> a \<in> tree_addrs t \<Longrightarrow> vfs_at k' a = vfs_at k a) \<Longrightarrow> siblings k' h ts = siblings k h ts"
proof (induction k t and k h ts rule: vfs_tree_siblings.induct)
  case (3 k h t ts)
  have "vt_addr t \<in> tree_addrs t" by (cases t) simp
  then have "h = vt_addr t \<Longrightarrow> vfs_at k' h = vfs_at k h" using 3(3) [of t] by simp
  moreover have "vfs_tree k' t = vfs_tree k t" by (rule 3(1)) (use 3(3) [of t] in simp)
  moreover have "siblings k' (v_next (vfs_at k h)) ts = siblings k (v_next (vfs_at k h)) ts"
    by (rule 3(2)) (rule 3(3), simp_all)
  ultimately show ?case by auto
qed auto

lemma upd_node_at [simp]: "vfs_at (upd_node a f k) b = (if b = a then f (vfs_at k a) else vfs_at k b)"
  by (simp add: upd_node_def)

lemma vfs_add_child_tree:
  assumes t: "vfs_tree k (VT a n ts)" and a: "a \<notin> (\<Union>t \<in> set ts. tree_addrs t)"
    and c: "c \<noteq> NULL" "c \<notin> tree_addrs (VT a n ts)" "v_children (vfs_at k c) = NULL"
  shows "vfs_tree (vfs_add_child a c k) (VT a n (VT c (v_name (vfs_at k c)) [] # ts))"
proof -
  let ?k = "vfs_add_child a c k"
  have ca: "c \<noteq> a" using c(2) by simp
  have same: "vfs_at ?k b = vfs_at k b" if "b \<noteq> a" "b \<noteq> c" for b using that by (simp add: vfs_add_child_def Let_def)
  have "siblings ?k h ts = siblings k h ts" for h
    by (rule vfs_tree_cong(2)) (use a c in \<open>auto intro!: same\<close>)
  then show ?thesis using t c ca by (simp add: vfs_add_child_def Let_def)
qed

section \<open>Numbers of the archive\<close>

definition hex_char :: "bool \<Rightarrow> u32 \<Rightarrow> u8" where
  "hex_char upper v = (if v < 10 then 48 + ucast v else if upper then 65 + (ucast v - 10) else 97 + (ucast v - 10))"

fun hex_digits :: "bool \<Rightarrow> nat \<Rightarrow> u32 \<Rightarrow> u8 list" where
  "hex_digits upper 0 w = []"
| "hex_digits upper (Suc n) w = hex_digits upper n (drop_bit 4 w) @ [hex_char upper (w AND 0xF)]"

lemma hex_digit_char_nat:
  "n \<in> {0, 1, 2, 3, 4, 5, 6, 7, 8, 9, 10, 11, 12, 13, 14, 15} \<Longrightarrow> hex_digit (hex_char upper (of_nat n)) = of_nat n"
  by (cases upper; elim insertE emptyE; simp add: hex_digit_def hex_char_def)

lemma hex_digit_char: "v < 16 \<Longrightarrow> hex_digit (hex_char upper v) = v"
proof -
  assume "v < 16"
  then have "unat v < 16" by (simp add: word_less_nat_alt)
  then have "unat v \<in> {0, 1, 2, 3, 4, 5, 6, 7, 8, 9, 10, 11, 12, 13, 14, 15}"
    unfolding insert_iff empty_iff by presburger
  then show ?thesis using hex_digit_char_nat [of "unat v" upper] by simp
qed

lemma parse_hex_digits: "parse_hex_str (hex_digits upper n w) = take_bit (4 * n) w"
proof (induction n arbitrary: w)
  case (Suc n)
  have m: "w AND 0xF = take_bit 4 w" by (simp add: take_bit_eq_mask mask_eq_exp_minus_1)
  have lt: "w AND 0xF < 16" using take_bit_nat_less_exp [of 4 "unat w"] by (simp add: m word_less_nat_alt unsigned_take_bit_eq)
  have "parse_hex_str (hex_digits upper (Suc n) w) = push_bit 4 (take_bit (4 * n) (drop_bit 4 w)) OR take_bit 4 w"
    using Suc [of "drop_bit 4 w"] hex_digit_char [OF lt, of upper] m by (simp add: parse_hex_str_def)
  also have "\<dots> = take_bit (4 * Suc n) w"
    by (rule bit_eqI) (auto simp: bit_simps)
  finally show ?case .
qed (simp add: parse_hex_str_def)

section \<open>Properties\<close>

text \<open>The nodes \<^verbatim>\<open>/\<close>, \<^verbatim>\<open>/bin\<close> and \<^verbatim>\<open>/bin/sh\<close>, and an unlinked node \<^verbatim>\<open>a\<close>.\<close>

definition node0 :: "u8 list \<Rightarrow> addr \<Rightarrow> vfs_node" where
  "node0 n c = \<lparr>v_name = n, v_type = VFS_DIRECTORY, v_size = 0, v_data = NULL, v_parent = NULL, v_children = c, v_next = NULL\<rparr>"

definition vfs0 :: vfs where
  "vfs0 = input.extend input0 (vfs.fields (\<lambda>a. if a = 0x1000 then node0 [] 0x2000
     else if a = 0x2000 then node0 [98, 105, 110] 0x3000 else if a = 0x3000 then node0 [115, 104] NULL
     else node0 [97] NULL) 0x1000 (\<lambda>_. 0))"

definition tree0 :: vtree where
  "tree0 = VT 0x1000 [] [VT 0x2000 [98, 105, 110] [VT 0x3000 [115, 104] []]]"

lemma vfs0_at: "vfs_at vfs0 = (\<lambda>a. if a = 0x1000 then node0 [] 0x2000
     else if a = 0x2000 then node0 [98, 105, 110] 0x3000 else if a = 0x3000 then node0 [115, 104] NULL else node0 [97] NULL)"
  by (simp add: vfs0_def input.extend_def vfs.fields_def)

lemma tree0_rep: "vfs_tree vfs0 tree0"
  by (simp add: tree0_def vfs0_at node0_def)

text \<open>
  C25: Looking a path up in the node structure ends and gives the node that following the path's segments in the tree of
  names gives, or \<^verbatim>\<open>NULL\<close> when there is none; repeated, leading and trailing slashes do not matter.
\<close>

theorem vfs_find_node_refines:
  assumes "vfs_tree k t" "0 \<notin> set path"
  shows "vfs_find_node (vt_addr t) path k =
    Some (case walk_tree t (segments path) of None \<Rightarrow> NULL | Some u \<Rightarrow> vt_addr u)"
  by (rule vfs_find_node_rep [OF assms])

theorem vfs_find_node_refines_witness:
  "vfs_find_node 0x1000 [47, 98, 105, 110, 47, 47, 115, 104] vfs0 = Some 0x3000"
  using vfs_find_node_refines [OF tree0_rep, of "[47, 98, 105, 110, 47, 47, 115, 104]"]
  by (simp add: tree0_def segments.simps)

text \<open>
  A node added to a directory is found there under its name, and every other name is looked up as before.
\<close>

lemma vfs_add_then_find:
  assumes "vfs_tree k (VT a n ts)" "a \<notin> (\<Union>t \<in> set ts. tree_addrs t)" "c \<noteq> NULL" "c \<notin> tree_addrs (VT a n ts)"
    and "v_children (vfs_at k c) = NULL" "0 \<notin> set name" "slash \<notin> set name" "name \<noteq> []"
  shows "vfs_find_node a name (vfs_add_child a c k) =
    (if name = v_name (vfs_at k c) then Some c else vfs_find_node a name k)"
proof -
  have "dropWhile (\<lambda>c. c = slash) name = name" using assms(7) by (cases name) auto
  moreover have "takeWhile (\<lambda>c. c \<noteq> slash) name = name" "dropWhile (\<lambda>c. c \<noteq> slash) name = []"
    using assms(7) by (auto simp: takeWhile_eq_all_conv)
  moreover have "segments [] = []" by (simp add: segments.simps)
  ultimately have s: "segments name = [name]"
    using assms(8) by (simp add: segments.simps [of name] del: dropWhile_eq_Nil_conv dropWhile_eq_self_iff)
  show ?thesis
    using vfs_find_node_rep [OF assms(1,6)] vfs_find_node_rep [OF vfs_add_child_tree [OF assms(1-5)] assms(6)]
    by (simp add: s)
qed

text \<open>
  \<^verbatim>\<open>parse_hex_str\<close> reads back every 32-bit number from its eight hexadecimal digits, in upper and in lower case.
\<close>

lemma parse_hex_roundtrip: "parse_hex_str (hex_digits upper 8 w) = w"
proof -
  have "take_bit 32 w = w" by (rule bit_eqI) (simp add: bit_simps)
  then show ?thesis by (simp add: parse_hex_digits)
qed

end
