(* ===== verification/User_Mem.thy ===== *)
theory User_Mem
  imports Vmm_Props Vmm_Frame Mem_String
begin

text \<open>
  Bytes of physical frames and of user address spaces, and the fault-tolerant copies between the kernel and a user
  process, \<^verbatim>\<open>src/kernel/src/arch/x86_64/usercopy.c\<close>. The page tables are those of \<open>Vmm\<close>; an access to an address that is not
  mapped or not canonical faults, and so does a write to a page that is not writable (CR0.WP is set). The fault handler of \<^verbatim>\<open>idt.c\<close>
  first offers a write fault to \<^verbatim>\<open>vmm_handle_cow_fault\<close> and, if that does not resolve it, unwinds the copy, which
  then returns -1: here \<open>None\<close> or \<open>False\<close>. Addresses are those of the user half.
\<close>

section \<open>Bytes of a frame\<close>

definition frame_byte :: "'a machine_scheme \<Rightarrow> nat \<Rightarrow> nat \<Rightarrow> u8" where
  "frame_byte m f off = byte_of (off mod 8) (phys_mem m f (off div 8))"

definition put_byte_of :: "nat \<Rightarrow> u8 \<Rightarrow> u64 \<Rightarrow> u64" where
  "put_byte_of i b w = (w AND NOT (push_bit (8 * i) 0xFF)) OR push_bit (8 * i) (ucast b)"

definition set_frame_byte :: "nat \<Rightarrow> nat \<Rightarrow> u8 \<Rightarrow> 'a machine_scheme \<Rightarrow> 'a machine_scheme" where
  "set_frame_byte f off b m =
     m\<lparr>phys_mem := (phys_mem m)(f := (phys_mem m f)(off div 8 := put_byte_of (off mod 8) b (phys_mem m f (off div 8))))\<rparr>"

text \<open>A run of bytes from one offset of a frame on.\<close>

fun set_frame_bytes :: "nat \<Rightarrow> nat \<Rightarrow> u8 list \<Rightarrow> 'a machine_scheme \<Rightarrow> 'a machine_scheme" where
  "set_frame_bytes f off [] m = m"
| "set_frame_bytes f off (b # bs) m = set_frame_bytes f (off + 1) bs (set_frame_byte f off b m)"

lemma byte_of_put: "i < 8 \<Longrightarrow> j < 8 \<Longrightarrow> byte_of j (put_byte_of i b w) = (if j = i then b else byte_of j w)"
proof (rule bit_eqI)
  fix n assume ij: "i < 8" "j < 8" and "possible_bit TYPE(u8) n"
  then have n: "n < 8" by (simp add: possible_bit_def)
  have m: "bit (push_bit (8 * i) 0xFF :: u64) k \<longleftrightarrow> 8 * i \<le> k \<and> k < 8 * i + 8" if "k < 64" for k
  proof -
    have "(0xFF :: u64) = mask 8" by (simp add: mask_eq_exp_minus_1)
    then show ?thesis using that by (simp only: bit_push_bit_iff bit_mask_iff possible_bit_def) auto
  qed
  have u: "bit (push_bit (8 * i) (ucast b :: u64)) k \<longleftrightarrow> 8 * i \<le> k \<and> bit b (k - 8 * i)" if "k < 64" for k
    using that by (auto simp: bit_simps bit_ucast8)
  have k: "8 * j + n < 64" using ij n by simp
  have "bit (byte_of j (put_byte_of i b w)) n \<longleftrightarrow>
      (bit w (8 * j + n) \<and> \<not> (8 * i \<le> 8 * j + n \<and> 8 * j + n < 8 * i + 8)) \<or> 8 * i \<le> 8 * j + n \<and> bit b (8 * j + n - 8 * i)"
    using k by (simp add: bit_byte_of [OF n] put_byte_of_def bit_or_iff bit_and_iff bit_not_iff m [OF k] u [OF k] possible_bit_def)
  also have "\<dots> \<longleftrightarrow> bit (if j = i then b else byte_of j w) n"
  proof (cases "j = i")
    case False
    have "\<not> (8 * i \<le> 8 * j + n \<and> 8 * j + n < 8 * i + 8)" using False n by auto
    moreover have "8 * i \<le> 8 * j + n \<Longrightarrow> \<not> bit b (8 * j + n - 8 * i)"
      using False n bit_imp_le_length [of b "8 * j + n - 8 * i"] by auto
    ultimately show ?thesis using False bit_byte_of [OF n, of j w] by auto
  qed (use n in simp)
  finally show "bit (byte_of j (put_byte_of i b w)) n = bit (if j = i then b else byte_of j w) n" .
qed

lemma frame_byte_set:
  "frame_byte (set_frame_byte f off b m) g o' = (if g = f \<and> o' = off then b else frame_byte m g o')"
proof (cases "g = f \<and> o' div 8 = off div 8")
  case True
  have "o' mod 8 = off mod 8 \<longleftrightarrow> o' = off" using True by (metis div_mult_mod_eq)
  then show ?thesis using True byte_of_put [of "off mod 8" "o' mod 8" b] by (auto simp: frame_byte_def set_frame_byte_def)
qed (auto simp: frame_byte_def set_frame_byte_def)

lemma frame_byte_set_bytes:
  "frame_byte (set_frame_bytes f off bs m) g o' =
     (if g = f \<and> off \<le> o' \<and> o' < off + length bs then bs ! (o' - off) else frame_byte m g o')"
proof (induction bs arbitrary: off m)
  case (Cons b bs)
  show ?case
  proof (cases "g = f \<and> o' = off")
    case False
    then show ?thesis using Cons [of "off + 1" "set_frame_byte f off b m"]
      by (auto simp: frame_byte_set nth_Cons' not_less_eq_eq)
  next
    case True
    then show ?thesis using Cons [of "off + 1" "set_frame_byte f off b m"] by (simp add: frame_byte_set)
  qed
qed auto

lemma set_frame_byte_fields [simp]:
  "machine.more (set_frame_byte f off b m) = machine.more m" "kernel_pml4 (set_frame_byte f off b m) = kernel_pml4 m"
  "npages (set_frame_byte f off b m) = npages m" "free_frames (set_frame_byte f off b m) = free_frames m"
  by (simp_all add: set_frame_byte_def npages_def free_frames_def frame_simps)

lemma set_frame_bytes_fields [simp]:
  "machine.more (set_frame_bytes f off bs m) = machine.more m" "kernel_pml4 (set_frame_bytes f off bs m) = kernel_pml4 m"
  "npages (set_frame_bytes f off bs m) = npages m" "free_frames (set_frame_bytes f off bs m) = free_frames m"
  by (induction bs arbitrary: off m) simp_all

section \<open>Accesses to user addresses\<close>

definition page_offset :: "addr \<Rightarrow> nat" where
  "page_offset va = unat (va AND 0xFFF)"

text \<open>
  Bits 47 to 63 of an address are equal. The processor refuses any other address with a general protection fault before
  it looks at the page tables, and \<^verbatim>\<open>isr_handler\<close> unwinds the copy as for a page fault.
\<close>

definition canonical :: "addr \<Rightarrow> bool" where
  "canonical va \<longleftrightarrow> va < 0x800000000000 \<or> va \<ge> 0xFFFF800000000000"

text \<open>The addresses of the user half, \<open>2 ^ 47\<close> bytes, are canonical and translated by the first 256 entries of the root.\<close>

definition low_va :: "addr \<Rightarrow> bool" where
  "low_va va \<longleftrightarrow> unat va < 2 ^ 47"

lemma index_nat: "unat (drop_bit s va AND 0x1FF) = unat va div 2 ^ s mod 512" for va :: u64
proof -
  have "take_bit LENGTH(64) (unat va) = unat va" using unat_less_two_power [of va] by (simp add: take_bit_nat_eq_self_iff)
  then have "unat (take_bit 9 (drop_bit s va)) = take_bit 9 (drop_bit s (unat va))"
    by (simp only: unsigned_take_bit_eq unsigned_drop_bit_eq)
  then show ?thesis unfolding and_0x1FF by (simp add: take_bit_eq_mod drop_bit_eq_div)
qed

lemma low_user_va: "low_va va \<Longrightarrow> user_va va"
  unfolding user_va_def pml4_entry_def index_nat by (simp add: low_va_def)

lemma low_canonical: "low_va va \<Longrightarrow> canonical va"
  by (simp add: low_va_def canonical_def word_less_nat_alt)

definition user_load :: "addr \<Rightarrow> addr \<Rightarrow> 'a machine_scheme \<Rightarrow> u8 option" where
  "user_load r va m =
     (if \<not> canonical va then None
      else case lookup m r va of None \<Rightarrow> None | Some e \<Rightarrow> Some (frame_byte m (frame_no (entry_addr e)) (page_offset va)))"

text \<open>A write that goes through, to a page that is mapped writable.\<close>

definition store_mapped :: "addr \<Rightarrow> addr \<Rightarrow> u8 \<Rightarrow> 'a machine_scheme \<Rightarrow> bool \<times> 'a machine_scheme" where
  "store_mapped r va b m =
     (case lookup m r va of
        None \<Rightarrow> (False, m)
      | Some e \<Rightarrow> if has_flag e PTE_WRITABLE then (True, set_frame_byte (frame_no (entry_addr e)) (page_offset va) b m)
                 else (False, m))"

text \<open>
  The write fault of \<^verbatim>\<open>isr_handler\<close>: the access is retried once the fault is resolved. A general protection fault is not
  offered to \<^verbatim>\<open>vmm_handle_cow_fault\<close>.
\<close>

definition user_store :: "addr \<Rightarrow> addr \<Rightarrow> u8 \<Rightarrow> 'a machine_scheme \<Rightarrow> bool \<times> 'a machine_scheme" where
  "user_store r va b m =
     (if \<not> canonical va then (False, m)
      else case store_mapped r va b m of
        (True, m1) \<Rightarrow> (True, m1)
      | (False, m1) \<Rightarrow>
          (case vmm_handle_cow_fault r va m1 of
             (True, m2) \<Rightarrow> store_mapped r va b m2
           | (False, m2) \<Rightarrow> (False, m2)))"

fun copy_from_user :: "addr \<Rightarrow> addr \<Rightarrow> nat \<Rightarrow> 'a machine_scheme \<Rightarrow> u8 list option" where
  "copy_from_user r usrc 0 m = Some []"
| "copy_from_user r usrc (Suc n) m =
     (case user_load r usrc m of
        None \<Rightarrow> None
      | Some b \<Rightarrow> (case copy_from_user r (usrc + 1) n m of None \<Rightarrow> None | Some bs \<Rightarrow> Some (b # bs)))"

fun copy_to_user :: "addr \<Rightarrow> addr \<Rightarrow> u8 list \<Rightarrow> 'a machine_scheme \<Rightarrow> bool \<times> 'a machine_scheme" where
  "copy_to_user r udst [] m = (True, m)"
| "copy_to_user r udst (b # bs) m =
     (case user_store r udst b m of
        (True, m1) \<Rightarrow> copy_to_user r (udst + 1) bs m1
      | (False, m1) \<Rightarrow> (False, m1))"

section \<open>Copies\<close>

lemma all_Suc_less: "(\<forall>i < Suc n. P i) \<longleftrightarrow> P 0 \<and> (\<forall>i < n. P (Suc i))"
  by (auto simp: less_Suc_eq_0_disj)

lemma user_load_None: "user_load r va m = None \<longleftrightarrow> \<not> canonical va \<or> lookup m r va = None"
  by (simp add: user_load_def split: option.split)

lemma copy_from_user_loads:
  "copy_from_user r a n m =
     (if \<forall>i < n. user_load r (a + of_nat i) m \<noteq> None then Some (map (\<lambda>i. the (user_load r (a + of_nat i) m)) [0..<n]) else None)"
proof (induction n arbitrary: a)
  case (Suc n)
  have sh: "a + of_nat (Suc i) = a + 1 + of_nat i" for i by simp
  have all: "(\<forall>i < Suc n. user_load r (a + of_nat i) m \<noteq> None) \<longleftrightarrow>
      user_load r a m \<noteq> None \<and> (\<forall>i < n. user_load r (a + 1 + of_nat i) m \<noteq> None)"
    unfolding all_Suc_less sh [symmetric] by simp
  have m: "map (\<lambda>i. the (user_load r (a + of_nat i) m)) [0..<Suc n] =
      the (user_load r a m) # map (\<lambda>i. the (user_load r (a + 1 + of_nat i) m)) [0..<n]"
    unfolding sh [symmetric] by (simp add: upt_conv_Cons map_Suc_upt [symmetric] del: upt_Suc)
  show ?case unfolding all m by (cases "user_load r a m") (simp_all add: Suc [of "a + 1"])
qed simp

text \<open>Where the page of a user address lies in physical memory.\<close>

definition user_slot :: "'a machine_scheme \<Rightarrow> addr \<Rightarrow> addr \<Rightarrow> nat \<times> nat" where
  "user_slot m r va = (frame_no (entry_addr (the (lookup m r va))), page_offset va)"

text \<open>An address of the user half, \<open>2 ^ 47\<close> bytes, that the process may write.\<close>

definition user_writable :: "'a machine_scheme \<Rightarrow> addr \<Rightarrow> addr \<Rightarrow> bool" where
  "user_writable m r va \<longleftrightarrow> low_va va \<and>
     (\<exists>e. lookup m r va = Some e \<and> has_flag e PTE_WRITABLE \<and> \<not> has_flag e PTE_NOPMM)"

lemma user_writable_frame:
  assumes inv: "vm_inv m R X" and r: "r \<in> R" and w: "user_writable m r va"
  shows "data_frame m R (fst (user_slot m r va))"
proof -
  obtain e where e: "lookup m r va = Some e" "user_va va" "\<not> has_flag e PTE_NOPMM"
    using w low_user_va by (auto simp: user_writable_def)
  have l: "entry_at m r (vpath va) = e" "has_flag e PTE_PRESENT" using e(1) by (auto simp: lookup_def Let_def split: if_splits)
  have "pays (entry_at m r (vpath va)) (frame_no (entry_addr e)) = 1" using e l by (simp add: pays_def)
  then show ?thesis using leaf_data_frame [OF inv r, of "vpath va"] e(1,2) by (simp add: user_slot_def)
qed

lemma store_writable:
  assumes inv: "vm_inv m R X" and r: "r \<in> R" and w: "user_writable m r va"
  obtains m' where "user_store r va b m = (True, m')" "vm_inv m' R X"
    "\<And>r' va'. r' \<in> R \<Longrightarrow> user_va va' \<Longrightarrow> lookup m' r' va' = lookup m r' va'"
    "\<And>f off. frame_byte m' f off = (if (f, off) = user_slot m r va then b else frame_byte m f off)"
    "machine.more m' = machine.more m" "free_frames m' = free_frames m"
proof -
  let ?f = "fst (user_slot m r va)"
  let ?m = "set_frame_byte ?f (page_offset va) b m"
  have d: "data_frame m R ?f" by (rule user_writable_frame [OF assms])
  obtain x where x: "?m = m\<lparr>phys_mem := (phys_mem m)(?f := x)\<rparr>" by (simp add: set_frame_byte_def)
  have st: "user_store r va b m = (True, ?m)"
    using w low_canonical by (auto simp: user_store_def store_mapped_def user_writable_def user_slot_def)
  show thesis
  proof (rule that [OF st])
    show "vm_inv ?m R X" unfolding x by (rule vm_inv_data_write [OF inv d])
    show "lookup ?m r' va' = lookup m r' va'" if "r' \<in> R" "user_va va'" for r' va'
      unfolding x lookup_def using data_write(1) [OF d that(1), of "vpath va'" x] that(2) by simp
    show "frame_byte ?m f off = (if (f, off) = user_slot m r va then b else frame_byte m f off)" for f off
      by (auto simp: frame_byte_set user_slot_def)
  qed simp_all
qed

lemma copy_to_user_writable:
  assumes "vm_inv m R X" "r \<in> R" "\<And>i. i < length bs \<Longrightarrow> user_writable m r (a + of_nat i)"
    and inj: "inj_on (\<lambda>i. user_slot m r (a + of_nat i)) {..<length bs}"
  shows "\<exists>m'. copy_to_user r a bs m = (True, m') \<and> vm_inv m' R X \<and> machine.more m' = machine.more m \<and>
    (\<forall>r' \<in> R. \<forall>va. user_va va \<longrightarrow> lookup m' r' va = lookup m r' va) \<and>
    (\<forall>i < length bs. user_load r (a + of_nat i) m' = Some (bs ! i)) \<and>
    (\<forall>f off. (f, off) \<notin> (\<lambda>i. user_slot m r (a + of_nat i)) ` {..<length bs} \<longrightarrow> frame_byte m' f off = frame_byte m f off)"
  using assms
proof (induction bs arbitrary: a m)
  case (Cons b bs)
  have w0: "user_writable m r a" using Cons.prems(3) [of 0] by simp
  obtain m1 where m1: "user_store r a b m = (True, m1)" "vm_inv m1 R X"
    "\<And>r' va'. r' \<in> R \<Longrightarrow> user_va va' \<Longrightarrow> lookup m1 r' va' = lookup m r' va'"
    "\<And>f off. frame_byte m1 f off = (if (f, off) = user_slot m r a then b else frame_byte m f off)"
    "machine.more m1 = machine.more m" by (rule store_writable [OF Cons.prems(1,2) w0, of b]) blast
  have uv: "user_va (a + of_nat i)" if "i < length (b # bs)" for i
    using Cons.prems(3) [OF that] low_user_va by (simp add: user_writable_def)
  have sl: "user_slot m1 r (a + of_nat i) = user_slot m r (a + of_nat i)" if "i < length (b # bs)" for i
    using m1(3) [OF Cons.prems(2) uv [OF that]] by (simp add: user_slot_def)
  have sh: "a + 1 + of_nat i = a + of_nat (Suc i)" for i by simp
  have w1: "user_writable m1 r (a + 1 + of_nat i)" if "i < length bs" for i
    using Cons.prems(3) [of "Suc i"] m1(3) [OF Cons.prems(2) low_user_va] that unfolding sh user_writable_def by simp
  have inj1: "inj_on (\<lambda>i. user_slot m1 r (a + 1 + of_nat i)) {..<length bs}"
  proof (rule inj_onI)
    fix i j assume ij: "i \<in> {..<length bs}" "j \<in> {..<length bs}" "user_slot m1 r (a + 1 + of_nat i) = user_slot m1 r (a + 1 + of_nat j)"
    then have "user_slot m r (a + of_nat (Suc i)) = user_slot m r (a + of_nat (Suc j))"
      using sl [of "Suc i"] sl [of "Suc j"] unfolding sh by simp
    then have "Suc i = Suc j" using inj_onD [OF Cons.prems(4), of "Suc i" "Suc j"] ij by simp
    then show "i = j" by simp
  qed
  obtain m' where m': "copy_to_user r (a + 1) bs m1 = (True, m')" "vm_inv m' R X" "machine.more m' = machine.more m1"
    "\<forall>r' \<in> R. \<forall>va. user_va va \<longrightarrow> lookup m' r' va = lookup m1 r' va"
    "\<And>i. i < length bs \<Longrightarrow> user_load r (a + 1 + of_nat i) m' = Some (bs ! i)"
    "\<And>f off. (f, off) \<notin> (\<lambda>i. user_slot m1 r (a + 1 + of_nat i)) ` {..<length bs} \<Longrightarrow> frame_byte m' f off = frame_byte m1 f off"
    using Cons.IH [OF m1(2) Cons.prems(2) w1 inj1] by blast
  have im: "(\<lambda>i. user_slot m1 r (a + 1 + of_nat i)) ` {..<length bs} = (\<lambda>i. user_slot m r (a + of_nat (Suc i))) ` {..<length bs}"
  proof (rule image_cong [OF refl])
    fix i assume "i \<in> {..<length bs}"
    then show "user_slot m1 r (a + 1 + of_nat i) = user_slot m r (a + of_nat (Suc i))"
      using sl [of "Suc i"] unfolding sh by simp
  qed
  have l: "lookup m' r' va = lookup m r' va" if "r' \<in> R" "user_va va" for r' va using m'(4) m1(3) that by simp
  have s0: "user_slot m r a \<notin> (\<lambda>i. user_slot m r (a + of_nat (Suc i))) ` {..<length bs}"
    using inj_onD [OF Cons.prems(4), of 0] by force
  have "frame_byte m' (fst (user_slot m r a)) (snd (user_slot m r a)) = b"
    using m'(6) [of "fst (user_slot m r a)" "snd (user_slot m r a)", unfolded im prod.collapse, OF s0]
      m1(4) [of "fst (user_slot m r a)" "snd (user_slot m r a)"] by simp
  then have first: "user_load r a m' = Some b"
    using l [OF Cons.prems(2) low_user_va, of a] w0 low_canonical by (auto simp: user_load_def user_slot_def user_writable_def)
  have "user_load r (a + of_nat i) m' = Some ((b # bs) ! i)" if "i < length (b # bs)" for i
    using that first m'(5) [unfolded sh] by (cases i) auto
  moreover have "frame_byte m' f off = frame_byte m f off"
    if "(f, off) \<notin> (\<lambda>i. user_slot m r (a + of_nat i)) ` {..<length (b # bs)}" for f off
  proof -
    have "(f, off) \<noteq> user_slot m r a" using that by (force simp: image_iff)
    moreover have "(f, off) \<notin> (\<lambda>i. user_slot m r (a + of_nat (Suc i))) ` {..<length bs}" using that by (force simp: image_iff)
    ultimately show ?thesis using m'(6) m1(4) unfolding im by simp
  qed
  ultimately show ?case using m1(1,5) m'(1-3) l by (intro exI [of _ m']) simp
qed simp

text \<open>
  \<^verbatim>\<open>copy_from_user\<close> fails exactly when some byte of the buffer is not canonical or not mapped, and never reads anything else: a bad user
  pointer gives -1, not a kernel fault.
\<close>

definition reads :: "'a machine_scheme \<Rightarrow> addr \<Rightarrow> addr \<Rightarrow> bool" where
  "reads m r va \<longleftrightarrow> canonical va \<and> lookup m r va \<noteq> None"

lemma copy_from_user_checks:
  "copy_from_user r a n m =
     (if \<forall>i < n. reads m r (a + of_nat i)
      then Some (map (\<lambda>i. frame_byte m (fst (user_slot m r (a + of_nat i))) (page_offset (a + of_nat i))) [0..<n])
      else None)"
proof (cases "\<forall>i < n. reads m r (a + of_nat i)")
  case True
  have "the (user_load r (a + of_nat i) m) = frame_byte m (fst (user_slot m r (a + of_nat i))) (page_offset (a + of_nat i))"
    if "i < n" for i using True that by (auto simp: user_load_def user_slot_def reads_def)
  then have "map (\<lambda>i. the (user_load r (a + of_nat i) m)) [0..<n] =
      map (\<lambda>i. frame_byte m (fst (user_slot m r (a + of_nat i))) (page_offset (a + of_nat i))) [0..<n]"
    by (intro map_cong) simp_all
  then show ?thesis using True by (simp add: copy_from_user_loads user_load_None reads_def)
next
  case False
  then have "\<not> (\<forall>i < n. user_load r (a + of_nat i) m \<noteq> None)" by (simp add: user_load_None reads_def)
  then show ?thesis unfolding copy_from_user_loads using False by (simp only: if_False)
qed

section \<open>Properties\<close>

text \<open>
  C24: What \<^verbatim>\<open>copy_to_user\<close> writes to a mapped writable buffer below \<open>2 ^ 47\<close> \<^verbatim>\<open>copy_from_user\<close> reads back, no byte of any page outside
  the buffer changes, and the page tables and the accounting of the frames stay as they are. The pages of the
  buffer lie in different frames.
\<close>

theorem usercopy_roundtrip:
  assumes "vm_inv m R X" "r \<in> R" "\<And>i. i < length bs \<Longrightarrow> user_writable m r (a + of_nat i)"
    and "inj_on (\<lambda>i. user_slot m r (a + of_nat i)) {..<length bs}"
  shows "\<exists>m'. copy_to_user r a bs m = (True, m') \<and> copy_from_user r a (length bs) m' = Some bs \<and> vm_inv m' R X \<and>
    (\<forall>r' \<in> R. \<forall>va. user_va va \<longrightarrow> lookup m' r' va = lookup m r' va) \<and>
    (\<forall>f off. (f, off) \<notin> (\<lambda>i. user_slot m r (a + of_nat i)) ` {..<length bs} \<longrightarrow> frame_byte m' f off = frame_byte m f off)"
proof -
  obtain m' where m': "copy_to_user r a bs m = (True, m')" "vm_inv m' R X"
    "\<forall>r' \<in> R. \<forall>va. user_va va \<longrightarrow> lookup m' r' va = lookup m r' va"
    "\<And>i. i < length bs \<Longrightarrow> user_load r (a + of_nat i) m' = Some (bs ! i)"
    "\<forall>f off. (f, off) \<notin> (\<lambda>i. user_slot m r (a + of_nat i)) ` {..<length bs} \<longrightarrow> frame_byte m' f off = frame_byte m f off"
    using copy_to_user_writable [OF assms] by blast
  have "map (\<lambda>i. the (user_load r (a + of_nat i) m')) [0..<length bs] = map (\<lambda>i. bs ! i) [0..<length bs]"
    by (rule map_cong) (simp_all add: m'(4))
  then have "copy_from_user r a (length bs) m' = Some bs"
    using m'(4) by (simp add: copy_from_user_loads map_nth)
  then show ?thesis using m' by blast
qed

theorem usercopy_roundtrip_witness:
  "\<exists>m'. copy_to_user 0x1000 0x400000 [7, 9] demo3 = (True, m') \<and> copy_from_user 0x1000 0x400000 2 m' = Some [7, 9]"
proof -
  have e: "lookup demo3 0x1000 0x400000 = Some 0x2007" by (rule demo3_facts)
  have v: "vpath 0x400001 = vpath 0x400000"
    by (simp add: vpath_def pml4_entry_def pdpt_entry_def pd_entry_def pt_entry_def)
  have e1: "lookup demo3 0x1000 0x400001 = Some 0x2007" using e by (simp add: lookup_def v)
  have u: "low_va 0x400000" "low_va 0x400001" by (simp_all add: low_va_def)
  have w: "user_writable demo3 0x1000 (0x400000 + of_nat i)" if "i < length [7, 9 :: u8]" for i
    using that e e1 u by (auto simp: user_writable_def less_Suc_eq has_flag_def)
  have inj: "inj_on (\<lambda>i. user_slot demo3 0x1000 (0x400000 + of_nat i)) {..<length [7, 9 :: u8]}"
    by (auto simp: inj_on_def user_slot_def page_offset_def less_Suc_eq)
  have "\<exists>m'. copy_to_user 0x1000 0x400000 [7, 9] demo3 = (True, m') \<and>
      copy_from_user 0x1000 0x400000 (length [7, 9 :: u8]) m' = Some [7, 9]"
    using usercopy_roundtrip [OF demo3_facts(1) insertI1 w inj] by blast
  then show ?thesis by (simp only: list.size numeral_2_eq_2 add_0 plus_1_eq_Suc add_Suc_right add_0_right One_nat_def)
qed

end
