(* ===== verification/User_Page.thy ===== *)
theory User_Page
  imports User_Mem
begin

text \<open>
  What the loader, the heap of a process and its anonymous mappings have in common: a new frame is allocated, filled and
  mapped at a user address that had no page.
\<close>

section \<open>Mapping a new page\<close>

lemma leaf_managed:
  assumes inv: "vm_inv m R X" and r: "r \<in> R" "user_va va" "lookup m r va = Some e" "\<not> has_flag e PTE_NOPMM"
  shows "data_frame m R (frame_no (entry_addr e))" "refs m R (frame_no (entry_addr e)) \<noteq> {}"
    "frame_state m (frame_no (entry_addr e)) \<noteq> None"
proof -
  let ?f = "frame_no (entry_addr e)"
  have e: "entry_at m r (vpath va) = e" "has_flag e PTE_PRESENT"
    using r(3) by (auto simp: lookup_def Let_def split: if_splits)
  have p: "pays (entry_at m r (vpath va)) ?f = 1" using e r(4) by (simp add: pays_def)
  show "data_frame m R ?f" using leaf_data_frame [OF inv r(1), of "vpath va"] p r(2) by simp
  have "(r, vpath va) \<in> refs m R ?f" using p r by (simp add: refs_leaf)
  then show n: "refs m R ?f \<noteq> {}" by blast
  have "0 < card (refs m R ?f)" using n finite_refs [OF vm_invD(3) [OF inv]] by (simp add: card_gt_0_iff)
  then have "0 < owners_of m ?f" using vm_invD(6) [OF inv] vm_invD(5) [OF inv n] by simp
  then show "frame_state m ?f \<noteq> None" by (auto simp: owners_of_def split: option.splits)
qed

definition page_flags :: "u64 \<Rightarrow> bool" where
  "page_flags flags \<longleftrightarrow> flags AND ADDR_MASK = 0 \<and> has_flag flags PTE_PRESENT \<and> \<not> has_flag flags PTE_NOPMM"

text \<open>A frame has been allocated and its contents are \<open>x\<close>.\<close>

definition with_frame :: "nat \<Rightarrow> (nat \<Rightarrow> u64) \<Rightarrow> 'a machine_scheme \<Rightarrow> 'a machine_scheme" where
  "with_frame f x m = m\<lparr>phys_mem := (phys_mem m)(f := x)\<rparr>"

lemma with_frame_simps [simp]:
  "npages (with_frame f x m) = npages m" "frame_state (with_frame f x m) = frame_state m"
  "machine.more (with_frame f x m) = machine.more m" "phys_mem (with_frame f x m) g = (if g = f then x else phys_mem m g)"
  by (simp_all add: with_frame_def npages_def frame_simps)

lemma with_frame_new:
  assumes inv: "vm_inv m R X" and a: "pmm_alloc_page m = (a, m1)" "a \<noteq> NULL"
  shows "vm_inv (with_frame (frame_no a) x m1) R (X(frame_no a := 1))"
    "r' \<in> R \<Longrightarrow> user_path p \<Longrightarrow> entry_at (with_frame (frame_no a) x m1) r' p = entry_at m r' p"
    "data_frame (with_frame (frame_no a) x m1) R (frame_no a)"
    "free_frames m = free_frames (with_frame (frame_no a) x m1) + 1"
proof -
  note al = vm_inv_alloc [OF inv a]
  have c: "entry_at m1 = entry_at m" using mem_cong(3) [OF al(9)] by (simp add: fun_eq_iff)
  have "0 < (X(frame_no a := 1)) (frame_no a)" by simp
  note d = owned_data_frame [OF al(1) this]
  show i: "vm_inv (with_frame (frame_no a) x m1) R (X(frame_no a := 1))"
    unfolding with_frame_def by (rule vm_inv_data_write [OF al(1) d])
  show "entry_at (with_frame (frame_no a) x m1) r' p = entry_at m r' p" if "r' \<in> R" "user_path p"
    using data_write(1) [OF d that, of x] by (simp add: with_frame_def c)
  show "data_frame (with_frame (frame_no a) x m1) R (frame_no a)" by (rule owned_data_frame [OF i]) simp
  show "free_frames m = free_frames (with_frame (frame_no a) x m1) + 1"
    using free_frames_alloc [OF al(4,7,8,10)] by (simp add: free_frames_def)
qed

lemma map_new_page:
  fixes m :: "'a machine_scheme" and x :: "nat \<Rightarrow> u64"
  assumes inv: "vm_inv m R X" and r: "r \<in> R" "user_va va" "lookup m r va = None"
    and a: "pmm_alloc_page m = (a, m1)" "a \<noteq> NULL" and ff: "4 \<le> free_frames m" and flags: "page_flags flags"
  defines "m3 \<equiv> vmm_map_page r va a flags (with_frame (frame_no a) x m1)"
  shows "vm_inv m3 R X" "lookup m3 r va = Some (a OR flags)" "entry_addr (a OR flags) = a"
    "\<And>r' va'. r' \<in> R \<Longrightarrow> user_va va' \<Longrightarrow> r' \<noteq> r \<or> vpath va' \<noteq> vpath va \<Longrightarrow> lookup m3 r' va' = lookup m r' va'"
    "phys_mem m3 (frame_no a) = x" "free_frames m \<le> free_frames m3 + 4"
    "\<And>r' va' e. r' \<in> R \<Longrightarrow> user_va va' \<Longrightarrow> lookup m r' va' = Some e \<Longrightarrow> \<not> has_flag e PTE_NOPMM \<Longrightarrow>
       phys_mem m3 (frame_no (entry_addr e)) = phys_mem m (frame_no (entry_addr e))"
    "machine.more m3 = machine.more m"
proof -
  let ?f = "frame_no a" and ?m2 = "with_frame (frame_no a) x m1"
  note al = vm_inv_alloc [OF inv a] and fi = with_frame_new [OF inv a, where x = x]
  note fl = flags [unfolded page_flags_def]
  have f40: "?f < 2 ^ 40" using al(7) vm_invD(2) [OF inv] by linarith
  have pe: "pays (a OR flags) g = (if g = ?f then 1 else 0)" for g
    using pays_made_entry [OF f40, of flags g] fl unfolding al(5) by simp
  have own: "\<forall>g. pays (a OR flags) g = 1 \<longrightarrow> 0 < (X(?f := 1)) g \<and> 0 < g \<and> g < npages ?m2"
    using al(6,7,10) by (simp add: pe)
  note mp = vmm_map_page_spec [OF fi(1) r(1,2) own, folded m3_def]
  have up: "user_path (vpath va')" "length (vpath va') = 4" if "user_va va'" for va' using that by simp_all
  have old: "entry_at ?m2 r (vpath va) = entry_at m r (vpath va)" by (rule fi(2) [OF r(1) up(1) [OF r(2)]])
  have mv: "moved (X(?f := 1)) (entry_at ?m2 r (vpath va)) (a OR flags) = X"
    using al(2) by (simp add: fun_eq_iff moved_def pe old lookup_None_pays [OF r(3)])
  have "\<not> free_frames ?m2 < 3" using fi(4) ff by simp
  then have m: "entry_at m3 r (vpath va) = a OR flags" "vm_inv m3 R X" using mp(1) unfolding mv by auto
  then show "vm_inv m3 R X" "lookup m3 r va = Some (a OR flags)" using fl by (auto simp: lookup_def has_flag_or)
  show "entry_addr (a OR flags) = a" using entry_addr_make [OF f40, of flags] fl unfolding al(5) by simp
  show "lookup m3 r' va' = lookup m r' va'" if "r' \<in> R" "user_va va'" "r' \<noteq> r \<or> vpath va' \<noteq> vpath va" for r' va'
    using mp(2) [OF that(1) up [OF that(2)]] fi(2) [OF that(1) up(1) [OF that(2)]] that(3) by (auto simp: lookup_def)
  have st: "frame_state ?m2 = (frame_state m)(?f \<mapsto> 1)" using al(8) by simp
  show "phys_mem m3 ?f = x" using mp(4) [of ?f] fi(3) st by simp
  show "free_frames m \<le> free_frames m3 + 4" using mp(6) fi(4) by simp
  show "machine.more m3 = machine.more m" using rest_alloc [OF a(1)] by (simp add: m3_def)
  show "phys_mem m3 (frame_no (entry_addr e)) = phys_mem m (frame_no (entry_addr e))"
    if "r' \<in> R" "user_va va'" "lookup m r' va' = Some e" "\<not> has_flag e PTE_NOPMM" for r' va' e
  proof -
    let ?g = "frame_no (entry_addr e)"
    note lm = leaf_managed [OF inv that]
    have g: "?g \<noteq> ?f" using lm(2) al(3) by auto
    have "lookup ?m2 r' va' = Some e"
      using that(3) fi(2) [OF that(1) up(1) [OF that(2)]] by (simp add: lookup_def)
    note lm2 = leaf_managed [OF fi(1) that(1,2) this that(4)]
    have "phys_mem m3 ?g = phys_mem ?m2 ?g" using mp(4) [OF lm2(3,1)] by simp
    then show ?thesis using g al(9) by simp
  qed
qed

text \<open>The bytes a process sees.\<close>

lemma user_load_frame:
  "lookup m' r va = lookup m r va \<Longrightarrow>
   (\<And>e. lookup m r va = Some e \<Longrightarrow> phys_mem m' (frame_no (entry_addr e)) = phys_mem m (frame_no (entry_addr e))) \<Longrightarrow>
   user_load r va m' = user_load r va m"
  by (simp add: user_load_def frame_byte_def split: option.split)

end
