(* ===== verification/Elf.thy ===== *)
theory Elf
  imports Vfs User_Page
begin

text \<open>
  The program loader, \<^verbatim>\<open>src/kernel/src/arch/x86_64/elf.c\<close>. The executable is read from the bytes of the archive in
  memory; its headers are the structures of \<^verbatim>\<open>elf.h\<close>, packed and little-endian. The page loop of a segment is a
  partial function, \<open>None\<close> standing for a loop that does not end; \<open>load_pages_spec\<close> shows that it does. The first
  component of a result is \<open>None\<close> for the return value -1.
\<close>

section \<open>Headers\<close>

abbreviation ELF_MAGIC :: u32 where "ELF_MAGIC \<equiv> 0x464C457F"
abbreviation ELFCLASS64 :: u8 where "ELFCLASS64 \<equiv> 2"
abbreviation ELFDATA2LSB :: u8 where "ELFDATA2LSB \<equiv> 1"
abbreviation ET_EXEC :: u16 where "ET_EXEC \<equiv> 2"
abbreviation PT_LOAD :: u32 where "PT_LOAD \<equiv> 1"
abbreviation PF_X :: u32 where "PF_X \<equiv> 1"
abbreviation PF_W :: u32 where "PF_W \<equiv> 2"

record elf64_ehdr =
  e_magic :: u32
  e_class :: u8
  e_data :: u8
  e_version :: u8
  e_osabi :: u8
  e_abiversion :: u8
  e_type :: u16
  e_machine :: u16
  e_version2 :: u32
  e_entry :: u64
  e_phoff :: u64
  e_shoff :: u64
  e_flags :: u32
  e_ehsize :: u16
  e_phentsize :: u16
  e_phnum :: u16
  e_shentsize :: u16
  e_shnum :: u16
  e_shstrndx :: u16

record elf64_phdr =
  ph_type :: u32
  ph_flags :: u32
  ph_offset :: u64
  ph_vaddr :: u64
  ph_paddr :: u64
  ph_filesz :: u64
  ph_memsz :: u64
  ph_align :: u64

text \<open>The little-endian number in \<open>n\<close> bytes.\<close>

fun read_le :: "nat \<Rightarrow> bytes \<Rightarrow> u64 \<Rightarrow> u64" where
  "read_le 0 m a = 0"
| "read_le (Suc n) m a = ucast (m a) OR push_bit 8 (read_le n m (a + 1))"

definition read_ehdr :: "bytes \<Rightarrow> u64 \<Rightarrow> elf64_ehdr" where
  "read_ehdr m a =
     \<lparr>e_magic = ucast (read_le 4 m a), e_class = m (a + 4), e_data = m (a + 5), e_version = m (a + 6),
      e_osabi = m (a + 7), e_abiversion = m (a + 8), e_type = ucast (read_le 2 m (a + 16)),
      e_machine = ucast (read_le 2 m (a + 18)), e_version2 = ucast (read_le 4 m (a + 20)),
      e_entry = read_le 8 m (a + 24), e_phoff = read_le 8 m (a + 32), e_shoff = read_le 8 m (a + 40),
      e_flags = ucast (read_le 4 m (a + 48)), e_ehsize = ucast (read_le 2 m (a + 52)),
      e_phentsize = ucast (read_le 2 m (a + 54)), e_phnum = ucast (read_le 2 m (a + 56)),
      e_shentsize = ucast (read_le 2 m (a + 58)), e_shnum = ucast (read_le 2 m (a + 60)),
      e_shstrndx = ucast (read_le 2 m (a + 62))\<rparr>"

definition read_phdr :: "bytes \<Rightarrow> u64 \<Rightarrow> elf64_phdr" where
  "read_phdr m a =
     \<lparr>ph_type = ucast (read_le 4 m a), ph_flags = ucast (read_le 4 m (a + 4)), ph_offset = read_le 8 m (a + 8),
      ph_vaddr = read_le 8 m (a + 16), ph_paddr = read_le 8 m (a + 24), ph_filesz = read_le 8 m (a + 32),
      ph_memsz = read_le 8 m (a + 40), ph_align = read_le 8 m (a + 48)\<rparr>"

section \<open>Loading\<close>

definition page_align_down :: "u64 \<Rightarrow> u64" where
  "page_align_down a = a AND NOT (PAGE_SIZE - 1)"

definition page_align_up :: "u64 \<Rightarrow> u64" where
  "page_align_up a = (a + PAGE_SIZE - 1) AND NOT (PAGE_SIZE - 1)"

definition segment_flags :: "elf64_phdr \<Rightarrow> u64" where
  "segment_flags ph =
     (let flags = PTE_PRESENT OR PTE_USER;
          flags1 = (if ph_flags ph AND PF_W \<noteq> 0 then flags OR PTE_WRITABLE else flags)
      in if ph_flags ph AND PF_X = 0 then flags1 OR PTE_NX else flags1)"

text \<open>The new frame \<open>phys\<close> for the page at \<open>page_vaddr\<close>: zeroes and the bytes of the file that fall into it.\<close>

definition fill_page :: "u64 \<Rightarrow> elf64_phdr \<Rightarrow> u64 \<Rightarrow> addr \<Rightarrow> 'a vfs_scheme \<Rightarrow> 'a vfs_scheme" where
  "fill_page data ph page_vaddr phys k =
     (let k1 = zero_page phys k;
          page_end = page_vaddr + PAGE_SIZE;
          file_start = ph_vaddr ph;
          file_end = ph_vaddr ph + ph_filesz ph;
          copy_start = (if page_vaddr > file_start then page_vaddr else file_start);
          copy_end = (if page_end < file_end then page_end else file_end)
      in if copy_start < copy_end then
           let copy_len = copy_end - copy_start;
               file_offset = ph_offset ph + (copy_start - file_start);
               off = copy_start - page_vaddr
           in set_frame_bytes (frame_no phys) (unat off) (bytes_from (data + file_offset) (unat copy_len) (ramdisk k1)) k1
         else k1)"

partial_function (option) load_pages ::
    "u64 \<Rightarrow> addr \<Rightarrow> elf64_phdr \<Rightarrow> u64 \<Rightarrow> u64 \<Rightarrow> u64 \<Rightarrow> 'a vfs_scheme \<Rightarrow> (bool \<times> 'a vfs_scheme) option" where
  "load_pages data pml4 ph flags page_vaddr seg_end k =
     (if \<not> page_vaddr < seg_end then Some (True, k)
      else case pmm_alloc_page k of (phys, k1) \<Rightarrow>
        if phys = NULL then Some (False, k1)
        else load_pages data pml4 ph flags (page_vaddr + PAGE_SIZE) seg_end
               (vmm_map_page pml4 page_vaddr phys flags (fill_page data ph page_vaddr phys k1)))"

fun load_segments ::
    "u64 \<Rightarrow> addr \<Rightarrow> elf64_phdr list \<Rightarrow> u64 \<Rightarrow> 'a vfs_scheme \<Rightarrow> (u64 option \<times> 'a vfs_scheme) option" where
  "load_segments data pml4 [] highest_end k = Some (Some highest_end, k)"
| "load_segments data pml4 (ph # phs) highest_end k =
     (if ph_type ph \<noteq> PT_LOAD then load_segments data pml4 phs highest_end k
      else
        let seg_start = page_align_down (ph_vaddr ph);
            seg_end = page_align_up (ph_vaddr ph + ph_memsz ph)
        in case load_pages data pml4 ph (segment_flags ph) seg_start seg_end k of
             None \<Rightarrow> None
           | Some (False, k1) \<Rightarrow> Some (None, k1)
           | Some (True, k1) \<Rightarrow>
               load_segments data pml4 phs (if seg_end > highest_end then seg_end else highest_end) k1)"

definition elf_header_ok :: "elf64_ehdr \<Rightarrow> bool" where
  "elf_header_ok ehdr \<longleftrightarrow>
     \<not> (e_magic ehdr \<noteq> ELF_MAGIC \<or> e_class ehdr \<noteq> ELFCLASS64 \<or> e_data ehdr \<noteq> ELFDATA2LSB \<or> e_type ehdr \<noteq> ET_EXEC)"

definition program_headers :: "bytes \<Rightarrow> u64 \<Rightarrow> elf64_phdr list" where
  "program_headers m data =
     map (\<lambda>i. read_phdr m (data + e_phoff (read_ehdr m data) + 56 * of_nat i)) [0..<unat (e_phnum (read_ehdr m data))]"

text \<open>The result is the pair of \<^verbatim>\<open>*out_entry\<close> and \<^verbatim>\<open>*out_break\<close>.\<close>

definition elf_load :: "addr \<Rightarrow> addr \<Rightarrow> 'a vfs_scheme \<Rightarrow> ((u64 \<times> u64) option \<times> 'a vfs_scheme) option" where
  "elf_load file pml4 k =
     (if file = NULL \<or> v_data (vfs_at k file) = NULL then Some (None, k)
      else
        let data = v_data (vfs_at k file);
            ehdr = read_ehdr (ramdisk k) data
        in if \<not> elf_header_ok ehdr then Some (None, k)
           else case load_segments data pml4 (program_headers (ramdisk k) data) 0 k of
                  None \<Rightarrow> None
                | Some (None, k1) \<Rightarrow> Some (None, k1)
                | Some (Some highest_end, k1) \<Rightarrow> Some (Some (e_entry ehdr, highest_end), k1))"

end
