(* ===== verification/Process.thy ===== *)
theory Process
  imports Elf
begin

text \<open>
  Processes, \<^verbatim>\<open>src/kernel/src/arch/x86_64/process.c\<close>, and the context switch of \<^verbatim>\<open>switch.asm\<close>. The ring of all processes
  is linked through \<^verbatim>\<open>next\<close> and \<^verbatim>\<open>prev\<close>; the shared counters of \<^verbatim>\<open>CLONE_VM\<close> threads live in the store \<open>vm_count\<close>,
  indexed by the address of the heap block. Kernel stacks are frames of physical memory, reached at the same
  address. The addresses of the functions a new process starts at are fields of the state that nothing writes.
  A result \<open>None\<close> stands for a loop that does not end or a write through a null pointer.
\<close>

section \<open>State\<close>

record cpu =
  c_rbx :: u64
  c_rbp :: u64
  c_r12 :: u64
  c_r13 :: u64
  c_r14 :: u64
  c_r15 :: u64
  c_rflags :: u64
  c_rsp :: u64
  c_rip :: u64
  c_cs :: u64
  c_ss :: u64
  c_cr3 :: u64

text \<open>The functions installed with \<^verbatim>\<open>irq_install_handler\<close>.\<close>

datatype irq_handler = On_irq0 | On_irq1 | On_irq12

record kern = vfs +
  process_queue :: addr
  next_pid :: u64
  vm_count :: "addr \<Rightarrow> u64"
  kernel_rsp_scratch :: u64
  tss_rsp0 :: u64
  cpu :: cpu
  ticks :: u64
  tsc_hz :: u64
  fb_owner_pid :: u64
  fb_has_owner :: bool
  irq_handlers :: "nat \<Rightarrow> irq_handler option"
  kernel_thread_stub :: u64
  user_thread_stub :: u64
  fork_trampoline :: u64
  idle_thread :: u64

abbreviation process_bytes :: u64 where "process_bytes \<equiv> 1320"
abbreviation USER_STACK_TOP :: u64 where "USER_STACK_TOP \<equiv> 0x0000700000000000"
abbreviation CLONE_VM :: u64 where "CLONE_VM \<equiv> 0x100"

section \<open>Stacks\<close>

definition load_qword :: "addr \<Rightarrow> 'a machine_scheme \<Rightarrow> u64" where
  "load_qword a m = phys_mem m (frame_no a) (page_offset a div 8)"

definition store_qword :: "addr \<Rightarrow> u64 \<Rightarrow> 'a machine_scheme \<Rightarrow> 'a machine_scheme" where
  "store_qword a v m = m\<lparr>phys_mem := (phys_mem m)(frame_no a := (phys_mem m (frame_no a))(page_offset a div 8 := v))\<rparr>"

text \<open>\<^verbatim>\<open>*(--stack) = v\<close>.\<close>

definition push_qword :: "u64 \<Rightarrow> u64 \<times> 'a machine_scheme \<Rightarrow> u64 \<times> 'a machine_scheme" where
  "push_qword v = (\<lambda>(sp, m). (sp - 8, store_qword (sp - 8) v m))"

definition setup_kernel_stack :: "addr \<Rightarrow> u64 \<Rightarrow> 'a machine_scheme \<Rightarrow> u64 \<times> 'a machine_scheme" where
  "setup_kernel_stack kernel_stack_base stub m =
     fold push_qword [stub, 0x202, 0, 0, 0, 0, 0, 0] (kernel_stack_base + PAGE_SIZE, m)"

text \<open>\<^verbatim>\<open>switch_task\<close>: on entry the stack pointer is at the return address.\<close>

definition switch_task :: "addr \<Rightarrow> addr \<Rightarrow> 'a kern_scheme \<Rightarrow> 'a kern_scheme" where
  "switch_task prev nxt k =
     (let c = cpu k;
          (sp, k1) = fold push_qword [c_rflags c, c_rbx c, c_rbp c, c_r12 c, c_r13 c, c_r14 c, c_r15 c] (c_rsp c, k);
          k2 = upd_proc prev (p_rsp_update (\<lambda>_. sp)) k1;
          s = p_rsp (proc k2 nxt)
      in k2\<lparr>cpu := c\<lparr>c_cr3 := p_cr3 (proc k2 nxt),
             c_r15 := load_qword s k2, c_r14 := load_qword (s + 8) k2, c_r13 := load_qword (s + 16) k2,
             c_r12 := load_qword (s + 24) k2, c_rbp := load_qword (s + 32) k2, c_rbx := load_qword (s + 40) k2,
             c_rflags := load_qword (s + 48) k2, c_rip := load_qword (s + 56) k2, c_rsp := s + 64\<rparr>\<rparr>)"

definition enter_usermode :: "u64 \<Rightarrow> u64 \<Rightarrow> 'a kern_scheme \<Rightarrow> 'a kern_scheme" where
  "enter_usermode entry_point user_stack k =
     k\<lparr>cpu := (cpu k)\<lparr>c_ss := 0x1B, c_rsp := user_stack, c_rflags := 0x202, c_cs := 0x23, c_rip := entry_point\<rparr>\<rparr>"

text \<open>
  The strings of \<^verbatim>\<open>argv\<close> are copied downwards from the end of the page; the result has the new \<^verbatim>\<open>cur\<close> and the
  \<^verbatim>\<open>str_vaddrs\<close>, or is \<open>None\<close> when a string does not fit.
\<close>

fun push_strings ::
    "addr \<Rightarrow> u64 \<Rightarrow> u8 list list \<Rightarrow> u64 \<Rightarrow> 'a machine_scheme \<Rightarrow> (u64 \<times> u64 list) option \<times> 'a machine_scheme" where
  "push_strings base vbase [] cur m = (Some (cur, []), m)"
| "push_strings base vbase (s # ss) cur m =
     (let len = of_nat (length s) + 1 in
      if cur - vbase < len then (None, m)
      else
        let cur1 = cur - len;
            m1 = set_frame_bytes (frame_no base) (unat (cur1 - vbase)) (s @ [0]) m
        in case push_strings base vbase ss cur1 m1 of
             (None, m2) \<Rightarrow> (None, m2)
           | (Some (cur2, as), m2) \<Rightarrow> (Some (cur2, cur1 # as), m2))"

text \<open>The assignments \<^verbatim>\<open>a[0] = v0; a[1] = v1; ...\<close> to an array of 64-bit words.\<close>

fun store_qwords :: "addr \<Rightarrow> u64 list \<Rightarrow> 'a machine_scheme \<Rightarrow> 'a machine_scheme" where
  "store_qwords a [] m = m"
| "store_qwords a (v # vs) m = store_qwords (a + 8) vs (store_qword a v m)"

definition setup_user_stack_args :: "addr \<Rightarrow> u64 \<Rightarrow> u8 list list \<Rightarrow> 'a machine_scheme \<Rightarrow> u64 \<times> 'a machine_scheme" where
  "setup_user_stack_args stack_base stack_vaddr_base argv m =
     (if length argv = 0 \<or> length argv > MAX_USER_ARGS then (0, m)
      else case push_strings stack_base stack_vaddr_base argv (stack_vaddr_base + PAGE_SIZE) m of
        (None, m1) \<Rightarrow> (0, m1)
      | (Some (cur, str_vaddrs), m1) \<Rightarrow>
          let cur1 = cur AND NOT 7;
              arr_size = of_nat (length argv + 1) * 8
          in if cur1 - stack_vaddr_base < arr_size then (0, m1)
             else
               let argv_vaddr = cur1 - arr_size;
                   m2 = store_qwords (stack_base + (argv_vaddr - stack_vaddr_base)) (str_vaddrs @ [0]) m1
               in if argv_vaddr - stack_vaddr_base < 16 then (0, m2)
                  else
                    let cur2 = argv_vaddr - 16
                    in (cur2, store_qwords (stack_base + (cur2 - stack_vaddr_base)) [of_nat (length argv), argv_vaddr] m2))"

section \<open>The ring of processes\<close>

definition enqueue_process :: "addr \<Rightarrow> 'a kern_scheme \<Rightarrow> 'a kern_scheme" where
  "enqueue_process p k =
     (if process_queue k = NULL then
        upd_proc p (p_prev_update (\<lambda>_. p)) (upd_proc p (p_next_update (\<lambda>_. p)) (k\<lparr>process_queue := p\<rparr>))
      else
        let q = process_queue k;
            k1 = upd_proc p (p_prev_update (\<lambda>_. p_prev (proc k q))) k;
            k2 = upd_proc p (p_next_update (\<lambda>_. q)) k1;
            k3 = upd_proc (p_prev (proc k2 q)) (p_next_update (\<lambda>_. p)) k2
        in upd_proc q (p_prev_update (\<lambda>_. p)) k3)"

definition unlink_process :: "addr \<Rightarrow> 'a kern_scheme \<Rightarrow> 'a kern_scheme" where
  "unlink_process v k =
     (let k1 = upd_proc (p_prev (proc k v)) (p_next_update (\<lambda>_. p_next (proc k v))) k;
          k2 = upd_proc (p_next (proc k1 v)) (p_prev_update (\<lambda>_. p_prev (proc k1 v))) k1
      in if process_queue k2 = v
         then k2\<lparr>process_queue := (if p_next (proc k2 v) \<noteq> v then p_next (proc k2 v) else NULL)\<rparr>
         else k2)"

text \<open>The \<^verbatim>\<open>do ... while (p != node)\<close> loop that counts the ring.\<close>

partial_function (option) ring_count :: "addr \<Rightarrow> addr \<Rightarrow> 'a kern_scheme \<Rightarrow> nat option" where
  "ring_count node p k =
     (if p_next (proc k p) = node then Some 1
      else do { n \<leftarrow> ring_count node (p_next (proc k p)) k; Some (n + 1) })"

section \<open>Creation\<close>

definition init_scheduler :: "'a kern_scheme \<Rightarrow> 'a kern_scheme option" where
  "init_scheduler k =
     (let k1 = mlfq_init k in
      case kmalloc process_bytes k1 of (idle, k2) \<Rightarrow>
        if idle = NULL then None
        else
          let k3 = upd_proc idle (\<lambda>_. zero_process\<lparr>p_pid := 0, p_state := PROCESS_RUNNING, p_priority := 3,
                     p_ticks_executed := 0, p_entrypoint := idle_thread k2, p_cr3 := kernel_pml4 k2\<rparr>) (k2\<lparr>idle_process := idle\<rparr>)
          in case pmm_alloc_page k3 of (phys, k4) \<Rightarrow>
               let k5 = upd_proc idle (p_kernel_stack_update (\<lambda>_. phys)) k4;
                   (sp, k6) = setup_kernel_stack phys (kernel_thread_stub k5) k5;
                   k7 = upd_proc idle (p_rsp_update (\<lambda>_. sp)) k6;
                   k8 = k7\<lparr>current_process := idle, process_queue := idle\<rparr>
               in Some (upd_proc idle (\<lambda>x. x\<lparr>p_next := idle, p_prev := idle\<rparr>) k8))"

text \<open>The common end of the three ways to make a process: it enters the ring and the highest level of the scheduler.\<close>

definition start_process :: "addr \<Rightarrow> 'a kern_scheme \<Rightarrow> 'a kern_scheme" where
  "start_process p k = mlfq_enqueue p (upd_proc p (\<lambda>x. x\<lparr>p_priority := 0, p_ticks_executed := 0\<rparr>) (enqueue_process p k))"

definition create_kernel_thread :: "u64 \<Rightarrow> 'a kern_scheme \<Rightarrow> addr \<times> 'a kern_scheme" where
  "create_kernel_thread entrypoint k =
     (case kmalloc process_bytes k of (p, k1) \<Rightarrow>
        if p = NULL then (NULL, k1)
        else case pmm_alloc_page k1 of (phys, k2) \<Rightarrow>
          if phys = NULL then (NULL, kfree p k2)
          else
            let k3 = upd_proc p (\<lambda>x. x\<lparr>p_kernel_stack := phys, p_pid := next_pid k2, p_state := PROCESS_READY,
                       p_entrypoint := entrypoint, p_parent := current_process k2\<rparr>) (k2\<lparr>next_pid := next_pid k2 + 1\<rparr>);
                (sp, k4) = setup_kernel_stack phys (kernel_thread_stub k3) k3;
                k5 = upd_proc p (\<lambda>x. x\<lparr>p_rsp := sp, p_cr3 := kernel_pml4 k4\<rparr>) k4
            in (p, start_process p k5))"

text \<open>The result has \<^verbatim>\<open>*out_pml4\<close>, \<^verbatim>\<open>*out_entry\<close>, \<^verbatim>\<open>*out_user_stack_top\<close> and \<^verbatim>\<open>*out_break\<close>, or is \<open>None\<close> for -1.\<close>

definition load_elf_into_new_pagetable ::
    "u8 list \<Rightarrow> u8 list list \<Rightarrow> 'a kern_scheme \<Rightarrow> ((addr \<times> u64 \<times> u64 \<times> u64) option \<times> 'a kern_scheme) option" where
  "load_elf_into_new_pagetable path argv k = do {
     file \<leftarrow> vfs_find_node (vfs_root k) path k;
     if file = NULL \<or> v_type (vfs_at k file) \<noteq> VFS_FILE then Some (None, k)
     else case vmm_new_user_pagetable k of
       (None, k1) \<Rightarrow> Some (None, k1)
     | (Some pml4, k1) \<Rightarrow> do {
         (r, k2) \<leftarrow> elf_load file pml4 k1;
         case r of
           None \<Rightarrow> Some (None, vmm_destroy_user_pagetable (Some pml4) k2)
         | Some (entry, brk_start) \<Rightarrow>
             (case pmm_alloc_page k2 of (stack_phys, k3) \<Rightarrow>
                if stack_phys = NULL then Some (None, vmm_destroy_user_pagetable (Some pml4) k3)
                else
                  let k4 = vmm_map_page pml4 (USER_STACK_TOP - PAGE_SIZE) stack_phys
                             (PTE_PRESENT OR PTE_WRITABLE OR PTE_USER OR PTE_NX) k3
                  in case setup_user_stack_args stack_phys (USER_STACK_TOP - PAGE_SIZE) argv k4 of (initial_rsp, k5) \<Rightarrow>
                       if initial_rsp = 0 then Some (None, vmm_destroy_user_pagetable (Some pml4) k5)
                       else Some (Some (pml4, entry, initial_rsp, brk_start), k5))
       }
   }"

definition create_user_process :: "u8 list \<Rightarrow> u8 list list \<Rightarrow> 'a kern_scheme \<Rightarrow> (addr \<times> 'a kern_scheme) option" where
  "create_user_process path argv k = do {
     (r, k1) \<leftarrow> load_elf_into_new_pagetable path argv k;
     case r of
       None \<Rightarrow> Some (NULL, k1)
     | Some (pml4, entry, initial_rsp, brk_start) \<Rightarrow>
         (case kmalloc process_bytes k1 of (p, k2) \<Rightarrow>
            if p = NULL then Some (NULL, vmm_destroy_user_pagetable (Some pml4) k2)
            else
              let k3 = upd_proc p (\<lambda>_. zero_process) k2
              in case pmm_alloc_page k3 of (phys, k4) \<Rightarrow>
                   if phys = NULL then Some (NULL, vmm_destroy_user_pagetable (Some pml4) (kfree p k4))
                   else
                     let k5 = upd_proc p (\<lambda>x. x\<lparr>p_kernel_stack := phys, p_pid := next_pid k4, p_state := PROCESS_READY,
                                p_entry := entry, p_user_stack_top := initial_rsp, p_brk_start := brk_start, p_brk := brk_start,
                                p_mmap_next := MMAP_BASE, p_cr3 := pml4, p_parent := current_process k4\<rparr>)
                                (k4\<lparr>next_pid := next_pid k4 + 1\<rparr>);
                         (sp, k6) = setup_kernel_stack phys (user_thread_stub k5) k5;
                         k7 = upd_proc p (p_rsp_update (\<lambda>_. sp)) k6
                     in Some (p, start_process p k7))
   }"

text \<open>\<open>True\<close>: the process has entered the new program; \<open>False\<close>: the result -1.\<close>

definition exec_process :: "addr \<Rightarrow> u8 list \<Rightarrow> u8 list list \<Rightarrow> 'a kern_scheme \<Rightarrow> (bool \<times> 'a kern_scheme) option" where
  "exec_process p path argv k = do {
     (r, k1) \<leftarrow> load_elf_into_new_pagetable path argv k;
     case r of
       None \<Rightarrow> Some (False, k1)
     | Some (new_pml4, new_entry, new_user_stack_top, new_brk_start) \<Rightarrow>
         let k2 = vmm_destroy_user_pagetable (Some (p_cr3 (proc k1 p))) k1;
             k3 = upd_proc p (\<lambda>x. x\<lparr>p_cr3 := new_pml4, p_entry := new_entry, p_user_stack_top := new_user_stack_top,
                    p_brk_start := new_brk_start, p_brk := new_brk_start, p_mmap_next := MMAP_BASE\<rparr>) k2;
             k4 = k3\<lparr>cpu := (cpu k3)\<lparr>c_cr3 := p_cr3 (proc k3 p)\<rparr>\<rparr>
         in Some (True, enter_usermode (p_entry (proc k4 p)) (p_user_stack_top (proc k4 p)) k4)
   }"

end
