(* ===== verification/Lifecycle.thy ===== *)
theory Lifecycle
  imports Process
begin

text \<open>
  The life of a process after its creation: \<^verbatim>\<open>fork\<close> and \<^verbatim>\<open>clone\<close>, the release of its resources, the reaping of zombies, the
  scheduler proper, the timer tick and the interrupt dispatcher
  (\<^verbatim>\<open>process.c\<close>, \<^verbatim>\<open>scheduler.c\<close>, \<^verbatim>\<open>timer.c\<close>, \<^verbatim>\<open>idt.c\<close>). Interrupts are masked in \<^verbatim>\<open>schedule\<close>, so it is one step.
\<close>

section \<open>Clone\<close>

text \<open>The page table and the shared counter (\<open>NULL\<close> for a copy of its own) of the child, or \<open>None\<close>.\<close>

definition clone_space :: "addr \<Rightarrow> u64 \<Rightarrow> 'a kern_scheme \<Rightarrow> (addr \<times> addr) option \<times> 'a kern_scheme" where
  "clone_space parent flags k =
     (if flags AND CLONE_VM \<noteq> 0 then
        (if p_vm_refcount (proc k parent) = NULL then
           (case kmalloc 8 k of (rc, k1) \<Rightarrow>
              let k2 = upd_proc parent (p_vm_refcount_update (\<lambda>_. rc)) k1
              in if rc = NULL then (None, k2)
                 else (Some (p_cr3 (proc k2 parent), rc), k2\<lparr>vm_count := (vm_count k2)(rc := 1)\<rparr>))
         else (Some (p_cr3 (proc k parent), p_vm_refcount (proc k parent)), k))
      else
        (case vmm_clone_user_pagetable (p_cr3 (proc k parent)) k of
           (None, k1) \<Rightarrow> (None, k1)
         | (Some pml4, k1) \<Rightarrow> (Some (pml4, NULL), k1)))"

definition drop_space :: "addr \<times> addr \<Rightarrow> 'a kern_scheme \<Rightarrow> 'a kern_scheme" where
  "drop_space s k = (if snd s = NULL then vmm_destroy_user_pagetable (Some (fst s)) k else k)"

text \<open>One more descriptor refers to the pipe of \<open>fd\<close>.\<close>

definition share_fd :: "file_descriptor \<Rightarrow> 'a ipc_scheme \<Rightarrow> 'a ipc_scheme" where
  "share_fd fd k =
     (case fd_type fd of
        FD_PIPE_READ \<Rightarrow> upd_pipe (fd_pipe fd) (\<lambda>x. x\<lparr>pi_readers := pi_readers x + 1\<rparr>) k
      | FD_PIPE_WRITE \<Rightarrow> upd_pipe (fd_pipe fd) (\<lambda>x. x\<lparr>pi_writers := pi_writers x + 1\<rparr>) k
      | _ \<Rightarrow> k)"

definition clone_process :: "addr \<Rightarrow> trapframe \<Rightarrow> u64 \<Rightarrow> u64 \<Rightarrow> 'a kern_scheme \<Rightarrow> addr \<times> 'a kern_scheme" where
  "clone_process parent regs flags child_stack k =
     (case clone_space parent flags k of
        (None, k1) \<Rightarrow> (NULL, k1)
      | (Some (child_pml4, rc), k1) \<Rightarrow>
          (case kmalloc process_bytes k1 of (child, k2) \<Rightarrow>
             if child = NULL then (NULL, drop_space (child_pml4, rc) k2)
             else
               let k3 = upd_proc child (\<lambda>_. zero_process) k2
               in case pmm_alloc_page k3 of (phys, k4) \<Rightarrow>
                    if phys = NULL then (NULL, drop_space (child_pml4, rc) (kfree child k4))
                    else
                      let par = proc k4 parent;
                          k5 = upd_proc child (\<lambda>x. x\<lparr>p_kernel_stack := phys, p_pid := next_pid k4, p_state := PROCESS_READY,
                                 p_entry := p_entry par,
                                 p_user_stack_top := (if child_stack \<noteq> 0 then child_stack else p_user_stack_top par),
                                 p_brk_start := p_brk_start par, p_brk := p_brk par, p_mmap_next := p_mmap_next par,
                                 p_cr3 := child_pml4, p_vm_refcount := rc\<rparr>) (k4\<lparr>next_pid := next_pid k4 + 1\<rparr>);
                          k6 = (if rc \<noteq> NULL then k5\<lparr>vm_count := (vm_count k5)(rc := vm_count k5 rc + 1)\<rparr> else k5);
                          k7 = upd_proc child (\<lambda>x. x\<lparr>p_parent := parent, p_fd_table := p_fd_table (proc k6 parent)\<rparr>) k6;
                          k8 = fold (\<lambda>i s. share_fd (p_fd_table (proc s child) ! i) s) [0..<MAX_FDS] k7;
                          k9 = upd_proc child (\<lambda>x. x\<lparr>p_fork_frame := regs\<lparr>tf_rax := 0\<rparr>\<rparr>) k8;
                          k10 = (if child_stack \<noteq> 0
                                 then upd_proc child (p_fork_frame_update (\<lambda>f. f\<lparr>tf_rsp := child_stack\<rparr>)) k9 else k9);
                          (sp, k11) = setup_kernel_stack phys (fork_trampoline k10) k10;
                          k12 = upd_proc child (p_rsp_update (\<lambda>_. sp)) k11
                      in (child, start_process child k12)))"

definition fork_process :: "addr \<Rightarrow> trapframe \<Rightarrow> 'a kern_scheme \<Rightarrow> addr \<times> 'a kern_scheme" where
  "fork_process parent regs k = clone_process parent regs 0 0 k"

section \<open>Release\<close>

definition set_fd :: "addr \<Rightarrow> nat \<Rightarrow> (file_descriptor \<Rightarrow> file_descriptor) \<Rightarrow> 'a tasks_scheme \<Rightarrow> 'a tasks_scheme" where
  "set_fd p i f k = upd_proc p (\<lambda>x. x\<lparr>p_fd_table := (p_fd_table x)[i := f (p_fd_table x ! i)]\<rparr>) k"

text \<open>Closing the pipe end, if any, that a descriptor refers to.\<close>

definition drop_fd :: "file_descriptor \<Rightarrow> 'a ipc_scheme \<Rightarrow> 'a ipc_scheme option" where
  "drop_fd fd k =
     (case fd_type fd of
        FD_PIPE_READ \<Rightarrow> pipe_close_end (fd_pipe fd) True k
      | FD_PIPE_WRITE \<Rightarrow> pipe_close_end (fd_pipe fd) False k
      | _ \<Rightarrow> Some k)"

definition close_fd :: "addr \<Rightarrow> nat \<Rightarrow> 'a ipc_scheme \<Rightarrow> 'a ipc_scheme option" where
  "close_fd p i k = do {
     k1 \<leftarrow> drop_fd (p_fd_table (proc k p) ! i) k;
     Some (set_fd p i (\<lambda>fd. fd\<lparr>fd_type := FD_NONE, fd_node := NULL, fd_pipe := NULL\<rparr>) k1)
   }"

definition process_release_fds :: "addr \<Rightarrow> 'a ipc_scheme \<Rightarrow> 'a ipc_scheme option" where
  "process_release_fds p k = fold (\<lambda>i r. Option.bind r (close_fd p i)) [0..<MAX_FDS] (Some k)"

definition destroy_process_vm :: "addr \<Rightarrow> u64 \<Rightarrow> 'a kern_scheme \<Rightarrow> 'a kern_scheme" where
  "destroy_process_vm p kernel_cr3 k =
     (if p_cr3 (proc k p) = kernel_cr3 then k
      else
        let rc = p_vm_refcount (proc k p) in
        if rc \<noteq> NULL then
          let k1 = k\<lparr>vm_count := (vm_count k)(rc := vm_count k rc - 1)\<rparr>
          in if vm_count k1 rc > 0 then k1
             else vmm_destroy_user_pagetable (Some (p_cr3 (proc k1 p))) (kfree rc k1)
        else vmm_destroy_user_pagetable (Some (p_cr3 (proc k p))) k)"

text \<open>What \<^verbatim>\<open>reap_zombies\<close> and \<^verbatim>\<open>wait_reap_child\<close> do to a dead process.\<close>

definition reap :: "addr \<Rightarrow> u64 \<Rightarrow> 'a kern_scheme \<Rightarrow> 'a kern_scheme" where
  "reap v kernel_cr3 k =
     (let k1 = unlink_process v k;
          k2 = pmm_free_page (p_kernel_stack (proc k1 v)) k1
      in kfree v (destroy_process_vm v kernel_cr3 k2))"

fun reap_loop :: "nat \<Rightarrow> u64 \<Rightarrow> addr \<Rightarrow> 'a kern_scheme \<Rightarrow> 'a kern_scheme" where
  "reap_loop 0 kernel_cr3 node k = k"
| "reap_loop (Suc left) kernel_cr3 node k =
     (let victim = node; nxt = p_next (proc k node) in
      if p_state (proc k victim) \<noteq> PROCESS_DEAD \<or> victim = current_process k \<or> p_parent (proc k victim) \<noteq> NULL
      then reap_loop left kernel_cr3 nxt k
      else
        let k1 = reap victim kernel_cr3 k
        in if process_queue k1 = NULL then k1 else reap_loop left kernel_cr3 nxt k1)"

definition reap_zombies :: "'a kern_scheme \<Rightarrow> 'a kern_scheme option" where
  "reap_zombies k =
     (if process_queue k = NULL then Some k
      else do {
        count \<leftarrow> ring_count (process_queue k) (process_queue k) k;
        Some (reap_loop count (kernel_pml4 k) (process_queue k) k)
      })"

text \<open>The search of \<^verbatim>\<open>wait_reap_child\<close>: whether a child was seen, and the dead child found (\<open>NULL\<close> if there is none).\<close>

fun find_dead_child :: "nat \<Rightarrow> addr \<Rightarrow> addr \<Rightarrow> int \<Rightarrow> bool \<Rightarrow> 'a kern_scheme \<Rightarrow> bool \<times> addr" where
  "find_dead_child 0 node parent pid has_children k = (has_children, NULL)"
| "find_dead_child (Suc left) node parent pid has_children k =
     (let cand = node; nxt = p_next (proc k node) in
      if p_parent (proc k cand) \<noteq> parent then find_dead_child left nxt parent pid has_children k
      else if p_state (proc k cand) = PROCESS_DEAD \<and> (pid \<le> 0 \<or> word_of_int pid = p_pid (proc k cand)) then (True, cand)
      else find_dead_child left nxt parent pid True k)"

text \<open>The result, and the new value of \<^verbatim>\<open>*status_out\<close> when a child was reaped.\<close>

definition wait_reap_child :: "addr \<Rightarrow> int \<Rightarrow> 'a kern_scheme \<Rightarrow> (int \<times> s32 option \<times> 'a kern_scheme) option" where
  "wait_reap_child parent pid k =
     (if process_queue k = NULL then Some (-1, None, k)
      else do {
        count \<leftarrow> ring_count (process_queue k) (process_queue k) k;
        case find_dead_child count (process_queue k) parent pid False k of (has_children, found) \<Rightarrow>
          if found = NULL then Some (if has_children then 0 else -1, None, k)
          else
            let found_pid = p_pid (proc k found)
            in Some (sint (ucast found_pid :: s32), Some (p_exit_code (proc k found)), reap found (kernel_pml4 k) k)
      })"

section \<open>Scheduling\<close>

fun wake_loop :: "nat \<Rightarrow> addr \<Rightarrow> addr \<Rightarrow> 'a kern_scheme \<Rightarrow> 'a kern_scheme" where
  "wake_loop 0 self node k = k"
| "wake_loop (Suc left) self node k =
     (let cand = node; nxt = p_next (proc k node) in
      if cand \<noteq> self \<and> p_state (proc k cand) = PROCESS_BLOCKED
      then wake_loop left self nxt (mlfq_enqueue cand k)
      else wake_loop left self nxt k)"

definition wake_blocked_processes :: "addr \<Rightarrow> 'a kern_scheme \<Rightarrow> 'a kern_scheme option" where
  "wake_blocked_processes self k =
     (if process_queue k = NULL then Some k
      else do {
        count \<leftarrow> ring_count (process_queue k) (process_queue k) k;
        Some (wake_loop count self (process_queue k) k)
      })"

text \<open>The switch to \<open>nxt\<close> at the end of \<^verbatim>\<open>schedule_locked\<close>.\<close>

definition dispatch :: "addr \<Rightarrow> addr \<Rightarrow> 'a kern_scheme \<Rightarrow> 'a kern_scheme" where
  "dispatch prev nxt k =
     (let k1 = upd_proc nxt (p_state_update (\<lambda>_. PROCESS_RUNNING)) (k\<lparr>current_process := nxt\<rparr>);
          top = p_kernel_stack (proc k1 nxt) + PAGE_SIZE;
          k2 = (if p_kernel_stack (proc k1 nxt) \<noteq> NULL then k1\<lparr>kernel_rsp_scratch := top, tss_rsp0 := top\<rparr> else k1)
      in switch_task prev nxt k2)"

definition schedule_locked :: "'a kern_scheme \<Rightarrow> 'a kern_scheme option" where
  "schedule_locked k =
     (if current_process k = NULL then Some k
      else do {
        k1 \<leftarrow> reap_zombies k;
        let prev = current_process k1;
        k2 \<leftarrow> wake_blocked_processes prev k1;
        let k3 = (if p_state (proc k2 prev) = PROCESS_RUNNING \<and> prev \<noteq> idle_process k2 then mlfq_enqueue prev k2 else k2);
        case mlfq_pick_next k3 of (picked, k4) \<Rightarrow>
          let nxt = (if picked = NULL then idle_process k4 else picked)
          in Some (if prev = nxt then k4 else dispatch prev nxt k4)
      })"

definition schedule :: "'a kern_scheme \<Rightarrow> 'a kern_scheme option" where
  "schedule k = schedule_locked k"

definition kernel_thread_exit :: "'a kern_scheme \<Rightarrow> 'a kern_scheme option" where
  "kernel_thread_exit k =
     schedule (upd_proc (current_process k) (\<lambda>x. x\<lparr>p_exit_code := 0, p_state := PROCESS_DEAD\<rparr>) k)"

definition mlfq_on_tick :: "'a kern_scheme \<Rightarrow> 'a kern_scheme option" where
  "mlfq_on_tick k =
     (let k1 = k\<lparr>global_ticks := global_ticks k + 1\<rparr> in
      if global_ticks k1 \<ge> PRIORITY_BOOST_INTERVAL then do {
        k2 \<leftarrow> mlfq_boost_all (k1\<lparr>global_ticks := 0\<rparr>);
        let k3 = (if current_process k2 \<noteq> NULL \<and> current_process k2 \<noteq> idle_process k2
                  then upd_proc (current_process k2) (\<lambda>x. x\<lparr>p_priority := 0, p_ticks_executed := 0\<rparr>) k2 else k2);
        schedule k3
      }
      else if current_process k1 = NULL \<or> p_state (proc k1 (current_process k1)) \<noteq> PROCESS_RUNNING then Some k1
      else
        let c = current_process k1;
            k2 = upd_proc c (\<lambda>x. x\<lparr>p_ticks_executed := p_ticks_executed x + 1\<rparr>) k1
        in if p_ticks_executed (proc k2 c) \<ge> q_quantum (mlfq k2 ! unat (p_priority (proc k2 c))) then
             let k3 = (if unat (p_priority (proc k2 c)) < NUM_QUEUES - 1
                       then upd_proc c (\<lambda>x. x\<lparr>p_priority := p_priority x + 1\<rparr>) k2 else k2)
             in schedule (upd_proc c (\<lambda>x. x\<lparr>p_ticks_executed := 0\<rparr>) k3)
           else Some k2)"

definition on_irq0 :: "'a kern_scheme \<Rightarrow> 'a kern_scheme option" where
  "on_irq0 k = mlfq_on_tick (k\<lparr>ticks := ticks k + 1\<rparr>)"

section \<open>Interrupts\<close>

abbreviation IRQ_COUNT :: nat where "IRQ_COUNT \<equiv> 16"

definition irq_install_handler :: "nat \<Rightarrow> irq_handler \<Rightarrow> 'a kern_scheme \<Rightarrow> 'a kern_scheme" where
  "irq_install_handler irq h k = k\<lparr>irq_handlers := (irq_handlers k)(irq := Some h)\<rparr>"

definition irq_uninstall_handler :: "nat \<Rightarrow> 'a kern_scheme \<Rightarrow> 'a kern_scheme" where
  "irq_uninstall_handler irq k = k\<lparr>irq_handlers := (irq_handlers k)(irq := None)\<rparr>"

definition fbmap_release_owner :: "u64 \<Rightarrow> 'a kern_scheme \<Rightarrow> 'a kern_scheme" where
  "fbmap_release_owner pid k = (if fb_has_owner k \<and> fb_owner_pid k = pid then k\<lparr>fb_has_owner := False\<rparr> else k)"

text \<open>The end of a process, in \<^verbatim>\<open>SYS_exit\<close> and after a fatal exception.\<close>

definition exit_current :: "s32 \<Rightarrow> 'a kern_scheme \<Rightarrow> 'a kern_scheme option" where
  "exit_current code k = do {
     k1 \<leftarrow> process_release_fds (current_process k) k;
     let k2 = fbmap_release_owner (p_pid (proc k1 (current_process k1))) k1;
     schedule (upd_proc (current_process k2) (\<lambda>x. x\<lparr>p_exit_code := code, p_state := PROCESS_DEAD\<rparr>) k2)
   }"

text \<open>
  How \<^verbatim>\<open>isr_handler\<close> ends: it returns, it unwinds a copy from or to user memory, it has switched to another process
  for good, or it halts the machine.
\<close>

datatype isr_end = Isr_return | Isr_unwind | Isr_switched | Isr_panic

abbreviation PF_ERR_WRITE :: u64 where "PF_ERR_WRITE \<equiv> 2"

definition isr_exception :: "u64 \<Rightarrow> 'a kern_scheme \<Rightarrow> (isr_end \<times> 'a kern_scheme) option" where
  "isr_exception cs k =
     (if current_process k \<noteq> NULL \<and> cs AND 3 = 3 then do {
        k1 \<leftarrow> exit_current (- 1) k;
        Some (if current_process k1 = current_process k then Isr_panic else Isr_switched, k1)
      } else Some (Isr_panic, k))"

text \<open>\<open>data\<close> is the byte a handler reads from the data port of the PS/2 controller.\<close>

definition isr_irq :: "nat \<Rightarrow> u8 \<Rightarrow> 'a kern_scheme \<Rightarrow> (isr_end \<times> 'a kern_scheme) option" where
  "isr_irq irq data k =
     (if irq < IRQ_COUNT then
        (case irq_handlers k irq of
           None \<Rightarrow> Some (Isr_return, k)
         | Some On_irq0 \<Rightarrow> map_option (Pair Isr_return) (on_irq0 k)
         | Some On_irq1 \<Rightarrow> Some (Isr_return, on_irq1 data k)
         | Some On_irq12 \<Rightarrow> Some (Isr_return, on_irq12 data k))
      else Some (Isr_return, k))"

definition isr_handler :: "nat \<Rightarrow> u64 \<Rightarrow> u64 \<Rightarrow> u64 \<Rightarrow> bool \<Rightarrow> u8 \<Rightarrow> 'a kern_scheme \<Rightarrow> (isr_end \<times> 'a kern_scheme) option" where
  "isr_handler int_no err_code cs cr2 user_copy_in_flight data k =
     (let (resolved, k1) =
        (if int_no = 14 \<and> err_code AND PF_ERR_WRITE \<noteq> 0 \<and> current_process k \<noteq> NULL
         then vmm_handle_cow_fault (p_cr3 (proc k (current_process k))) cr2 k else (False, k))
      in if resolved then Some (Isr_return, k1)
         else if (int_no = 14 \<or> int_no = 13) \<and> user_copy_in_flight then Some (Isr_unwind, k1)
         else if int_no < 32 then isr_exception cs k1
         else isr_irq (int_no - 32) data k1)"

end
