(* ===== verification/Syscall.thy ===== *)
theory Syscall
  imports Lifecycle
begin

text \<open>
  The system calls, \<^verbatim>\<open>src/kernel/src/arch/x86_64/syscall.c\<close>: one definition per case of \<^verbatim>\<open>syscall_handler_c\<close>, and the dispatcher.
  A call returns a value in \<^verbatim>\<open>rax\<close>; or it blocks, and the state is the one just before \<^verbatim>\<open>schedule\<close>; or the process has
  entered a new program; or it is gone; or the kernel itself has faulted on a user pointer it follows without
  \<^verbatim>\<open>copy_from_user\<close> or \<^verbatim>\<open>copy_to_user\<close>, which halts the machine. A path is read to its end before it is looked up.
\<close>

section \<open>Frames and results\<close>

record syscall_frame =
  f_rax :: u64
  f_r9 :: u64
  f_r8 :: u64
  f_r10 :: u64
  f_rdx :: u64
  f_rsi :: u64
  f_rdi :: u64
  f_user_rsp :: u64
  f_user_rflags :: u64
  f_user_rip :: u64
  f_r15 :: u64
  f_r14 :: u64
  f_r13 :: u64
  f_r12 :: u64
  f_rbp :: u64
  f_rbx :: u64

record framebuffer =
  fb_base_address :: addr
  fb_buffer_size :: u64
  fb_width :: u32
  fb_height :: u32
  fb_pixels_per_scan_line :: u32

record sys = kern +
  framebuffer :: framebuffer

datatype sys_end = Sys_ret u64 | Sys_block nat | Sys_exec | Sys_gone | Sys_panic

abbreviation ENOENT :: u64 where "ENOENT \<equiv> 2"
abbreviation EBADF :: u64 where "EBADF \<equiv> 9"
abbreviation ECHILD :: u64 where "ECHILD \<equiv> 10"
abbreviation ENOMEM :: u64 where "ENOMEM \<equiv> 12"
abbreviation EFAULT :: u64 where "EFAULT \<equiv> 14"
abbreviation EBUSY :: u64 where "EBUSY \<equiv> 16"
abbreviation ENOTDIR :: u64 where "ENOTDIR \<equiv> 20"
abbreviation EINVAL :: u64 where "EINVAL \<equiv> 22"
abbreviation EMFILE :: u64 where "EMFILE \<equiv> 24"
abbreviation ENOSYS :: u64 where "ENOSYS \<equiv> 38"

abbreviation errno :: "u64 \<Rightarrow> sys_end" where "errno e \<equiv> Sys_ret (- e)"

text \<open>The page table and the descriptors of the running process, and the conversion \<^verbatim>\<open>(int)x\<close>.\<close>

abbreviation cur_space :: "'a tasks_scheme \<Rightarrow> addr" where "cur_space k \<equiv> p_cr3 (proc k (current_process k))"
abbreviation cur_fd :: "nat \<Rightarrow> 'a tasks_scheme \<Rightarrow> file_descriptor" where
  "cur_fd i k \<equiv> p_fd_table (proc k (current_process k)) ! i"

definition c_int :: "u64 \<Rightarrow> int" where
  "c_int w = sint (ucast w :: s32)"

section \<open>User memory\<close>

text \<open>The bytes up to the first one that is not mapped, and the strings the kernel reads through a user pointer.\<close>

fun user_prefix :: "addr \<Rightarrow> u64 \<Rightarrow> nat \<Rightarrow> 'a machine_scheme \<Rightarrow> u8 list" where
  "user_prefix r va 0 m = []"
| "user_prefix r va (Suc n) m = (case user_load r va m of None \<Rightarrow> [] | Some b \<Rightarrow> b # user_prefix r (va + 1) n m)"

fun user_chars :: "addr \<Rightarrow> u64 \<Rightarrow> nat \<Rightarrow> 'a machine_scheme \<Rightarrow> u8 list option" where
  "user_chars r va 0 m = Some []"
| "user_chars r va (Suc n) m =
     (case user_load r va m of
        None \<Rightarrow> None
      | Some b \<Rightarrow> if b = 0 then Some [] else map_option (Cons b) (user_chars r (va + 1) n m))"

partial_function (option) user_string :: "addr \<Rightarrow> u64 \<Rightarrow> 'a machine_scheme \<Rightarrow> u8 list option option" where
  "user_string r va m =
     (case user_load r va m of
        None \<Rightarrow> Some None
      | Some b \<Rightarrow> if b = 0 then Some (Some []) else do { s \<leftarrow> user_string r (va + 1) m; Some (map_option (Cons b) s) })"

text \<open>\<^verbatim>\<open>vfs_find_node(vfs_root, path)\<close> on a user pointer; a null path is treated like an empty one.\<close>

definition find_user_path :: "u64 \<Rightarrow> 'a vfs_scheme \<Rightarrow> addr option option" where
  "find_user_path ptr k = do {
     s \<leftarrow> if ptr = NULL then Some (Some []) else user_string (cur_space k) ptr k;
     case s of
       None \<Rightarrow> Some None
     | Some path \<Rightarrow> map_option Some (vfs_find_node (vfs_root k) path k)
   }"

definition le_bytes :: "nat \<Rightarrow> u64 \<Rightarrow> u8 list" where
  "le_bytes n w = map (\<lambda>i. byte_of i w) [0..<n]"

text \<open>The end of a read whose bytes were stored through the user pointer.\<close>

definition deliver :: "u64 \<Rightarrow> u8 list \<times> io \<times> 'a tasks_scheme \<Rightarrow> sys_end \<times> 'a tasks_scheme" where
  "deliver buf = (\<lambda>(bs, r, k).
     case copy_to_user (cur_space k) buf bs k of
       (False, k1) \<Rightarrow> (Sys_panic, k1)
     | (True, k1) \<Rightarrow> (case r of IoDone \<Rightarrow> Sys_ret (of_nat (length bs)) | IoBlock \<Rightarrow> Sys_block (length bs), k1))"

text \<open>\<^verbatim>\<open>pipe_write\<close> from a user buffer: a byte that is not mapped is a fault when the loop comes to it.\<close>

definition write_pipe :: "addr \<Rightarrow> u64 \<Rightarrow> nat \<Rightarrow> 'a ipc_scheme \<Rightarrow> sys_end \<times> 'a ipc_scheme" where
  "write_pipe p buf n k =
     (let bs = user_prefix (cur_space k) buf n k in
      case pipe_write p (bs @ (if length bs < n then [0] else [])) k of (w, e, k1) \<Rightarrow>
        (if w > length bs then Sys_panic
         else case e of
           WDone \<Rightarrow> Sys_ret (of_nat w)
         | WBlock \<Rightarrow> Sys_block w
         | WBroken \<Rightarrow> Sys_ret (if w > 0 then of_nat w else - 1), k1))"

section \<open>Files and pipes\<close>

definition free_fd :: "nat \<Rightarrow> 'a tasks_scheme \<Rightarrow> nat option" where
  "free_fd from k = find (\<lambda>i. fd_type (cur_fd i k) = FD_NONE) [from..<MAX_FDS]"

definition sys_read_file :: "nat \<Rightarrow> u64 \<Rightarrow> u64 \<Rightarrow> 'a vfs_scheme \<Rightarrow> sys_end \<times> 'a vfs_scheme" where
  "sys_read_file i buf count k =
     (let fd = cur_fd i k;
          node = vfs_at k (fd_node fd);
          n0 = ucast count :: u32;
          bytes_to_read = (if fd_offset fd + n0 > v_size node then v_size node - fd_offset fd else n0)
      in if bytes_to_read > 0 then
           (case copy_to_user (cur_space k) buf
                   (bytes_from (v_data node + ucast (fd_offset fd)) (unat bytes_to_read) (ramdisk k)) k of
              (False, k1) \<Rightarrow> (errno EFAULT, k1)
            | (True, k1) \<Rightarrow> (Sys_ret (ucast bytes_to_read),
                set_fd (current_process k1) i (\<lambda>fd. fd\<lparr>fd_offset := fd_offset fd + bytes_to_read\<rparr>) k1))
         else (Sys_ret (ucast bytes_to_read), k))"

definition sys_read :: "syscall_frame \<Rightarrow> 'a vfs_scheme \<Rightarrow> sys_end \<times> 'a vfs_scheme" where
  "sys_read f k =
     (if f_rdi f = 0 \<and> fd_type (cur_fd 0 k) = FD_PIPE_READ then
        deliver (f_rsi f) (pipe_read (fd_pipe (cur_fd 0 k)) (nat (c_int (f_rdx f))) k)
      else if f_rdi f = 0 then deliver (f_rsi f) (keyboard_read (nat (c_int (f_rdx f))) k)
      else if f_rdi f \<ge> 3 \<and> f_rdi f < of_nat MAX_FDS then
        let fd = cur_fd (unat (f_rdi f)) k in
        if fd_type fd = FD_PIPE_READ then deliver (f_rsi f) (pipe_read (fd_pipe fd) (nat (c_int (f_rdx f))) k)
        else if fd_type fd = FD_VFS \<and> v_type (vfs_at k (fd_node fd)) = VFS_FILE
        then sys_read_file (unat (f_rdi f)) (f_rsi f) (f_rdx f) k
        else (errno EBADF, k)
      else (errno EBADF, k))"

definition sys_write :: "syscall_frame \<Rightarrow> 'a vfs_scheme \<Rightarrow> sys_end \<times> 'a vfs_scheme" where
  "sys_write f k =
     (if f_rdi f = 1 \<and> fd_type (cur_fd 1 k) = FD_PIPE_WRITE then
        write_pipe (fd_pipe (cur_fd 1 k)) (f_rsi f) (nat (c_int (f_rdx f))) k
      else if f_rdi f = 1 then
        let bs = user_prefix (cur_space k) (f_rsi f) (unat (f_rdx f)) k
        in (if length bs < unat (f_rdx f) then Sys_panic else Sys_ret (f_rdx f), k\<lparr>echo := echo k @ bs\<rparr>)
      else if f_rdi f \<ge> 3 \<and> f_rdi f < of_nat MAX_FDS \<and> fd_type (cur_fd (unat (f_rdi f)) k) = FD_PIPE_WRITE then
        write_pipe (fd_pipe (cur_fd (unat (f_rdi f)) k)) (f_rsi f) (nat (c_int (f_rdx f))) k
      else (errno EBADF, k))"

definition sys_open :: "syscall_frame \<Rightarrow> 'a vfs_scheme \<Rightarrow> (sys_end \<times> 'a vfs_scheme) option" where
  "sys_open f k = do {
     r \<leftarrow> find_user_path (f_rdi f) k;
     Some (case r of
       None \<Rightarrow> (Sys_panic, k)
     | Some file \<Rightarrow>
         if file = NULL \<or> v_type (vfs_at k file) \<noteq> VFS_FILE then (errno ENOENT, k)
         else case free_fd 3 k of
                None \<Rightarrow> (errno EMFILE, k)
              | Some i \<Rightarrow> (Sys_ret (of_nat i), set_fd (current_process k) i
                  (\<lambda>fd. fd\<lparr>fd_type := FD_VFS, fd_node := file, fd_offset := 0, fd_flags := ucast (f_rsi f)\<rparr>) k))
   }"

definition sys_close :: "syscall_frame \<Rightarrow> 'a ipc_scheme \<Rightarrow> (sys_end \<times> 'a ipc_scheme) option" where
  "sys_close f k =
     (if f_rdi f \<ge> 3 \<and> f_rdi f < of_nat MAX_FDS
      then map_option (Pair (Sys_ret 0)) (close_fd (current_process k) (unat (f_rdi f)) k)
      else Some (errno EBADF, k))"

definition sys_pipe :: "syscall_frame \<Rightarrow> 'a ipc_scheme \<Rightarrow> (sys_end \<times> 'a ipc_scheme) option" where
  "sys_pipe f k =
     (case free_fd 3 k of
        None \<Rightarrow> Some (errno EMFILE, k)
      | Some read_fd \<Rightarrow>
          (case free_fd (read_fd + 1) k of
             None \<Rightarrow> Some (errno EMFILE, k)
           | Some write_fd \<Rightarrow>
               (case pipe_create k of (p, k1) \<Rightarrow>
                  if p = NULL then Some (errno ENOMEM, k1)
                  else
                    let c = current_process k1;
                        k2 = set_fd c read_fd (\<lambda>fd. fd\<lparr>fd_type := FD_PIPE_READ, fd_pipe := p\<rparr>) k1;
                        k3 = set_fd c write_fd (\<lambda>fd. fd\<lparr>fd_type := FD_PIPE_WRITE, fd_pipe := p\<rparr>) k2;
                        fds = le_bytes 4 (of_nat read_fd) @ le_bytes 4 (of_nat write_fd)
                    in case copy_to_user (cur_space k3) (f_rdi f) fds k3 of
                         (True, k4) \<Rightarrow> Some (Sys_ret 0, k4)
                       | (False, k4) \<Rightarrow> do {
                           k5 \<leftarrow> pipe_close_end p True k4;
                           k6 \<leftarrow> pipe_close_end p False k5;
                           let k7 = set_fd c read_fd (\<lambda>fd. fd\<lparr>fd_type := FD_NONE, fd_pipe := NULL\<rparr>) k6;
                           Some (errno EFAULT, set_fd c write_fd (\<lambda>fd. fd\<lparr>fd_type := FD_NONE, fd_pipe := NULL\<rparr>) k7)
                         })))"

definition sys_dup :: "syscall_frame \<Rightarrow> 'a ipc_scheme \<Rightarrow> sys_end \<times> 'a ipc_scheme" where
  "sys_dup f k =
     (let oldfd = c_int (f_rdi f) in
      if oldfd < 0 \<or> oldfd \<ge> int MAX_FDS \<or> fd_type (cur_fd (nat oldfd) k) = FD_NONE then (errno EBADF, k)
      else case free_fd 3 k of
             None \<Rightarrow> (errno EMFILE, k)
           | Some newfd \<Rightarrow>
               let src = cur_fd (nat oldfd) k;
                   k1 = set_fd (current_process k) newfd (\<lambda>_. src) k
               in (Sys_ret (of_nat newfd), share_fd src k1))"

definition sys_dup2 :: "syscall_frame \<Rightarrow> 'a ipc_scheme \<Rightarrow> (sys_end \<times> 'a ipc_scheme) option" where
  "sys_dup2 f k =
     (let oldfd = c_int (f_rdi f); newfd = c_int (f_rsi f) in
      if oldfd < 0 \<or> oldfd \<ge> int MAX_FDS \<or> newfd < 0 \<or> newfd \<ge> int MAX_FDS \<or> fd_type (cur_fd (nat oldfd) k) = FD_NONE
      then Some (errno EBADF, k)
      else if newfd = oldfd then Some (Sys_ret (of_int newfd), k)
      else do {
        k1 \<leftarrow> drop_fd (cur_fd (nat newfd) k) k;
        let src = cur_fd (nat oldfd) k1;
        let k2 = set_fd (current_process k1) (nat newfd) (\<lambda>_. src) k1;
        Some (Sys_ret (of_int newfd), share_fd src k2)
      })"

text \<open>The names of the children of a directory, as many as fit into the buffer.\<close>

partial_function (option) list_children :: "addr \<Rightarrow> nat \<Rightarrow> u8 list \<Rightarrow> 'a vfs_scheme \<Rightarrow> u8 list option" where
  "list_children child bufsize kbuf k =
     (if child = NULL then Some kbuf
      else
        let x = vfs_at k child;
            entry = v_name x @ (if v_type x = VFS_DIRECTORY then [slash] else []) @ [10]
        in if length kbuf + length entry > bufsize then Some kbuf
           else list_children (v_next x) bufsize (kbuf @ entry) k)"

definition sys_readdir :: "syscall_frame \<Rightarrow> 'a vfs_scheme \<Rightarrow> (sys_end \<times> 'a vfs_scheme) option" where
  "sys_readdir f k = do {
     r \<leftarrow> find_user_path (f_rdi f) k;
     case r of
       None \<Rightarrow> Some (Sys_panic, k)
     | Some dir \<Rightarrow>
         if dir = NULL then Some (errno ENOENT, k)
         else if v_type (vfs_at k dir) \<noteq> VFS_DIRECTORY then Some (errno ENOTDIR, k)
         else do {
           kbuf \<leftarrow> list_children (v_children (vfs_at k dir)) (min (unat (ucast (f_rdx f) :: u32)) 512) [] k;
           if kbuf \<noteq> [] then
             (case copy_to_user (cur_space k) (f_rsi f) kbuf k of
                (False, k1) \<Rightarrow> Some (errno EFAULT, k1)
              | (True, k1) \<Rightarrow> Some (Sys_ret (of_nat (length kbuf)), k1))
           else Some (Sys_ret 0, k)
         }
   }"

definition packet_bytes_of :: "mouse_packet \<Rightarrow> u8 list" where
  "packet_bytes_of x = le_bytes 2 (ucast (mp_dx x)) @ le_bytes 2 (ucast (mp_dy x)) @ [mp_buttons x]"

text \<open>A packet takes six bytes in the array; the padding byte is left alone.\<close>

fun store_packets :: "addr \<Rightarrow> u64 \<Rightarrow> mouse_packet list \<Rightarrow> 'a machine_scheme \<Rightarrow> bool \<times> 'a machine_scheme" where
  "store_packets r buf [] m = (True, m)"
| "store_packets r buf (x # xs) m =
     (case copy_to_user r buf (packet_bytes_of x) m of
        (True, m1) \<Rightarrow> store_packets r (buf + 6) xs m1
      | (False, m1) \<Rightarrow> (False, m1))"

definition sys_mouse_read :: "syscall_frame \<Rightarrow> 'a input_scheme \<Rightarrow> sys_end \<times> 'a input_scheme" where
  "sys_mouse_read f k =
     (case mouse_read (nat (c_int (f_rsi f))) False (c_int (f_rdx f) \<noteq> 0) k of (ps, r, k1) \<Rightarrow>
        case store_packets (cur_space k1) (f_rdi f) ps k1 of
          (False, k2) \<Rightarrow> (Sys_panic, k2)
        | (True, k2) \<Rightarrow> (case r of IoDone \<Rightarrow> Sys_ret (of_nat (length ps)) | IoBlock \<Rightarrow> Sys_block (length ps), k2))"

section \<open>Memory\<close>

text \<open>Fresh zeroed pages from \<open>va\<close> on; \<open>False\<close> when a frame could not be allocated.\<close>

fun map_zero_pages :: "nat \<Rightarrow> addr \<Rightarrow> u64 \<Rightarrow> u64 \<Rightarrow> 'a machine_scheme \<Rightarrow> bool \<times> 'a machine_scheme" where
  "map_zero_pages 0 pml4 va flags m = (True, m)"
| "map_zero_pages (Suc left) pml4 va flags m =
     (case pmm_alloc_page m of (phys, m1) \<Rightarrow>
        if phys = NULL then (False, m1)
        else map_zero_pages left pml4 (va + PAGE_SIZE) flags (vmm_map_page pml4 va phys flags (zero_page phys m1)))"

abbreviation PROT_WRITE :: u64 where "PROT_WRITE \<equiv> 2"
abbreviation PROT_EXEC :: u64 where "PROT_EXEC \<equiv> 4"
abbreviation MAP_SHARED :: u64 where "MAP_SHARED \<equiv> 1"
abbreviation MAP_PRIVATE :: u64 where "MAP_PRIVATE \<equiv> 2"
abbreviation MAP_ANONYMOUS :: u64 where "MAP_ANONYMOUS \<equiv> 0x20"

definition mmap_pte_flags :: "u64 \<Rightarrow> u64 \<Rightarrow> u64" where
  "mmap_pte_flags prot flags =
     (let e = PTE_PRESENT OR PTE_USER;
          e1 = (if prot AND PROT_WRITE \<noteq> 0 then e OR PTE_WRITABLE else e);
          e2 = (if prot AND PROT_EXEC = 0 then e1 OR PTE_NX else e1)
      in if flags AND MAP_SHARED \<noteq> 0 then e2 OR PTE_SHARED else e2)"

definition sys_mmap :: "syscall_frame \<Rightarrow> 'a tasks_scheme \<Rightarrow> sys_end \<times> 'a tasks_scheme" where
  "sys_mmap f k =
     (let len = f_rsi f; prot = f_rdx f; flags = f_r10 f in
      if len = 0 \<or> f_r8 f \<noteq> - 1 \<or> flags AND MAP_ANONYMOUS = 0 \<or> flags AND (MAP_SHARED OR MAP_PRIVATE) = 0
      then (errno EINVAL, k)
      else
        let npages = (len + PAGE_SIZE - 1) div PAGE_SIZE;
            base = p_mmap_next (proc k (current_process k))
        in case map_zero_pages (unat npages) (cur_space k) base (mmap_pte_flags prot flags) k of
             (False, k1) \<Rightarrow> (errno ENOMEM, k1)
           | (True, k1) \<Rightarrow> (Sys_ret base,
               upd_proc (current_process k1) (p_mmap_next_update (\<lambda>_. base + npages * PAGE_SIZE)) k1))"

definition sys_munmap :: "syscall_frame \<Rightarrow> 'a tasks_scheme \<Rightarrow> sys_end \<times> 'a tasks_scheme" where
  "sys_munmap f k =
     (let a = f_rdi f; len = f_rsi f in
      if len = 0 \<or> a mod PAGE_SIZE \<noteq> 0 \<or> a < MMAP_BASE then (errno EINVAL, k)
      else
        let npages = (len + PAGE_SIZE - 1) div PAGE_SIZE
        in (Sys_ret 0, fold (\<lambda>i. vmm_unmap_page (cur_space k) (a + of_nat i * PAGE_SIZE)) [0..<unat npages] k))"

text \<open>Both ends of the range are multiples of the page size.\<close>

definition sys_brk :: "syscall_frame \<Rightarrow> 'a tasks_scheme \<Rightarrow> sys_end \<times> 'a tasks_scheme" where
  "sys_brk f k =
     (let requested = f_rdi f; c = current_process k; brk = p_brk (proc k c) in
      if requested = 0 then (Sys_ret brk, k)
      else if requested < p_brk_start (proc k c) then (Sys_ret brk, k)
      else
        let old_top = page_align_up brk;
            new_top = page_align_up requested;
            (ok, k1) = (if new_top > old_top
              then map_zero_pages (unat (new_top - old_top) div page_bytes) (cur_space k) old_top
                     (PTE_PRESENT OR PTE_WRITABLE OR PTE_USER OR PTE_NX) k
              else (True, k))
        in if ok then (Sys_ret requested, upd_proc c (p_brk_update (\<lambda>_. requested)) k1)
           else (Sys_ret (p_brk (proc k1 c)), k1))"

definition sys_fbmap :: "syscall_frame \<Rightarrow> 'a sys_scheme \<Rightarrow> sys_end \<times> 'a sys_scheme" where
  "sys_fbmap f k =
     (let c = current_process k; pid = p_pid (proc k c) in
      if fb_has_owner k \<and> fb_owner_pid k \<noteq> pid then (errno EBUSY, k)
      else
        let k1 = k\<lparr>fb_owner_pid := pid, fb_has_owner := True\<rparr>;
            fb = framebuffer k1;
            phys_base = fb_base_address fb;
            npages = (fb_buffer_size fb + PAGE_SIZE - 1) div PAGE_SIZE;
            base = p_mmap_next (proc k1 c);
            pml4 = cur_space k1;
            pte_flags = PTE_PRESENT OR PTE_WRITABLE OR PTE_USER OR PTE_NX OR PTE_NOPMM OR PTE_PWT;
            k2 = fold (\<lambda>i. vmm_map_page pml4 (base + of_nat i * PAGE_SIZE) (phys_base + of_nat i * PAGE_SIZE) pte_flags)
                   [0..<unat npages] k1;
            k3 = upd_proc c (p_mmap_next_update (\<lambda>_. base + npages * PAGE_SIZE)) k2;
            info = le_bytes 4 (ucast (fb_width fb)) @ le_bytes 4 (ucast (fb_height fb)) @
              le_bytes 4 (ucast (fb_pixels_per_scan_line fb * 4)) @ le_bytes 4 32
        in case copy_to_user pml4 (f_rdi f) info k3 of
             (False, k4) \<Rightarrow> (errno EFAULT, k4)
           | (True, k4) \<Rightarrow> (Sys_ret base, k4))"

section \<open>Processes\<close>

definition user_regs :: "syscall_frame \<Rightarrow> trapframe" where
  "user_regs f =
     \<lparr>tf_rdi = f_rdi f, tf_rsi = f_rsi f, tf_rdx = f_rdx f, tf_r10 = f_r10 f, tf_r8 = f_r8 f, tf_r9 = f_r9 f,
      tf_rbx = f_rbx f, tf_rbp = f_rbp f, tf_r12 = f_r12 f, tf_r13 = f_r13 f, tf_r14 = f_r14 f, tf_r15 = f_r15 f,
      tf_rax = f_rax f, tf_rip = f_user_rip f, tf_rflags = f_user_rflags f, tf_rsp = f_user_rsp f\<rparr>"

definition sys_fork :: "syscall_frame \<Rightarrow> 'a kern_scheme \<Rightarrow> sys_end \<times> 'a kern_scheme" where
  "sys_fork f k =
     (case fork_process (current_process k) (user_regs f) k of (child, k1) \<Rightarrow>
        (if child \<noteq> NULL then Sys_ret (p_pid (proc k1 child)) else errno ENOMEM, k1))"

definition sys_clone :: "syscall_frame \<Rightarrow> 'a kern_scheme \<Rightarrow> sys_end \<times> 'a kern_scheme" where
  "sys_clone f k =
     (case clone_process (current_process k) (user_regs f) (f_rdi f) (f_rsi f) k of (child, k1) \<Rightarrow>
        (if child \<noteq> NULL then Sys_ret (p_pid (proc k1 child)) else errno ENOMEM, k1))"

abbreviation MAX_ARG_LEN :: nat where "MAX_ARG_LEN \<equiv> 128"

text \<open>\<open>None\<close> is a fault on the array or on a string; \<open>left\<close> is \<^verbatim>\<open>MAX_USER_ARGS - argc\<close>.\<close>

fun copy_argv :: "addr \<Rightarrow> u64 \<Rightarrow> nat \<Rightarrow> 'a machine_scheme \<Rightarrow> u8 list list option" where
  "copy_argv r user_argv 0 m = Some []"
| "copy_argv r user_argv (Suc left) m = do {
     bs \<leftarrow> copy_from_user r user_argv 8 m;
     let user_str = read_le 8 (\<lambda>a. bs ! unat a) 0;
     if user_str = NULL then Some []
     else do {
       s \<leftarrow> user_chars r user_str (MAX_ARG_LEN - 1) m;
       ss \<leftarrow> copy_argv r (user_argv + 8) left m;
       Some (s # ss)
     }
   }"

definition copy_argv_from_user :: "addr \<Rightarrow> u64 \<Rightarrow> 'a machine_scheme \<Rightarrow> u8 list list option" where
  "copy_argv_from_user r user_argv m = (if user_argv = NULL then Some [] else copy_argv r user_argv MAX_USER_ARGS m)"

definition sys_execve :: "syscall_frame \<Rightarrow> 'a kern_scheme \<Rightarrow> (sys_end \<times> 'a kern_scheme) option" where
  "sys_execve f k =
     (if f_rdi f = NULL then Some (errno EFAULT, k)
      else case user_chars (cur_space k) (f_rdi f) 127 k of
             None \<Rightarrow> Some (Sys_panic, k)
           | Some path \<Rightarrow>
               if path = [] then Some (errno EINVAL, k)
               else case copy_argv_from_user (cur_space k) (f_rsi f) k of
                      None \<Rightarrow> Some (Sys_panic, k)
                    | Some argv \<Rightarrow>
                        if argv = [] then Some (errno EINVAL, k)
                        else do {
                          (entered, k1) \<leftarrow> exec_process (current_process k) path argv k;
                          Some (if entered then Sys_exec else errno ENOENT, k1)
                        })"

text \<open>One round of the waiting loop.\<close>

definition sys_wait :: "syscall_frame \<Rightarrow> 'a kern_scheme \<Rightarrow> (sys_end \<times> 'a kern_scheme) option" where
  "sys_wait f k = do {
     (result, status, k1) \<leftarrow> wait_reap_child (current_process k) (sint (f_rdi f)) k;
     Some (if result = 0 then
         (Sys_block 0, upd_proc (current_process k1) (p_state_update (\<lambda>_. PROCESS_BLOCKED)) k1)
       else
         let st = (case status of None \<Rightarrow> 0 | Some v \<Rightarrow> v);
             (ok, k2) = (if result > 0 \<and> f_rsi f \<noteq> NULL
               then copy_to_user (cur_space k1) (f_rsi f) (le_bytes 4 (ucast st)) k1 else (True, k1))
         in if \<not> ok then (errno EFAULT, k2)
            else (if result < 0 then errno ECHILD else Sys_ret (of_int result), k2))
   }"

abbreviation TIMER_HZ :: u32 where "TIMER_HZ \<equiv> 100"

text \<open>The deadline of a sleep, and one round of its waiting loop.\<close>

definition wake_tick :: "u64 \<Rightarrow> u64 \<Rightarrow> u64" where
  "wake_tick now ms_arg = now + ucast (((ucast ms_arg :: u32) + (1000 div TIMER_HZ) - 1) div (1000 div TIMER_HZ))"

definition sleep_round :: "u64 \<Rightarrow> 'a kern_scheme \<Rightarrow> sys_end \<times> 'a kern_scheme" where
  "sleep_round deadline k =
     (if ticks k < deadline
      then (Sys_block 0, upd_proc (current_process k) (p_state_update (\<lambda>_. PROCESS_BLOCKED)) k)
      else (Sys_ret 0, k))"

definition sys_sleep_ms :: "syscall_frame \<Rightarrow> 'a kern_scheme \<Rightarrow> sys_end \<times> 'a kern_scheme" where
  "sys_sleep_ms f k = sleep_round (wake_tick (ticks k) (f_rdi f)) k"

definition sys_exit :: "syscall_frame \<Rightarrow> 'a kern_scheme \<Rightarrow> (sys_end \<times> 'a kern_scheme) option" where
  "sys_exit f k =
     (if current_process k \<noteq> NULL then map_option (Pair Sys_gone) (exit_current (ucast (f_rdi f)) k)
      else Some (Sys_gone, k))"

section \<open>The dispatcher\<close>

definition unknown_syscall :: "u8 list" where
  "unknown_syscall = [117, 110, 107, 110, 111, 119, 110, 32, 115, 121, 115, 99, 97, 108, 108]"

definition syscall_handler_c :: "syscall_frame \<Rightarrow> 'a sys_scheme \<Rightarrow> (sys_end \<times> 'a sys_scheme) option" where
  "syscall_handler_c f k =
     (if f_rax f = 0 then Some (sys_read f k)
      else if f_rax f = 1 then Some (sys_write f k)
      else if f_rax f = 2 then sys_open f k
      else if f_rax f = 57 then Some (sys_fork f k)
      else if f_rax f = 56 then Some (sys_clone f k)
      else if f_rax f = 59 then sys_execve f k
      else if f_rax f = 78 then sys_readdir f k
      else if f_rax f = 61 then sys_wait f k
      else if f_rax f = 9 then Some (sys_mmap f k)
      else if f_rax f = 11 then Some (sys_munmap f k)
      else if f_rax f = 12 then Some (sys_brk f k)
      else if f_rax f = 3 then sys_close f k
      else if f_rax f = 22 then sys_pipe f k
      else if f_rax f = 32 then Some (sys_dup f k)
      else if f_rax f = 33 then sys_dup2 f k
      else if f_rax f = 90 then Some (sys_mouse_read f k)
      else if f_rax f = 93 then Some (sys_sleep_ms f k)
      else if f_rax f = 91 then Some (sys_fbmap f k)
      else if f_rax f = 92 then Some (Sys_ret (tsc_hz k), k)
      else if f_rax f = 60 then sys_exit f k
      else Some (errno ENOSYS, k\<lparr>echo := echo k @ unknown_syscall\<rparr>))"

end
