(* ===== verification/Proc_Sched.thy ===== *)
theory Proc_Sched
  imports Syscall
begin

text \<open>
  What \<^verbatim>\<open>schedule\<close> does to the queues: the ring of all processes is a list, the sweeps over it visit every process once
  and end, and the process that runs next is the first one of the highest level.
\<close>

section \<open>Frames\<close>

lemma push_more [simp]: "machine.more (snd (push_qword v s)) = machine.more (snd s)"
  by (cases s) (simp add: push_qword_def store_qword_def)

lemma push_all_more [simp]: "machine.more (snd (fold push_qword vs s)) = machine.more (snd s)"
  by (induction vs arbitrary: s) simp_all

lemma tasks_of_more:
  fixes k k' :: "'a tasks_scheme"
  assumes "machine.more k' = machine.more k"
  shows "proc k' = proc k" "mlfq k' = mlfq k" "current_process k' = current_process k"
    "idle_process k' = idle_process k" "tasks.more k' = tasks.more k"
  using assms by (cases k; cases k'; simp)+

lemma kern_of_more:
  fixes k k' :: "'a kern_scheme"
  assumes "tasks.more k' = tasks.more k"
  shows "process_queue k' = process_queue k" "next_pid k' = next_pid k" "tss_rsp0 k' = tss_rsp0 k"
    "kernel_rsp_scratch k' = kernel_rsp_scratch k" "vm_count k' = vm_count k" "cpu k' = cpu k"
  using assms by (cases k; cases k'; simp)+

lemma switch_task_frame [simp]:
  "proc (switch_task prev nxt k) a =
     (if a = prev then (proc k prev)\<lparr>p_rsp := fst (fold push_qword [c_rflags (cpu k), c_rbx (cpu k), c_rbp (cpu k), c_r12 (cpu k),
        c_r13 (cpu k), c_r14 (cpu k), c_r15 (cpu k)] (c_rsp (cpu k), k))\<rparr> else proc k a)"
  "mlfq (switch_task prev nxt k) = mlfq k" "current_process (switch_task prev nxt k) = current_process k"
  "idle_process (switch_task prev nxt k) = idle_process k" "process_queue (switch_task prev nxt k) = process_queue k"
  "tss_rsp0 (switch_task prev nxt k) = tss_rsp0 k" "kernel_rsp_scratch (switch_task prev nxt k) = kernel_rsp_scratch k"
proof -
  let ?s = "fold push_qword [c_rflags (cpu k), c_rbx (cpu k), c_rbp (cpu k), c_r12 (cpu k),
        c_r13 (cpu k), c_r14 (cpu k), c_r15 (cpu k)] (c_rsp (cpu k), k)"
  have m: "machine.more (snd ?s) = machine.more k" by (simp only: push_all_more snd_conv)
  note t = tasks_of_more [OF m] and u = kern_of_more [OF tasks_of_more(5) [OF m]]
  obtain sp k1 where s: "?s = (sp, k1)" by fastforce
  note tu = t [unfolded s snd_conv] u [unfolded s snd_conv]
  have q: "process_queue (upd_proc a f k') = process_queue k'" "tss_rsp0 (upd_proc a f k') = tss_rsp0 k'"
    "kernel_rsp_scratch (upd_proc a f k') = kernel_rsp_scratch k'" for a f and k' :: "'a kern_scheme"
    by (simp_all add: upd_proc_def)
  show "proc (switch_task prev nxt k) a = (if a = prev then (proc k prev)\<lparr>p_rsp := fst ?s\<rparr> else proc k a)"
    "mlfq (switch_task prev nxt k) = mlfq k" "current_process (switch_task prev nxt k) = current_process k"
    "idle_process (switch_task prev nxt k) = idle_process k" "process_queue (switch_task prev nxt k) = process_queue k"
    "tss_rsp0 (switch_task prev nxt k) = tss_rsp0 k" "kernel_rsp_scratch (switch_task prev nxt k) = kernel_rsp_scratch k"
    unfolding switch_task_def Let_def s by (simp_all add: tu q)
qed

lemma dispatch_frame:
  "current_process (dispatch prev nxt k) = nxt" "mlfq (dispatch prev nxt k) = mlfq k"
  "idle_process (dispatch prev nxt k) = idle_process k" "process_queue (dispatch prev nxt k) = process_queue k"
  "p_state (proc (dispatch prev nxt k) a) = (if a = nxt then PROCESS_RUNNING else p_state (proc k a))"
  "p_priority (proc (dispatch prev nxt k) a) = p_priority (proc k a)" "qnx (dispatch prev nxt k) a = qnx k a"
  "qpv (dispatch prev nxt k) a = qpv k a" "p_next (proc (dispatch prev nxt k) a) = p_next (proc k a)"
  "p_prev (proc (dispatch prev nxt k) a) = p_prev (proc k a)" "p_parent (proc (dispatch prev nxt k) a) = p_parent (proc k a)"
  "p_kernel_stack (proc k nxt) \<noteq> NULL \<Longrightarrow> tss_rsp0 (dispatch prev nxt k) = p_kernel_stack (proc k nxt) + PAGE_SIZE"
  "p_kernel_stack (proc k nxt) \<noteq> NULL \<Longrightarrow> kernel_rsp_scratch (dispatch prev nxt k) = p_kernel_stack (proc k nxt) + PAGE_SIZE"
  by (simp_all add: dispatch_def Let_def upd_proc_def)

section \<open>The ring\<close>

definition ring_rep :: "'a kern_scheme \<Rightarrow> addr list \<Rightarrow> bool" where
  "ring_rep k xs \<longleftrightarrow> process_queue k = hd (xs @ [NULL]) \<and> distinct xs \<and> NULL \<notin> set xs \<and>
     chain (\<lambda>a. p_next (proc k a)) (\<lambda>a. p_prev (proc k a)) (last (NULL # xs)) xs (process_queue k)"

lemma ring_count_chain:
  assumes "chain (\<lambda>a. p_next (proc k a)) pv b (p # xs) node" "node \<notin> set xs"
  shows "ring_count node p k = Some (Suc (length xs))"
  using assms
proof (induction xs arbitrary: p b)
  case Nil
  then show ?case by (simp add: ring_count.simps [of node p k])
next
  case (Cons q xs)
  have "ring_count node q k = Some (Suc (length xs))" using Cons.IH [of p q] Cons.prems by simp
  moreover have "q \<noteq> node" using Cons.prems(2) by auto
  ultimately show ?case using Cons.prems by (simp add: ring_count.simps [of node p k])
qed

lemma ring_count_rep:
  assumes "ring_rep k xs" "xs \<noteq> []"
  shows "process_queue k \<noteq> NULL" "ring_count (process_queue k) (process_queue k) k = Some (length xs)"
proof -
  obtain p ys where x: "xs = p # ys" using assms(2) by (cases xs) auto
  show "process_queue k \<noteq> NULL" using assms(1) x by (auto simp: ring_rep_def)
  have "process_queue k = p" using assms(1) x by (simp add: ring_rep_def)
  then show "ring_count (process_queue k) (process_queue k) k = Some (length xs)"
    using ring_count_chain [of k _ _ p ys p] assms(1) x by (auto simp: ring_rep_def)
qed

text \<open>No process is both dead and without a parent.\<close>

lemma reap_loop_none:
  assumes "chain (\<lambda>a. p_next (proc k a)) pv b xs e" "\<And>p. p \<in> set xs \<Longrightarrow> p_state (proc k p) = PROCESS_DEAD \<Longrightarrow> p_parent (proc k p) \<noteq> NULL"
  shows "reap_loop (length xs) r (hd (xs @ [e])) k = k"
  using assms by (induction xs arbitrary: b) (auto simp: Let_def)

lemma reap_zombies_none:
  assumes r: "ring_rep k xs" "xs \<noteq> []" and z: "\<And>p. p \<in> set xs \<Longrightarrow> p_state (proc k p) = PROCESS_DEAD \<Longrightarrow> p_parent (proc k p) \<noteq> NULL"
  shows "reap_zombies k = Some k"
proof -
  have h: "hd (xs @ [process_queue k]) = process_queue k" using r by (cases xs) (auto simp: ring_rep_def)
  have c: "chain (\<lambda>a. p_next (proc k a)) (\<lambda>a. p_prev (proc k a)) (last (NULL # xs)) xs (process_queue k)"
    using r(1) unfolding ring_rep_def by blast
  show ?thesis using ring_count_rep [OF r] reap_loop_none [OF c z, unfolded h] by (simp add: reap_zombies_def)
qed

section \<open>Waking the blocked processes\<close>

definition queue_add :: "'a tasks_scheme \<Rightarrow> addr \<Rightarrow> (nat \<Rightarrow> addr list) \<Rightarrow> nat \<Rightarrow> addr list" where
  "queue_add k p Q = Q(unat (p_priority (proc k p)) := Q (unat (p_priority (proc k p))) @ [p])"

text \<open>The queues after the sweep over \<open>xs\<close>.\<close>

fun swept :: "'a tasks_scheme \<Rightarrow> addr \<Rightarrow> addr list \<Rightarrow> (nat \<Rightarrow> addr list) \<Rightarrow> nat \<Rightarrow> addr list" where
  "swept k self [] Q = Q"
| "swept k self (p # ps) Q =
     swept k self ps (if p \<noteq> self \<and> p_state (proc k p) = PROCESS_BLOCKED then queue_add k p Q else Q)"

lemma swept_cong:
  assumes "\<And>p. p \<in> set ps \<Longrightarrow> p_state (proc k' p) = p_state (proc k p)" "\<And>p. p_priority (proc k' p) = p_priority (proc k p)"
  shows "swept k' self ps Q = swept k self ps Q"
  using assms by (induction ps arbitrary: Q) (simp_all add: queue_add_def)

lemma wake_loop_sweeps:
  assumes "chain (\<lambda>a. p_next (proc k a)) pv b ps e" "distinct ps" "NULL \<notin> set ps" "mlfq_rep k Q"
    "\<And>p. p \<in> set ps \<Longrightarrow> unat (p_priority (proc k p)) < NUM_QUEUES"
  shows "\<exists>k'. wake_loop (length ps) self (hd (ps @ [e])) k = k' \<and> mlfq_rep k' (swept k self ps Q) \<and>
    tasks.more k' = tasks.more k \<and> kheap.truncate k' = kheap.truncate k \<and>
    current_process k' = current_process k \<and> idle_process k' = idle_process k \<and>
    (\<forall>a. same_process (proc k' a) (proc k a)) \<and>
    (\<forall>a. p_state (proc k' a) = (if a \<in> set ps \<and> a \<noteq> self \<and> p_state (proc k a) = PROCESS_BLOCKED then PROCESS_READY else p_state (proc k a)))"
  using assms
proof (induction ps arbitrary: k b Q)
  case (Cons p ps)
  have nx: "p_next (proc k p) = hd (ps @ [e])" using Cons.prems(1) by simp
  show ?case
  proof (cases "p \<noteq> self \<and> p_state (proc k p) = PROCESS_BLOCKED")
    case False
    obtain k' where k': "wake_loop (length ps) self (hd (ps @ [e])) k = k'" "mlfq_rep k' (swept k self ps Q)"
      "tasks.more k' = tasks.more k" "kheap.truncate k' = kheap.truncate k" "current_process k' = current_process k"
      "idle_process k' = idle_process k" "\<forall>a. same_process (proc k' a) (proc k a)"
      "\<forall>a. p_state (proc k' a) = (if a \<in> set ps \<and> a \<noteq> self \<and> p_state (proc k a) = PROCESS_BLOCKED then PROCESS_READY else p_state (proc k a))"
      using Cons.IH [of k p Q] Cons.prems by auto
    show ?thesis using k' False nx by (intro exI [of _ k']) (auto simp: Let_def)
  next
    case True
    let ?k = "mlfq_enqueue p k" and ?i = "unat (p_priority (proc k p))"
    have rd: "p \<notin> ready_set Q" using levels_repD(3) [OF Cons.prems(4)] True by (auto simp: ready_in_def)
    have p: "p \<noteq> NULL" "?i \<in> {..<NUM_QUEUES}" using Cons.prems by auto
    have r: "mlfq_rep ?k (queue_add k p Q)" unfolding queue_add_def
      by (rule mlfq_enqueue_levels [OF Cons.prems(4) subset_refl p(2,1) _ rd]) (use True in simp)
    have sp: "same_process (proc ?k a) (proc k a)" for a by simp
    have f: "p_next (proc ?k a) = p_next (proc k a)" "p_priority (proc ?k a) = p_priority (proc k a)" for a
      using same_processD [OF sp] by auto
    have st: "p_state (proc ?k a) = (if a = p then PROCESS_READY else p_state (proc k a))" for a
      using p True by (auto simp: mlfq_enqueue_def Let_def)
    have c: "chain (\<lambda>a. p_next (proc ?k a)) pv p ps e" unfolding f using Cons.prems(1) by simp
    obtain k' where k': "wake_loop (length ps) self (hd (ps @ [e])) ?k = k'" "mlfq_rep k' (swept ?k self ps (queue_add k p Q))"
      "tasks.more k' = tasks.more ?k" "kheap.truncate k' = kheap.truncate ?k" "current_process k' = current_process ?k"
      "idle_process k' = idle_process ?k" "\<forall>a. same_process (proc k' a) (proc ?k a)"
      "\<forall>a. p_state (proc k' a) = (if a \<in> set ps \<and> a \<noteq> self \<and> p_state (proc ?k a) = PROCESS_BLOCKED then PROCESS_READY else p_state (proc ?k a))"
      using Cons.IH [OF c _ _ r] Cons.prems f by auto
    have "swept ?k self ps (queue_add k p Q) = swept k self ps (queue_add k p Q)"
      by (rule swept_cong) (use Cons.prems(2) st f in auto)
    then show ?thesis using k' True nx st same_process_trans [OF _ sp]
      by (intro exI [of _ k']) (auto simp: Let_def)
  qed
qed simp

lemma ring_of_process:
  "process_queue k' = process_queue k \<Longrightarrow> (\<And>a. p_next (proc k' a) = p_next (proc k a)) \<Longrightarrow>
   (\<And>a. p_prev (proc k' a) = p_prev (proc k a)) \<Longrightarrow> ring_rep k' xs = ring_rep k xs"
  by (simp add: ring_rep_def)

section \<open>Scheduling\<close>

text \<open>
  The scheduler's view of the system: the queues hold \<open>Q\<close>, the ring holds \<open>xs\<close>, every process of it has a valid
  priority, none is both dead and without a parent (every process but the idle one has its creator as parent).
\<close>

definition sched_ok :: "'a kern_scheme \<Rightarrow> (nat \<Rightarrow> addr list) \<Rightarrow> addr list \<Rightarrow> bool" where
  "sched_ok k Q xs \<longleftrightarrow> mlfq_rep k Q \<and> ring_rep k xs \<and> xs \<noteq> [] \<and>
     (\<forall>p \<in> set xs. unat (p_priority (proc k p)) < NUM_QUEUES \<and>
        (p_state (proc k p) = PROCESS_DEAD \<longrightarrow> p_parent (proc k p) \<noteq> NULL)) \<and>
     current_process k \<in> set xs \<and> current_process k \<notin> ready_set Q \<and> ready_set Q \<subseteq> set xs \<and> idle_process k \<in> set xs"

text \<open>The queues when the next process is chosen: the woken processes, then the running one.\<close>

definition at_choice :: "'a kern_scheme \<Rightarrow> (nat \<Rightarrow> addr list) \<Rightarrow> addr list \<Rightarrow> nat \<Rightarrow> addr list" where
  "at_choice k Q xs =
     (let c = current_process k; Q1 = swept k c xs Q
      in if p_state (proc k c) = PROCESS_RUNNING \<and> c \<noteq> idle_process k then queue_add k c Q1 else Q1)"

lemma swept_set: "p \<in> ready_set (swept k self ps Q) \<Longrightarrow> p \<in> ready_set Q \<or> p \<in> set ps \<and> p \<noteq> self"
proof (induction ps arbitrary: Q)
  case (Cons q ps)
  have "p \<in> ready_set (queue_add k q Q) \<Longrightarrow> p \<in> ready_set Q \<or> p = q"
    by (auto simp: queue_add_def ready_in_def split: if_splits)
  then show ?case using Cons.IH Cons.prems by (auto split: if_splits)
qed simp

lemma choice_state:
  assumes ok: "sched_ok k Q xs"
  defines "c \<equiv> current_process k"
  obtains k1 k3 where "reap_zombies k = Some k" "wake_blocked_processes c k = Some k1" "current_process k1 = c"
    "idle_process k1 = idle_process k" "p_state (proc k1 c) = p_state (proc k c)"
    "k3 = (if p_state (proc k1 c) = PROCESS_RUNNING \<and> c \<noteq> idle_process k1 then mlfq_enqueue c k1 else k1)"
    "mlfq_rep k3 (at_choice k Q xs)" "tasks.more k3 = tasks.more k" "current_process k3 = c" "idle_process k3 = idle_process k"
    "\<And>a. same_process (proc k3 a) (proc k a)"
    "\<And>a. p_state (proc k3 a) = (if a \<in> set xs \<and> a \<noteq> c \<and> p_state (proc k a) = PROCESS_BLOCKED then PROCESS_READY
       else if a = c \<and> p_state (proc k c) = PROCESS_RUNNING \<and> c \<noteq> idle_process k then PROCESS_READY else p_state (proc k a))"
proof -
  have r: "mlfq_rep k Q" "ring_rep k xs" "xs \<noteq> []" and c: "c \<in> set xs" "c \<notin> ready_set Q"
    and pr: "\<And>p. p \<in> set xs \<Longrightarrow> unat (p_priority (proc k p)) < NUM_QUEUES"
    and z: "\<And>p. p \<in> set xs \<Longrightarrow> p_state (proc k p) = PROCESS_DEAD \<Longrightarrow> p_parent (proc k p) \<noteq> NULL"
    using ok by (auto simp: sched_ok_def c_def)
  have d: "distinct xs" "NULL \<notin> set xs" and
    ch: "chain (\<lambda>a. p_next (proc k a)) (\<lambda>a. p_prev (proc k a)) (last (NULL # xs)) xs (process_queue k)"
    using r(2) unfolding ring_rep_def by blast+
  have h: "hd (xs @ [process_queue k]) = process_queue k" using r(2,3) by (cases xs) (auto simp: ring_rep_def)
  obtain k1 where k1: "wake_loop (length xs) c (process_queue k) k = k1" "mlfq_rep k1 (swept k c xs Q)"
    "tasks.more k1 = tasks.more k" "current_process k1 = current_process k" "idle_process k1 = idle_process k"
    "\<forall>a. same_process (proc k1 a) (proc k a)"
    "\<forall>a. p_state (proc k1 a) = (if a \<in> set xs \<and> a \<noteq> c \<and> p_state (proc k a) = PROCESS_BLOCKED then PROCESS_READY else p_state (proc k a))"
    using wake_loop_sweeps [OF ch d r(1) pr, unfolded h] by blast
  let ?k3 = "if p_state (proc k1 c) = PROCESS_RUNNING \<and> c \<noteq> idle_process k1 then mlfq_enqueue c k1 else k1"
  have cp: "p_priority (proc k1 c) = p_priority (proc k c)" by (rule same_processD(6) [OF k1(6) [rule_format]])
  have cs: "p_state (proc k1 c) = p_state (proc k c)" using k1(7) by simp
  have cr: "c \<notin> ready_set (swept k c xs Q)" using swept_set [of c k c xs Q] c by blast
  have cn: "c \<noteq> NULL" using c d by auto
  have rep: "mlfq_rep ?k3 (at_choice k Q xs)"
  proof (cases "p_state (proc k1 c) = PROCESS_RUNNING \<and> c \<noteq> idle_process k1")
    case True
    have "mlfq_rep (mlfq_enqueue c k1) (queue_add k1 c (swept k c xs Q))" unfolding queue_add_def
      by (rule mlfq_enqueue_levels [OF k1(2) subset_refl _ cn _ cr]) (use True cp pr c in simp_all)
    then show ?thesis using True k1(5) cs cp by (simp add: at_choice_def Let_def queue_add_def c_def)
  next
    case False
    then have "at_choice k Q xs = swept k c xs Q" using k1(5) cs by (auto simp: at_choice_def Let_def c_def)
    then show ?thesis using k1(2) False by (simp only: if_False)
  qed
  have sp: "same_process (proc ?k3 a) (proc k a)" for a
    using same_process_trans [OF mlfq_enqueue_frame(1) [of c k1 a] k1(6) [rule_format]] k1(6) by simp
  have st: "p_state (proc ?k3 a) = (if a \<in> set xs \<and> a \<noteq> c \<and> p_state (proc k a) = PROCESS_BLOCKED then PROCESS_READY
       else if a = c \<and> p_state (proc k c) = PROCESS_RUNNING \<and> c \<noteq> idle_process k then PROCESS_READY else p_state (proc k a))" for a
    using k1(5,7) cs cn by (auto simp: mlfq_enqueue_def Let_def)
  have w: "wake_blocked_processes c k = Some k1" using k1(1) ring_count_rep [OF r(2,3)] by (simp add: wake_blocked_processes_def)
  show thesis
    by (rule that [OF reap_zombies_none [OF r(2,3) z] w _ k1(5) cs refl rep _ _ _ sp st]) (use k1(3,4,5) in \<open>simp_all add: c_def\<close>)
qed

lemma schedule_choice:
  assumes ok: "sched_ok k Q xs"
  defines "c \<equiv> current_process k"
  obtains k3 where "schedule k = (case mlfq_pick_next k3 of (picked, k4) \<Rightarrow>
      let nxt = (if picked = NULL then idle_process k4 else picked) in Some (if c = nxt then k4 else dispatch c nxt k4))"
    "mlfq_rep k3 (at_choice k Q xs)" "tasks.more k3 = tasks.more k" "current_process k3 = c" "idle_process k3 = idle_process k"
    "\<And>a. same_process (proc k3 a) (proc k a)"
    "\<And>a. p_state (proc k3 a) = (if a \<in> set xs \<and> a \<noteq> c \<and> p_state (proc k a) = PROCESS_BLOCKED then PROCESS_READY
       else if a = c \<and> p_state (proc k c) = PROCESS_RUNNING \<and> c \<noteq> idle_process k then PROCESS_READY else p_state (proc k a))"
proof -
  obtain k1 k3 where a: "reap_zombies k = Some k" "wake_blocked_processes c k = Some k1" "current_process k1 = c"
    "idle_process k1 = idle_process k" "p_state (proc k1 c) = p_state (proc k c)"
    "k3 = (if p_state (proc k1 c) = PROCESS_RUNNING \<and> c \<noteq> idle_process k1 then mlfq_enqueue c k1 else k1)"
    and b: "mlfq_rep k3 (at_choice k Q xs)" "tasks.more k3 = tasks.more k" "current_process k3 = c" "idle_process k3 = idle_process k"
    "\<And>a. same_process (proc k3 a) (proc k a)"
    "\<And>a. p_state (proc k3 a) = (if a \<in> set xs \<and> a \<noteq> c \<and> p_state (proc k a) = PROCESS_BLOCKED then PROCESS_READY
       else if a = c \<and> p_state (proc k c) = PROCESS_RUNNING \<and> c \<noteq> idle_process k then PROCESS_READY else p_state (proc k a))"
    by (rule choice_state [OF ok, folded c_def], rule that)
  have n: "current_process k \<noteq> NULL" using ok by (auto simp: sched_ok_def ring_rep_def)
  have "schedule k = (case mlfq_pick_next k3 of (picked, k4) \<Rightarrow>
      let nxt = (if picked = NULL then idle_process k4 else picked) in Some (if c = nxt then k4 else dispatch c nxt k4))"
    using n a(1,2) unfolding schedule_def schedule_locked_def a(6) Let_def a(1) bind.bind_lunit c_def [symmetric] by simp
  then show thesis by (rule that [OF _ b])
qed

text \<open>The result of a scheduling decision whose first non-empty level is known.\<close>

lemma schedule_to:
  assumes ok: "sched_ok k Q xs" and i: "i < NUM_QUEUES" "at_choice k Q xs i = p # ps" "\<And>j. j < i \<Longrightarrow> at_choice k Q xs j = []"
  defines "c \<equiv> current_process k"
  obtains k' where "schedule k = Some k'" "current_process k' = p" "idle_process k' = idle_process k"
    "mlfq_rep k' ((at_choice k Q xs)(i := ps))" "ring_rep k' xs" "p \<notin> ready_set ((at_choice k Q xs)(i := ps))"
    "\<And>a. p_priority (proc k' a) = p_priority (proc k a)" "\<And>a. p_parent (proc k' a) = p_parent (proc k a)"
    "p \<noteq> c \<Longrightarrow> p_state (proc k' p) = PROCESS_RUNNING"
    "p \<noteq> c \<Longrightarrow> p_kernel_stack (proc k p) \<noteq> NULL \<Longrightarrow>
       tss_rsp0 k' = p_kernel_stack (proc k p) + PAGE_SIZE \<and> kernel_rsp_scratch k' = tss_rsp0 k'"
    "p = c \<Longrightarrow> p_state (proc k' p) = PROCESS_READY"
    "\<And>a. a \<noteq> p \<Longrightarrow> p_state (proc k' a) = (if a \<in> set xs \<and> a \<noteq> c \<and> p_state (proc k a) = PROCESS_BLOCKED then PROCESS_READY
       else if a = c \<and> p_state (proc k c) = PROCESS_RUNNING \<and> c \<noteq> idle_process k then PROCESS_READY else p_state (proc k a))"
proof -
  obtain k3 where s: "schedule k = (case mlfq_pick_next k3 of (picked, k4) \<Rightarrow>
      let nxt = (if picked = NULL then idle_process k4 else picked) in Some (if c = nxt then k4 else dispatch c nxt k4))"
    and b: "mlfq_rep k3 (at_choice k Q xs)" "tasks.more k3 = tasks.more k" "current_process k3 = c" "idle_process k3 = idle_process k"
    "\<And>a. same_process (proc k3 a) (proc k a)"
    and st: "\<And>a. p_state (proc k3 a) = (if a \<in> set xs \<and> a \<noteq> c \<and> p_state (proc k a) = PROCESS_BLOCKED then PROCESS_READY
       else if a = c \<and> p_state (proc k c) = PROCESS_RUNNING \<and> c \<noteq> idle_process k then PROCESS_READY else p_state (proc k a))"
    by (rule schedule_choice [OF ok, folded c_def], rule that)
  obtain k4 where pk: "mlfq_pick_next k3 = (p, k4)" and r4: "mlfq_rep k4 ((at_choice k Q xs)(i := ps))"
    using mlfq_pick_next_some [OF b(1) i] by (cases "mlfq_pick_next k3") auto
  have pn: "p \<noteq> NULL" "p \<in> set (at_choice k Q xs i)" using levels_repD(6) [OF b(1), of i] i by auto
  have pd: "p \<notin> set ps" using levels_repD(5) [OF b(1), of i] i by simp
  have pr: "p \<notin> ready_set ((at_choice k Q xs)(i := ps))"
  proof
    assume "p \<in> ready_set ((at_choice k Q xs)(i := ps))"
    then obtain j where j: "j \<in> {..<NUM_QUEUES}" "p \<in> set (((at_choice k Q xs)(i := ps)) j)" unfolding ready_in_def by blast
    show False
    proof (cases "j = i")
      case False
      then have "p \<in> set (at_choice k Q xs j)" using j(2) by simp
      then show False using levels_repD(4) [OF b(1) _ j(1) pn(2)] i(1) False by simp
    qed (use j(2) pd in simp)
  qed
  note fr = mlfq_pick_next_frame [of k3, unfolded pk snd_conv]
  have f4: "current_process k4 = c" "idle_process k4 = idle_process k" "tasks.more k4 = tasks.more k"
    "p_state (proc k4 a) = p_state (proc k3 a)" for a using fr b(2-4) by simp_all
  have sp4: "same_process (proc k4 a) (proc k a)" for a by (rule same_process_trans [OF fr(1) b(5)])
  have pf: "p_priority (proc k4 a) = p_priority (proc k a)" "p_parent (proc k4 a) = p_parent (proc k a)"
    "p_next (proc k4 a) = p_next (proc k a)" "p_prev (proc k4 a) = p_prev (proc k a)"
    "p_kernel_stack (proc k4 a) = p_kernel_stack (proc k a)" for a using same_processD [OF sp4 [of a]] by auto
  have ring: "ring_rep k xs" using ok by (simp add: sched_ok_def)
  have pq: "process_queue k4 = process_queue k" by (rule kern_of_more [OF f4(3)])
  have sch: "schedule k = Some (if c = p then k4 else dispatch c p k4)" using s pk pn by (simp add: Let_def)
  have rdy: "p_state (proc k4 p) = PROCESS_READY" using levels_repD(3) [OF b(1), of i p] pn i f4(4) by simp
  show thesis
  proof (cases "c = p")
    case True
    show thesis
      by (rule that [of k4]) (use True sch f4 r4 pr pf rdy st ring ring_of_process [of k4 k xs, OF pq] in simp_all)
  next
    case False
    have r5: "mlfq_rep (dispatch c p k4) ((at_choice k Q xs)(i := ps))"
      by (rule levels_rep_cong [OF r4]) (use levels_rep_length [OF r4] pr in \<open>auto simp: dispatch_frame\<close>)
    have "ring_rep (dispatch c p k4) xs" using ring ring_of_process [of "dispatch c p k4" k xs] pf pq by (simp add: dispatch_frame)
    then show thesis
      by (intro that [of "dispatch c p k4"]) (use False sch f4 r5 pr pf st in \<open>simp_all add: dispatch_frame\<close>)
  qed
qed

lemma schedule_to_idle:
  assumes ok: "sched_ok k Q xs" and e: "\<And>j. j < NUM_QUEUES \<Longrightarrow> at_choice k Q xs j = []" and c: "current_process k \<noteq> idle_process k"
  obtains k' where "schedule k = Some k'" "current_process k' = idle_process k" "mlfq_rep k' (at_choice k Q xs)"
    "p_state (proc k' (current_process k)) =
      (if p_state (proc k (current_process k)) = PROCESS_RUNNING then PROCESS_READY else p_state (proc k (current_process k)))"
proof -
  let ?c = "current_process k"
  obtain k3 where s: "schedule k = (case mlfq_pick_next k3 of (picked, k4) \<Rightarrow>
      let nxt = (if picked = NULL then idle_process k4 else picked) in Some (if ?c = nxt then k4 else dispatch ?c nxt k4))"
    and b: "mlfq_rep k3 (at_choice k Q xs)" "tasks.more k3 = tasks.more k" "current_process k3 = ?c" "idle_process k3 = idle_process k"
    "\<And>a. same_process (proc k3 a) (proc k a)"
    and st: "\<And>a. p_state (proc k3 a) = (if a \<in> set xs \<and> a \<noteq> ?c \<and> p_state (proc k a) = PROCESS_BLOCKED then PROCESS_READY
       else if a = ?c \<and> p_state (proc k ?c) = PROCESS_RUNNING \<and> ?c \<noteq> idle_process k then PROCESS_READY else p_state (proc k a))"
    by (rule schedule_choice [OF ok], rule that)
  have sch: "schedule k = Some (dispatch ?c (idle_process k) k3)"
    using s mlfq_pick_next_none [OF b(1) e] b(4) c by (simp add: Let_def)
  have em: "ready_set (at_choice k Q xs) = {}" using e by (auto simp: ready_in_def)
  have "mlfq_rep (dispatch ?c (idle_process k) k3) (at_choice k Q xs)"
    by (rule levels_rep_cong [OF b(1)]) (use levels_rep_length [OF b(1)] em in \<open>auto simp: dispatch_frame\<close>)
  then show thesis using that [OF sch] st [of ?c] c by (simp add: dispatch_frame)
qed

lemma at_choice_set:
  assumes "sched_ok k Q xs"
  shows "ready_set (at_choice k Q xs) \<subseteq> set xs"
proof -
  have s: "ready_set (swept k (current_process k) xs Q) \<subseteq> set xs" using swept_set assms by (fastforce simp: sched_ok_def)
  have "ready_set (queue_add k c Q') \<subseteq> insert c (ready_set Q')" for c Q'
    by (auto simp: queue_add_def ready_in_def split: if_splits)
  then show ?thesis using s assms by (auto simp: at_choice_def Let_def sched_ok_def)
qed

lemma swept_none: "(\<And>p. p \<in> set ps \<Longrightarrow> p \<noteq> self \<Longrightarrow> p_state (proc k p) \<noteq> PROCESS_BLOCKED) \<Longrightarrow> swept k self ps Q = Q"
  by (induction ps arbitrary: Q) auto

section \<open>A concrete state\<close>

text \<open>An idle process, a running process and a blocked one.\<close>

definition kproc0 :: "addr \<Rightarrow> process" where
  "kproc0 a =
     (if a = 0x2000 then zero_process\<lparr>p_state := PROCESS_RUNNING, p_priority := 3, p_next := 0x1000, p_prev := 0x4000\<rparr>
      else if a = 0x1000 then zero_process\<lparr>p_pid := 1, p_state := PROCESS_RUNNING, p_next := 0x4000, p_prev := 0x2000,
        p_parent := 0x2000, p_kernel_stack := 0x5000\<rparr>
      else zero_process\<lparr>p_pid := 2, p_state := PROCESS_BLOCKED, p_next := 0x2000, p_prev := 0x1000, p_parent := 0x1000,
        p_kernel_stack := 0x6000\<rparr>)"

definition cpu0 :: cpu where
  "cpu0 = \<lparr>c_rbx = 0, c_rbp = 0, c_r12 = 0, c_r13 = 0, c_r14 = 0, c_r15 = 0, c_rflags = 0x202, c_rsp = 0x5F00, c_rip = 0,
     c_cs = 8, c_ss = 16, c_cr3 = 0\<rparr>"

definition kern0 :: kern where
  "kern0 = (vfs.extend vfs0 (kern.fields 0x2000 3 (\<lambda>_. 0) 0 0 cpu0 0 0 0 False (\<lambda>_. None) 0x100 0x200 0x300 0x400))
     \<lparr>proc := kproc0, mlfq := map (\<lambda>i. \<lparr>q_head = NULL, q_tail = NULL, q_quantum = 2 + 2 * of_nat i\<rparr>) [0..<NUM_QUEUES],
      current_process := 0x1000, idle_process := 0x2000\<rparr>"

lemma kern0_fields [simp]:
  "proc kern0 = kproc0" "current_process kern0 = 0x1000" "idle_process kern0 = 0x2000" "process_queue kern0 = 0x2000"
  "mlfq kern0 = map (\<lambda>i. \<lparr>q_head = NULL, q_tail = NULL, q_quantum = 2 + 2 * of_nat i\<rparr>) [0..<NUM_QUEUES]"
  by (simp_all add: kern0_def vfs.extend_def kern.fields_def)

lemma kern0_ok: "sched_ok kern0 (\<lambda>_. []) [0x2000, 0x1000, 0x4000]"
proof -
  have "mlfq_rep kern0 (\<lambda>_. [])" by (auto simp: levels_rep_def level_rep_def)
  then show ?thesis by (auto simp: sched_ok_def ring_rep_def ready_in_def kproc0_def zero_process_def)
qed

section \<open>Properties\<close>

text \<open>
  C31: A call of \<^verbatim>\<open>schedule\<close> ends. It wakes every blocked process but the running one, puts the running process back
  into its level, takes the first process of the highest non-empty level out of the queues and makes it the current
  one; if that is another process, it is marked running and its kernel stack is installed for interrupts and system
  calls. The scheduler's invariant holds again afterwards.
\<close>

theorem schedule_runs_highest:
  assumes ok: "sched_ok k Q xs" and i: "i < NUM_QUEUES" "at_choice k Q xs i = p # ps" "\<And>j. j < i \<Longrightarrow> at_choice k Q xs j = []"
  shows "\<exists>k'. schedule k = Some k' \<and> current_process k' = p \<and> sched_ok k' ((at_choice k Q xs)(i := ps)) xs \<and>
    (p \<noteq> current_process k \<longrightarrow> p_state (proc k' p) = PROCESS_RUNNING \<and>
       (p_kernel_stack (proc k p) \<noteq> NULL \<longrightarrow> tss_rsp0 k' = p_kernel_stack (proc k p) + PAGE_SIZE \<and> kernel_rsp_scratch k' = tss_rsp0 k'))"
proof -
  obtain k' where k': "schedule k = Some k'" "current_process k' = p" "idle_process k' = idle_process k"
    "mlfq_rep k' ((at_choice k Q xs)(i := ps))" "ring_rep k' xs" "p \<notin> ready_set ((at_choice k Q xs)(i := ps))"
    "\<And>a. p_priority (proc k' a) = p_priority (proc k a)" "\<And>a. p_parent (proc k' a) = p_parent (proc k a)"
    and r: "p \<noteq> current_process k \<Longrightarrow> p_state (proc k' p) = PROCESS_RUNNING"
    "p \<noteq> current_process k \<Longrightarrow> p_kernel_stack (proc k p) \<noteq> NULL \<Longrightarrow>
       tss_rsp0 k' = p_kernel_stack (proc k p) + PAGE_SIZE \<and> kernel_rsp_scratch k' = tss_rsp0 k'"
    "p = current_process k \<Longrightarrow> p_state (proc k' p) = PROCESS_READY"
    and st: "\<And>a. a \<noteq> p \<Longrightarrow> p_state (proc k' a) = (if a \<in> set xs \<and> a \<noteq> current_process k \<and> p_state (proc k a) = PROCESS_BLOCKED then PROCESS_READY
       else if a = current_process k \<and> p_state (proc k (current_process k)) = PROCESS_RUNNING \<and> current_process k \<noteq> idle_process k then PROCESS_READY
       else p_state (proc k a))"
    by (rule schedule_to [OF ok i(1,2)], erule i(3), rule that)
  have sub: "ready_set (at_choice k Q xs) \<subseteq> set xs" by (rule at_choice_set [OF ok])
  have px: "p \<in> set xs" using sub ready_inI [of i "{..<NUM_QUEUES}" p "at_choice k Q xs"] i by auto
  have "set (((at_choice k Q xs)(i := ps)) j) \<subseteq> set (at_choice k Q xs j)" for j using i(2) by auto
  then have sub': "ready_set ((at_choice k Q xs)(i := ps)) \<subseteq> set xs" using sub unfolding ready_in_def by blast
  have dd: "p_state (proc k' a) = PROCESS_DEAD \<Longrightarrow> p_state (proc k a) = PROCESS_DEAD" for a
    using st [of a] r(1,3) by (cases "a = p"; cases "p = current_process k") (auto split: if_splits)
  have "sched_ok k' ((at_choice k Q xs)(i := ps)) xs"
    using ok k'(2-8) px sub' dd unfolding sched_ok_def by auto
  then show ?thesis using k'(1,2) r(1,2) by blast
qed

theorem schedule_runs_highest_witness:
  "\<exists>k'. schedule kern0 = Some k' \<and> current_process k' = 0x4000 \<and> p_state (proc k' 0x4000) = PROCESS_RUNNING \<and> tss_rsp0 k' = 0x7000"
proof -
  have a: "at_choice kern0 (\<lambda>_. []) [0x2000, 0x1000, 0x4000] 0 = [0x4000, 0x1000]"
    by (simp add: at_choice_def Let_def queue_add_def kproc0_def zero_process_def)
  show ?thesis using schedule_runs_highest [OF kern0_ok _ a] by (auto simp: kproc0_def)
qed

text \<open>
  C36: A process that is alone runnable is lost. The first \<^verbatim>\<open>schedule\<close> puts it into its queue, takes it out again and
  returns, leaving it marked ready while it runs; the next \<^verbatim>\<open>schedule\<close> (at the latest the priority boost after 100
  ticks) therefore does not enqueue it and switches to the idle process: the process is ready, but in no queue.
\<close>

theorem lone_process_is_lost:
  assumes ok: "sched_ok k (\<lambda>_. []) xs" and c: "p_state (proc k (current_process k)) = PROCESS_RUNNING" "current_process k \<noteq> idle_process k"
    and nb: "\<And>p. p \<in> set xs \<Longrightarrow> p_state (proc k p) \<noteq> PROCESS_BLOCKED"
  shows "\<exists>k1 k2. schedule k = Some k1 \<and> current_process k1 = current_process k \<and> schedule k1 = Some k2 \<and>
    current_process k2 = idle_process k \<and> p_state (proc k2 (current_process k)) = PROCESS_READY \<and> mlfq_rep k2 (\<lambda>_. [])"
proof -
  let ?c = "current_process k" and ?i = "unat (p_priority (proc k (current_process k)))" and ?E = "\<lambda>_ :: nat. [] :: addr list"
  have i: "?i < NUM_QUEUES" using ok by (simp add: sched_ok_def)
  have ch: "at_choice k ?E xs = ?E(?i := [?c])"
    using c swept_none [of xs ?c k ?E] nb by (simp add: at_choice_def Let_def queue_add_def)
  have ai: "at_choice k ?E xs ?i = ?c # []" and aj: "\<And>j. j < ?i \<Longrightarrow> at_choice k ?E xs j = []" by (simp_all add: ch)
  have emp: "(at_choice k ?E xs)(?i := []) = ?E" by (auto simp: ch)
  obtain k1 where k1: "schedule k = Some k1" "current_process k1 = ?c" "idle_process k1 = idle_process k" "mlfq_rep k1 ?E" "ring_rep k1 xs"
    "\<And>a. p_priority (proc k1 a) = p_priority (proc k a)" "\<And>a. p_parent (proc k1 a) = p_parent (proc k a)"
    "p_state (proc k1 ?c) = PROCESS_READY"
    and st: "\<And>a. a \<noteq> ?c \<Longrightarrow> p_state (proc k1 a) = p_state (proc k a) \<or> p_state (proc k1 a) = PROCESS_READY"
  proof (rule schedule_to [OF ok i ai aj], assumption)
    fix k'
    assume a: "schedule k = Some k'" "current_process k' = ?c" "idle_process k' = idle_process k"
      "mlfq_rep k' ((at_choice k ?E xs)(?i := []))" "ring_rep k' xs"
      "\<And>a. p_priority (proc k' a) = p_priority (proc k a)" "\<And>a. p_parent (proc k' a) = p_parent (proc k a)"
      "?c = ?c \<Longrightarrow> p_state (proc k' ?c) = PROCESS_READY"
      "\<And>a. a \<noteq> ?c \<Longrightarrow> p_state (proc k' a) = (if a \<in> set xs \<and> a \<noteq> ?c \<and> p_state (proc k a) = PROCESS_BLOCKED then PROCESS_READY
       else if a = ?c \<and> p_state (proc k ?c) = PROCESS_RUNNING \<and> ?c \<noteq> idle_process k then PROCESS_READY else p_state (proc k a))"
    show thesis by (rule that [OF a(1,2,3) a(4) [unfolded emp] a(5,6,7)]) (use a(8,9) in auto)
  qed
  have nb1: "p_state (proc k1 p) \<noteq> PROCESS_BLOCKED" if "p \<in> set xs" for p
    using st [of p] nb [OF that] k1(8) by (cases "p = ?c") auto
  have dd: "p_state (proc k1 a) = PROCESS_DEAD \<Longrightarrow> p_state (proc k a) = PROCESS_DEAD" for a
    using st [of a] k1(8) by (cases "a = ?c") auto
  have ok1: "sched_ok k1 ?E xs" using ok k1(2-7) dd unfolding sched_ok_def by auto
  have ch1: "at_choice k1 ?E xs = ?E" using swept_none [of xs ?c k1 ?E] nb1 k1(2,8) by (simp add: at_choice_def Let_def)
  have "current_process k1 \<noteq> idle_process k1" using c k1(2,3) by simp
  then obtain k2 where "schedule k1 = Some k2" "current_process k2 = idle_process k" "mlfq_rep k2 ?E" "p_state (proc k2 ?c) = PROCESS_READY"
    using schedule_to_idle [OF ok1, unfolded ch1] k1(2,3,8) by (metis process_state.distinct(1))
  then show ?thesis using k1(1,2) by blast
qed

text \<open>Only the idle process and one other are left.\<close>

definition kern1 :: kern where
  "kern1 = kern0\<lparr>proc := (\<lambda>a. if a = 0x4000 then (kproc0 a)\<lparr>p_state := PROCESS_DEAD\<rparr> else kproc0 a)\<rparr>"

theorem lone_process_is_lost_witness:
  "\<exists>k1 k2. schedule kern1 = Some k1 \<and> current_process k1 = 0x1000 \<and> schedule k1 = Some k2 \<and> current_process k2 = 0x2000 \<and>
     p_state (proc k2 0x1000) = PROCESS_READY \<and> mlfq_rep k2 (\<lambda>_. [])"
proof -
  have f: "current_process kern1 = 0x1000" "idle_process kern1 = 0x2000" "process_queue kern1 = 0x2000" "mlfq kern1 = mlfq kern0"
    by (simp_all add: kern1_def)
  have p: "proc kern1 = (\<lambda>a. if a = 0x4000 then (kproc0 a)\<lparr>p_state := PROCESS_DEAD\<rparr> else kproc0 a)" by (simp add: kern1_def)
  have "mlfq_rep kern1 (\<lambda>_. [])" by (auto simp: levels_rep_def level_rep_def f)
  then have ok: "sched_ok kern1 (\<lambda>_. []) [0x2000, 0x1000, 0x4000]"
    by (auto simp: sched_ok_def ring_rep_def ready_in_def f p kproc0_def zero_process_def)
  have nb: "p_state (proc kern1 q) \<noteq> PROCESS_BLOCKED" if "q \<in> set [0x2000, 0x1000, 0x4000]" for q
    using that by (auto simp: p kproc0_def zero_process_def)
  have c: "p_state (proc kern1 (current_process kern1)) = PROCESS_RUNNING" "current_process kern1 \<noteq> idle_process kern1"
    by (simp_all add: f p kproc0_def)
  show ?thesis using lone_process_is_lost [OF ok c nb] by (simp add: f)
qed

end
