(* ===== verification/Proc_Switch.thy ===== *)
theory Proc_Switch
  imports Proc_Sched
begin

text \<open>
  Kernel stacks and the context switch: what \<^verbatim>\<open>switch_task\<close> saves on the stack of one process it restores when it comes
  back to it, and the frame that \<^verbatim>\<open>setup_kernel_stack\<close> builds is the one \<^verbatim>\<open>switch_task\<close> expects.
\<close>

section \<open>Words of a stack page\<close>

text \<open>The address of word \<open>n\<close> of frame \<open>f\<close>; \<open>n = 512\<close> is the end of the page.\<close>

definition stack_at :: "nat \<Rightarrow> nat \<Rightarrow> addr" where
  "stack_at f n = frame_addr f + of_nat (8 * n)"

lemma stack_at_pred: "0 < n \<Longrightarrow> stack_at f n - 8 = stack_at f (n - 1)"
  by (cases n) (simp_all add: stack_at_def)

lemma stack_at_add: "stack_at f n + of_nat (8 * i) = stack_at f (n + i)"
  by (simp add: stack_at_def algebra_simps)

lemma unat_u64: "x < 2 ^ 64 \<Longrightarrow> unat (of_nat x :: u64) = x"
  by (simp add: unat_of_nat)

lemma page_offset_mod: "page_offset va = unat va mod page_bytes"
proof -
  have "va AND 0xFFF = take_bit 12 va" by (simp add: take_bit_eq_mask mask_eq_exp_minus_1)
  then show ?thesis by (simp add: page_offset_def unsigned_take_bit_eq take_bit_eq_mod unat_mod_distrib)
qed

lemma stack_slot:
  assumes "f < 2 ^ 40" "n < 512"
  shows "frame_no (stack_at f n) = f" "page_offset (stack_at f n) div 8 = n"
proof -
  have b: "f * page_bytes + 8 * n < 2 ^ 64" using assms by simp
  have u: "unat (stack_at f n) = f * page_bytes + 8 * n"
    unfolding stack_at_def frame_addr_def of_nat_add [symmetric] by (rule unat_u64 [OF b])
  show "frame_no (stack_at f n) = f" unfolding frame_no_def u using assms(2) by simp
  show "page_offset (stack_at f n) div 8 = n" unfolding page_offset_mod u using assms(2) by simp
qed

lemma load_stack: "f < 2 ^ 40 \<Longrightarrow> n < 512 \<Longrightarrow> load_qword (stack_at f n) m = phys_mem m f n"
  by (simp add: load_qword_def stack_slot)

lemma push_stack:
  "f < 2 ^ 40 \<Longrightarrow> 0 < n \<Longrightarrow> n \<le> 512 \<Longrightarrow>
   push_qword v (stack_at f n, m) = (stack_at f (n - 1), m\<lparr>phys_mem := (phys_mem m)(f := (phys_mem m f)(n - 1 := v))\<rparr>)"
  using stack_slot [of f "n - 1"] by (simp add: push_qword_def stack_at_pred store_qword_def)

text \<open>After pushing \<open>vs\<close> the last one pushed is at the lowest address.\<close>

lemma push_all_stack:
  assumes "f < 2 ^ 40" "length vs \<le> n" "n \<le> 512"
  shows "fold push_qword vs (stack_at f n, m) = (stack_at f (n - length vs), m\<lparr>phys_mem := (phys_mem m)(f :=
     (\<lambda>i. if n - length vs \<le> i \<and> i < n then vs ! (n - 1 - i) else phys_mem m f i))\<rparr>)"
  using assms
proof (induction vs arbitrary: n m)
  case Nil
  have "(\<lambda>i. if n \<le> i \<and> i < n then [] ! (n - 1 - i) else phys_mem m f i) = phys_mem m f" by (intro ext) auto
  then show ?case by simp
next
  case (Cons v vs)
  let ?m = "m\<lparr>phys_mem := (phys_mem m)(f := (phys_mem m f)(n - 1 := v))\<rparr>"
  have "fold push_qword (v # vs) (stack_at f n, m) = fold push_qword vs (stack_at f (n - 1), ?m)"
    using Cons.prems by (simp add: push_stack)
  also have "\<dots> = (stack_at f (n - 1 - length vs), ?m\<lparr>phys_mem := (phys_mem ?m)(f :=
     (\<lambda>i. if n - 1 - length vs \<le> i \<and> i < n - 1 then vs ! (n - 1 - 1 - i) else phys_mem ?m f i))\<rparr>)"
    by (rule Cons.IH) (use Cons.prems in auto)
  also have "\<dots> = (stack_at f (n - length (v # vs)), m\<lparr>phys_mem := (phys_mem m)(f :=
     (\<lambda>i. if n - length (v # vs) \<le> i \<and> i < n then (v # vs) ! (n - 1 - i) else phys_mem m f i))\<rparr>)"
  proof -
    have pm: "phys_mem ?m f = (phys_mem m f)(n - 1 := v)" by simp
    have fe: "(\<lambda>i. if n - 1 - length vs \<le> i \<and> i < n - 1 then vs ! (n - 1 - 1 - i) else ((phys_mem m f)(n - 1 := v)) i) =
        (\<lambda>i. if n - length (v # vs) \<le> i \<and> i < n then (v # vs) ! (n - 1 - i) else phys_mem m f i)"
    proof
      fix i
      consider "i = n - 1" | "i < n - 1" | "n \<le> i" using Cons.prems by force
      then show "(if n - 1 - length vs \<le> i \<and> i < n - 1 then vs ! (n - 1 - 1 - i) else ((phys_mem m f)(n - 1 := v)) i) =
        (if n - length (v # vs) \<le> i \<and> i < n then (v # vs) ! (n - 1 - i) else phys_mem m f i)"
      proof cases
        case 2
        then have e: "n - 1 - i = Suc (n - 1 - 1 - i)" by simp
        have "(v # vs) ! (n - 1 - i) = vs ! (n - 1 - 1 - i)" unfolding e by simp
        then show ?thesis using 2 by auto
      qed (use Cons.prems in auto)
    qed
    show ?thesis unfolding pm fe by simp
  qed
  finally show ?case .
qed

section \<open>Switching\<close>

text \<open>The words a switch saves, in the order it pushes them.\<close>

definition saved :: "cpu \<Rightarrow> u64 list" where
  "saved c = [c_rflags c, c_rbx c, c_rbp c, c_r12 c, c_r13 c, c_r14 c, c_r15 c]"

lemma switch_task_stack:
  assumes f: "f < 2 ^ 40" and n: "7 \<le> n" "n \<le> 512" and sp: "c_rsp (cpu k) = stack_at f n"
  shows "p_rsp (proc (switch_task prev nxt k) prev) = stack_at f (n - 7)"
    "phys_mem (switch_task prev nxt k) =
       (phys_mem k)(f := (\<lambda>i. if n - 7 \<le> i \<and> i < n then saved (cpu k) ! (n - 1 - i) else phys_mem k f i))"
proof -
  have l: "length (saved (cpu k)) = 7" by (simp add: saved_def)
  note p = push_all_stack [of f "saved (cpu k)" n k, unfolded l, OF f n]
  show "p_rsp (proc (switch_task prev nxt k) prev) = stack_at f (n - 7)"
    using p unfolding saved_def [of "cpu k"] by (simp only: switch_task_frame(1) sp fst_conv) simp
  show "phys_mem (switch_task prev nxt k) =
       (phys_mem k)(f := (\<lambda>i. if n - 7 \<le> i \<and> i < n then saved (cpu k) ! (n - 1 - i) else phys_mem k f i))"
    using p unfolding switch_task_def Let_def sp saved_def [symmetric] by (simp add: upd_proc_def)
qed

text \<open>What is loaded: the registers found in the eight words above the saved stack pointer.\<close>

lemma switch_task_loads:
  assumes g: "g < 2 ^ 40" "j + 7 < 512" and s: "p_rsp (proc (switch_task prev nxt k) nxt) = stack_at g j"
  defines "k' \<equiv> switch_task prev nxt k" and "w \<equiv> \<lambda>i. phys_mem (switch_task prev nxt k) g (j + i)"
  shows "cpu k' = (cpu k)\<lparr>c_cr3 := p_cr3 (proc k nxt), c_r15 := w 0, c_r14 := w 1, c_r13 := w 2, c_r12 := w 3, c_rbp := w 4,
     c_rbx := w 5, c_rflags := w 6, c_rip := w 7, c_rsp := stack_at g (j + 8)\<rparr>"
proof -
  let ?c = "cpu k"
  obtain sp k1 where e: "fold push_qword [c_rflags ?c, c_rbx ?c, c_rbp ?c, c_r12 ?c, c_r13 ?c, c_r14 ?c, c_r15 ?c] (c_rsp ?c, k) = (sp, k1)"
    by fastforce
  let ?k2 = "upd_proc prev (p_rsp_update (\<lambda>_. sp)) k1"
  have sw: "switch_task prev nxt k = (let s = p_rsp (proc ?k2 nxt) in ?k2\<lparr>cpu := ?c\<lparr>c_cr3 := p_cr3 (proc ?k2 nxt),
             c_r15 := load_qword s ?k2, c_r14 := load_qword (s + 8) ?k2, c_r13 := load_qword (s + 16) ?k2,
             c_r12 := load_qword (s + 24) ?k2, c_rbp := load_qword (s + 32) ?k2, c_rbx := load_qword (s + 40) ?k2,
             c_rflags := load_qword (s + 48) ?k2, c_rip := load_qword (s + 56) ?k2, c_rsp := s + 64\<rparr>\<rparr>)"
    unfolding switch_task_def Let_def e by simp
  have s2: "p_rsp (proc ?k2 nxt) = stack_at g j" using s unfolding sw Let_def by (simp del: upd_proc_simps)
  have pm: "phys_mem (switch_task prev nxt k) = phys_mem ?k2" unfolding sw Let_def by simp
  have pc: "proc (switch_task prev nxt k) = proc ?k2" unfolding sw Let_def by simp
  have cr: "p_cr3 (proc ?k2 nxt) = p_cr3 (proc k nxt)" using fun_cong [OF pc, of nxt, symmetric] by simp
  have ld: "load_qword (stack_at g j + of_nat (8 * i)) ?k2 = w i" if "i < 8" for i
    using load_stack [of g "j + i" ?k2] g that unfolding stack_at_add w_def pm by simp
  show ?thesis unfolding k'_def
    using ld [of 0] ld [of 1] ld [of 2] ld [of 3] ld [of 4] ld [of 5] ld [of 6] ld [of 7] stack_at_add [of g j 8]
    unfolding sw Let_def s2 cr by simp
qed

lemma seven_cases: "i < 7 \<Longrightarrow> i = 0 \<or> i = 1 \<or> i = 2 \<or> i = 3 \<or> i = 4 \<or> i = 5 \<or> i = (6 :: nat)"
  by linarith

section \<open>Properties\<close>

text \<open>
  C32: A process that was switched away from resumes exactly where it stopped. If its stack page and its saved stack
  pointer have not been touched while other processes ran on other stacks, switching back restores its callee-saved
  registers, its flags (with the interrupt flag) and its stack pointer, and returns to the address its call of
  \<^verbatim>\<open>switch_task\<close> had pushed, in its own address space.
\<close>

theorem context_switch_roundtrip:
  assumes f: "f < 2 ^ 40" "7 \<le> n" "n < 512" "c_rsp (cpu k) = stack_at f n"
    and g: "g < 2 ^ 40" "7 \<le> n'" "n' \<le> 512" "c_rsp (cpu k2) = stack_at g n'" "g \<noteq> f"
    and ab: "a \<noteq> b" and k2: "phys_mem k2 f = phys_mem (switch_task a b' k) f" "p_rsp (proc k2 a) = p_rsp (proc (switch_task a b' k) a)"
  shows "let c = cpu (switch_task b a k2) in saved c = saved (cpu k) \<and> c_rsp c = c_rsp (cpu k) + 8 \<and>
    c_rip c = load_qword (c_rsp (cpu k)) k \<and> c_cr3 c = p_cr3 (proc k2 a)"
proof -
  let ?k3 = "switch_task b a k2"
  note s1 = switch_task_stack [OF f(1,2) less_imp_le [OF f(3)] f(4)]
  note s2 = switch_task_stack [OF g(1-4)]
  have pm: "phys_mem ?k3 f = phys_mem (switch_task a b' k) f" using g(5) k2(1) by (simp add: s2(2))
  have sp: "p_rsp (proc ?k3 a) = stack_at f (n - 7)" using ab k2(2) s1(1) by simp
  have j: "n - 7 + 7 < 512" using f by simp
  have w: "phys_mem ?k3 f (n - 7 + i) = saved (cpu k) ! (6 - i)" if "i < 7" for i
  proof -
    have h: "n - 1 - (n - 7 + i) = 6 - i" "n - 7 \<le> n - 7 + i" "n - 7 + i < n" using f(2) that by simp_all
    show ?thesis unfolding pm s1(2) fun_upd_same using h by (simp only: h if_True simp_thms)
  qed
  have w7: "phys_mem ?k3 f (n - 7 + 7) = load_qword (c_rsp (cpu k)) k"
    unfolding pm s1(2) f(4) load_stack [OF f(1,3)] using f(2) by simp
  have top: "stack_at f (n - 7 + 8) = c_rsp (cpu k) + 8" using f(2,4) stack_at_add [of f n 1] by simp
  show ?thesis
    unfolding switch_task_loads [OF f(1) j sp] Let_def
    using w [of 0] w [of 1] w [of 2] w [of 3] w [of 4] w [of 5] w [of 6] w7 top
    by (simp add: saved_def)
qed

text \<open>
  C35: The first switch to a new process lands in its start function. The stack that \<^verbatim>\<open>setup_kernel_stack\<close> builds is the one
  \<^verbatim>\<open>switch_task\<close> unwinds: the return address is the given stub, the flags have interrupts enabled, the callee-saved
  registers are zero and the stack pointer is at the top of the page.
\<close>

theorem new_process_starts_at_stub:
  assumes g: "g < 2 ^ 40" "setup_kernel_stack (frame_addr g) stub m = (sp, m')"
    and f: "f < 2 ^ 40" "7 \<le> n" "n \<le> 512" "c_rsp (cpu k) = stack_at f n" "f \<noteq> g"
    and k: "phys_mem k g = phys_mem m' g" "p_rsp (proc k b) = sp" "a \<noteq> b"
  shows "let c = cpu (switch_task a b k) in c_rip c = stub \<and> saved c = [0x202, 0, 0, 0, 0, 0, 0] \<and>
    c_rsp c = frame_addr g + PAGE_SIZE \<and> c_cr3 c = p_cr3 (proc k b)"
proof -
  let ?vs = "[stub, 0x202, 0, 0, 0, 0, 0, 0] :: u64 list" and ?k = "switch_task a b k"
  have top: "frame_addr g + PAGE_SIZE = stack_at g 512" by (simp add: stack_at_def)
  have "fold push_qword ?vs (stack_at g 512, m) = (sp, m')" using g(2) unfolding setup_kernel_stack_def top .
  then have sp: "sp = stack_at g 504" and m': "phys_mem m' g = (\<lambda>i. if 504 \<le> i \<and> i < 512 then ?vs ! (511 - i) else phys_mem m g i)"
    using push_all_stack [OF g(1), of ?vs 512 m] by auto
  note s = switch_task_stack [OF f(1-4)]
  have pm: "phys_mem ?k g = phys_mem m' g" using f(5) k(1) by (simp add: s(2))
  have r: "p_rsp (proc ?k b) = stack_at g 504" using k(2,3) sp by simp
  show ?thesis
    unfolding switch_task_loads [OF g(1) _ r, simplified] Let_def pm m' top by (simp add: saved_def nth_Cons')
qed

section \<open>Witnesses\<close>

definition kern2 :: kern where
  "kern2 = kern0\<lparr>cpu := cpu0\<lparr>c_rsp := stack_at 5 100, c_rbx := 11, c_r15 := 22\<rparr>\<rparr>"

definition kern3 :: kern where
  "kern3 = (switch_task 0x1000 0x4000 kern2)\<lparr>cpu := cpu0\<lparr>c_rsp := stack_at 6 200\<rparr>\<rparr>"

theorem context_switch_roundtrip_witness:
  "c_rbx (cpu (switch_task 0x4000 0x1000 kern3)) = 11 \<and> c_r15 (cpu (switch_task 0x4000 0x1000 kern3)) = 22 \<and>
   c_rsp (cpu (switch_task 0x4000 0x1000 kern3)) = stack_at 5 101"
proof -
  have r: "c_rsp (cpu kern2) = stack_at 5 100" "c_rsp (cpu kern3) = stack_at 6 200" by (simp_all add: kern2_def kern3_def)
  have "phys_mem kern3 5 = phys_mem (switch_task 0x1000 0x4000 kern2) 5"
    "p_rsp (proc kern3 0x1000) = p_rsp (proc (switch_task 0x1000 0x4000 kern2) 0x1000)" by (simp_all add: kern3_def del: switch_task_frame)
  from context_switch_roundtrip [OF _ _ _ r(1) _ _ _ r(2) _ _ this, of "0x4000"]
  have "saved (cpu (switch_task 0x4000 0x1000 kern3)) = saved (cpu kern2)"
    "c_rsp (cpu (switch_task 0x4000 0x1000 kern3)) = stack_at 5 100 + 8" by (simp_all add: Let_def r)
  then show ?thesis using stack_at_add [of 5 100 1] by (simp add: saved_def kern2_def)
qed

definition kern4 :: kern where
  "kern4 = (case setup_kernel_stack (frame_addr 6) 0x300 kern2 of (sp, k) \<Rightarrow> upd_proc 0x4000 (p_rsp_update (\<lambda>_. sp)) k)"

theorem new_process_starts_at_stub_witness:
  "c_rip (cpu (switch_task 0x1000 0x4000 kern4)) = 0x300 \<and> c_rflags (cpu (switch_task 0x1000 0x4000 kern4)) = 0x202"
proof -
  obtain sp k where e: "setup_kernel_stack (frame_addr 6) 0x300 kern2 = (sp, k)" by fastforce
  have m: "machine.more k = machine.more kern2" using push_all_more [of _ "(_, kern2)"] e unfolding setup_kernel_stack_def by (metis snd_conv)
  have ck: "cpu k = cpu kern2" by (rule kern_of_more(6) [OF tasks_of_more(5) [OF m]])
  have r: "c_rsp (cpu kern2) = stack_at 5 100" by (simp add: kern2_def)
  have c: "c_rsp (cpu kern4) = stack_at 5 100" by (simp add: kern4_def e upd_proc_def ck r)
  have p: "phys_mem kern4 6 = phys_mem k 6" "p_rsp (proc kern4 0x4000) = sp" by (simp_all add: kern4_def e upd_proc_def)
  have "let c = cpu (switch_task 0x1000 0x4000 kern4) in c_rip c = 0x300 \<and> saved c = [0x202, 0, 0, 0, 0, 0, 0] \<and>
    c_rsp c = frame_addr 6 + PAGE_SIZE \<and> c_cr3 c = p_cr3 (proc kern4 0x4000)"
    by (rule new_process_starts_at_stub [OF _ e _ _ _ c _ p]) simp_all
  then show ?thesis by (simp add: Let_def saved_def)
qed

end
