(* ===== verification/Fd_Table.thy ===== *)
theory Fd_Table
  imports Proc_Sched
begin

text \<open>
  Descriptor tables and the reference counts of pipes. The number of readers and writers of a pipe is the number of
  descriptors, over all processes, that refer to its ends; every operation on descriptors keeps it so.
\<close>

section \<open>Counting descriptors\<close>

abbreviation fds :: "'a tasks_scheme \<Rightarrow> addr \<Rightarrow> file_descriptor list" where "fds k a \<equiv> p_fd_table (proc k a)"

definition fd_end :: "fd_type \<Rightarrow> addr \<Rightarrow> file_descriptor \<Rightarrow> int" where
  "fd_end t p fd = (if fd_type fd = t \<and> fd_pipe fd = p then 1 else 0)"

definition table_ends :: "fd_type \<Rightarrow> addr \<Rightarrow> file_descriptor list \<Rightarrow> int" where
  "table_ends t p fs = (\<Sum>i < MAX_FDS. fd_end t p (fs ! i))"

definition ends :: "fd_type \<Rightarrow> addr \<Rightarrow> addr set \<Rightarrow> 'a tasks_scheme \<Rightarrow> int" where
  "ends t p P k = (\<Sum>a \<in> P. table_ends t p (fds k a))"

definition end_count :: "fd_type \<Rightarrow> pipe \<Rightarrow> int" where
  "end_count t x = (case t of FD_PIPE_READ \<Rightarrow> sint (pi_readers x) | FD_PIPE_WRITE \<Rightarrow> sint (pi_writers x) | _ \<Rightarrow> 0)"

definition pipe_type :: "fd_type \<Rightarrow> bool" where
  "pipe_type t \<longleftrightarrow> t = FD_PIPE_READ \<or> t = FD_PIPE_WRITE"

definition referenced :: "addr \<Rightarrow> addr set \<Rightarrow> 'a tasks_scheme \<Rightarrow> bool" where
  "referenced p P k \<longleftrightarrow> (\<exists>a \<in> P. \<exists>i < MAX_FDS. pipe_type (fd_type (fds k a ! i)) \<and> fd_pipe (fds k a ! i) = p)"

text \<open>
  The counts are 32-bit integers, so a pipe has room for \<open>2 ^ 31 - 1\<close> descriptors of an end. That many exist only with
  almost \<open>2 ^ 26\<close> processes of 32 descriptors each, whose kernel stacks alone take 256 gigabytes.
\<close>

definition few_processes :: "nat \<Rightarrow> bool" where
  "few_processes n \<longleftrightarrow> n * MAX_FDS < 2 ^ 31 - 1"

lemma few_processes_mono: "few_processes n \<Longrightarrow> m \<le> n \<Longrightarrow> few_processes m"
  by (simp add: few_processes_def)

text \<open>The invariant.\<close>

definition fds_counted :: "'a ipc_scheme \<Rightarrow> addr set \<Rightarrow> bool" where
  "fds_counted k P \<longleftrightarrow> finite P \<and> (\<forall>a \<in> P. length (fds k a) = MAX_FDS) \<and>
     (\<forall>p t. referenced p P k \<and> pipe_type t \<longrightarrow> end_count t (pipe_at k p) = ends t p P k)"

lemma fd_end_01: "0 \<le> fd_end t p fd" "fd_end t p fd \<le> 1"
  by (simp_all add: fd_end_def)

lemma table_ends_nonneg: "0 \<le> table_ends t p fs"
  unfolding table_ends_def by (rule sum_nonneg) (rule fd_end_01)

lemma ends_nonneg: "0 \<le> ends t p P k"
  unfolding ends_def by (rule sum_nonneg) (rule table_ends_nonneg)

lemma table_ends_le: "table_ends t p fs \<le> int MAX_FDS"
  unfolding table_ends_def using sum_bounded_above [of "{..<MAX_FDS}" "\<lambda>i. fd_end t p (fs ! i)" 1] fd_end_01(2) by simp

lemma ends_le: "ends t p P k \<le> int (card P * MAX_FDS)"
  unfolding ends_def using sum_bounded_above [of P "\<lambda>a. table_ends t p (fds k a)" "int MAX_FDS"] table_ends_le by simp

lemma table_ends_upd:
  assumes "length fs = MAX_FDS" "i < MAX_FDS"
  shows "table_ends t p (fs[i := fd]) = table_ends t p fs - fd_end t p (fs ! i) + fd_end t p fd"
proof -
  have e: "fd_end t p (fs[i := fd] ! j) = (if j = i then fd_end t p fd else fd_end t p (fs ! j))" for j
    using assms by (simp add: nth_list_update)
  have "(\<Sum>j < MAX_FDS. fd_end t p (fs[i := fd] ! j)) = fd_end t p fd + (\<Sum>j \<in> {..<MAX_FDS} - {i}. fd_end t p (fs ! j))"
    unfolding e using sum.remove [of "{..<MAX_FDS}" i "\<lambda>j. if j = i then fd_end t p fd else fd_end t p (fs ! j)"] assms(2)
    by (simp add: sum.If_cases)
  moreover have "(\<Sum>j < MAX_FDS. fd_end t p (fs ! j)) = fd_end t p (fs ! i) + (\<Sum>j \<in> {..<MAX_FDS} - {i}. fd_end t p (fs ! j))"
    using sum.remove [of "{..<MAX_FDS}" i "\<lambda>j. fd_end t p (fs ! j)"] assms(2) by simp
  ultimately show ?thesis by (simp add: table_ends_def)
qed

lemma ends_table:
  assumes "finite P" "c \<in> P" "\<And>a. a \<noteq> c \<Longrightarrow> fds k' a = fds k a"
  shows "ends t p P k' = ends t p P k - table_ends t p (fds k c) + table_ends t p (fds k' c)"
proof -
  have "(\<Sum>a \<in> P - {c}. table_ends t p (fds k' a)) = (\<Sum>a \<in> P - {c}. table_ends t p (fds k a))"
    by (rule sum.cong) (use assms(3) in auto)
  then show ?thesis using sum.remove [OF assms(1,2), of "\<lambda>a. table_ends t p (fds k' a)"]
      sum.remove [OF assms(1,2), of "\<lambda>a. table_ends t p (fds k a)"] by (simp add: ends_def)
qed

lemma ends_pos:
  assumes "finite P" "c \<in> P" "i < MAX_FDS" "fd_type (fds k c ! i) = t" "fd_pipe (fds k c ! i) = p"
  shows "0 < ends t p P k"
proof -
  have "fd_end t p (fds k c ! i) = 1" using assms by (simp add: fd_end_def)
  then have "1 \<le> table_ends t p (fds k c)"
    unfolding table_ends_def using member_le_sum [of i "{..<MAX_FDS}" "\<lambda>j. fd_end t p (fds k c ! j)"] assms(3) fd_end_01(1) by fastforce
  moreover have "table_ends t p (fds k c) \<le> ends t p P k"
    unfolding ends_def using member_le_sum [of c P "\<lambda>a. table_ends t p (fds k a)"] assms table_ends_nonneg by blast
  ultimately show ?thesis by simp
qed

lemma unreferenced_ends:
  assumes "\<not> referenced p P k" "pipe_type t"
  shows "ends t p P k = 0"
proof -
  have "table_ends t p (fds k a) = 0" if "a \<in> P" for a
    unfolding table_ends_def by (rule sum.neutral) (use assms that in \<open>auto simp: fd_end_def referenced_def\<close>)
  then show ?thesis by (simp add: ends_def)
qed

section \<open>What leaves descriptors alone\<close>

definition fd_same :: "'a ipc_scheme \<Rightarrow> 'a ipc_scheme \<Rightarrow> bool" where
  "fd_same k k' \<longleftrightarrow> (\<forall>a. fds k' a = fds k a) \<and> (\<forall>p t. end_count t (pipe_at k' p) = end_count t (pipe_at k p))"

lemma fd_same_refl [simp]: "fd_same k k"
  by (simp add: fd_same_def)

lemma fd_same_trans: "fd_same k k' \<Longrightarrow> fd_same k' k'' \<Longrightarrow> fd_same k k''"
  by (simp add: fd_same_def)

lemma fd_same_fds: "fd_same k k' \<Longrightarrow> fds k' a = fds k a"
  by (simp add: fd_same_def)

lemma fd_same_counted: "fd_same k k' \<Longrightarrow> fds_counted k' P = fds_counted k P"
  by (simp add: fds_counted_def fd_same_def referenced_def ends_def)

lemma fd_same_heap:
  fixes k k' :: "'a ipc_scheme"
  assumes "kheap.more k' = kheap.more k"
  shows "fd_same k k'"
  using assms by (cases k; cases k') (simp add: fd_same_def)

lemma fd_same_machine:
  fixes k k' :: "'a ipc_scheme"
  assumes "machine.more k' = machine.more k"
  shows "fd_same k k'"
  using assms by (cases k; cases k') (simp add: fd_same_def)

lemma fd_same_wake: "wake_frame k k' \<Longrightarrow> fd_same k k'"
  unfolding fd_same_def using wake_frame_pipe [of k k'] by (auto simp: wake_frame_def dest: same_processD)

lemma fd_same_upd:
  "(\<And>x. p_fd_table (f x) = p_fd_table x) \<Longrightarrow> fd_same k (upd_proc a f k)"
  using ipc_more [of "upd_proc a f k" k] by (simp add: fd_same_def)

lemma fd_same_pipe:
  "(\<And>x t. end_count t (f x) = end_count t x) \<Longrightarrow> fd_same k (upd_pipe p f k)"
  by (simp add: fd_same_def)

lemma wake_all_frame:
  assumes "wake_all wq k = Some r"
  shows "wake_frame k (snd r)"
proof (rule wake_all.raw_induct [where P = "\<lambda>wq k r. wake_frame k (snd r)", OF _ assms])
  fix wa :: "wait_queue \<Rightarrow> 'a tasks_scheme \<Rightarrow> (wait_queue \<times> 'a tasks_scheme) option" and wq k r
  assume ih: "\<And>wq k r. wa wq k = Some r \<Longrightarrow> wake_frame k (snd r)"
    and st: "(case wait_queue_pop wq k of (p, wq1, k1) \<Rightarrow> if p = NULL then Some (wq1, k1) else wa wq1 (mlfq_enqueue p k1)) = Some r"
  obtain p wq1 k1 where pop: "wait_queue_pop wq k = (p, wq1, k1)" by (cases "wait_queue_pop wq k") auto
  have f: "wake_frame k k1" using wake_frame_ops(2) [of k wq] pop by simp
  show "wake_frame k (snd r)"
  proof (cases "p = NULL")
    case False
    then have "wake_frame (mlfq_enqueue p k1) (snd r)" using st ih pop by simp
    then show ?thesis using wake_frame_trans [OF wake_frame_trans [OF f wake_frame_ops(1)]] by blast
  qed (use st pop f in auto)
qed

lemma pipe_close_end_fds:
  assumes "pipe_close_end p b k = Some k'"
  shows "fds k' a = fds k a" "q \<noteq> p \<Longrightarrow> end_count t (pipe_at k' q) = end_count t (pipe_at k q)"
    "end_count t (pipe_at k' p) = end_count t (drop_end b (pipe_at k p))" "current_process k' = current_process k"
proof -
  let ?k1 = "upd_pipe p (drop_end b) k"
  obtain wq k2 where w: "wake_all (pi_write_waiters (pipe_at ?k1 p)) ?k1 = Some (wq, k2)"
    using assms unfolding pipe_close_end_def close_end_drop Let_def by (auto simp: bind_eq_Some_conv)
  let ?k3 = "upd_pipe p (pi_write_waiters_update (\<lambda>_. wq)) k2"
  obtain wq' k4 where w': "wake_all (pi_read_waiters (pipe_at ?k3 p)) ?k3 = Some (wq', k4)"
    using assms w unfolding pipe_close_end_def close_end_drop Let_def by (auto simp: bind_eq_Some_conv)
  let ?k5 = "upd_pipe p (pi_read_waiters_update (\<lambda>_. wq')) k4"
  obtain fr where k': "k' = (if fr then kfree p ?k5 else ?k5)"
    using assms w w' unfolding pipe_close_end_def close_end_drop Let_def by (auto simp: bind_eq_Some_conv)
  have f1: "wake_frame ?k1 k2" and f2: "wake_frame ?k3 k4" using wake_all_frame [OF w] wake_all_frame [OF w'] by simp_all
  have wt: "end_count t (x\<lparr>pi_write_waiters := v\<rparr>) = end_count t x" "end_count t (x\<lparr>pi_read_waiters := v\<rparr>) = end_count t x" for x t v
    by (simp_all add: end_count_def split: fd_type.split)
  have s: "fd_same ?k1 k2" "fd_same k2 ?k3" "fd_same ?k3 k4" "fd_same k4 ?k5" "fd_same ?k5 k'"
    using fd_same_wake [OF f1] fd_same_wake [OF f2] fd_same_heap [OF more_kfree [of p ?k5]] k'
    by (simp_all add: fd_same_pipe wt)
  then have sm: "fd_same ?k1 k'" by (blast intro: fd_same_trans)
  show "fds k' a = fds k a" "q \<noteq> p \<Longrightarrow> end_count t (pipe_at k' q) = end_count t (pipe_at k q)"
    "end_count t (pipe_at k' p) = end_count t (drop_end b (pipe_at k p))"
    using sm by (simp_all add: fd_same_def)
  show "current_process k' = current_process k" using f1 f2 k' by (simp add: wake_frame_def)
qed

section \<open>Operations on one descriptor\<close>

lemma set_fd_simps [simp]:
  "fds (set_fd c i f k) a = (if a = c then (fds k c)[i := f (fds k c ! i)] else fds k a)"
  "current_process (set_fd c i f k) = current_process k" "tasks.more (set_fd c i f k) = tasks.more k"
  by (simp_all add: set_fd_def)

lemma set_fd_pipe [simp]: "pipe_at (set_fd c i f k) = pipe_at k"
  by (rule ipc_more) simp

lemma share_fd_simps [simp]:
  "proc (share_fd fd k) = proc k" "current_process (share_fd fd k) = current_process k"
  by (simp_all add: share_fd_def split: fd_type.split)

text \<open>One step of a 32-bit count that stays in range.\<close>

lemma sint_inc: "sint (w + 1) = sint w + 1" if "sint w < 2 ^ 31 - 1" for w :: i32
proof -
  have "w + 1 = word_of_int (sint w + 1)" by simp
  then show ?thesis using sint_small [where ?'a = 32, of "sint w + 1"] sint_ge [of w] that by simp
qed

lemma sint_dec: "sint (w - 1) = sint w - 1" if "0 < sint w" for w :: i32
proof -
  have "w - 1 = word_of_int (sint w - 1)" by simp
  then show ?thesis using sint_small [where ?'a = 32, of "sint w - 1"] sint_lt [of w] that by simp
qed

lemma share_fd_count:
  "pipe_type t \<Longrightarrow> (fd_type fd = t \<Longrightarrow> fd_pipe fd = p \<Longrightarrow> end_count t (pipe_at k p) < 2 ^ 31 - 1) \<Longrightarrow>
     end_count t (pipe_at (share_fd fd k) p) = end_count t (pipe_at k p) + fd_end t p fd"
  by (cases "fd_type fd") (auto simp: share_fd_def fd_end_def end_count_def pipe_type_def sint_inc)

lemma drop_fd_fds:
  assumes "drop_fd fd k = Some k'"
  shows "fds k' a = fds k a" "current_process k' = current_process k"
    "pipe_type t \<Longrightarrow> (fd_type fd = t \<Longrightarrow> fd_pipe fd = p \<Longrightarrow> 0 < end_count t (pipe_at k p)) \<Longrightarrow>
       end_count t (pipe_at k' p) = end_count t (pipe_at k p) - fd_end t p fd"
proof -
  consider "fd_type fd = FD_PIPE_READ" "pipe_close_end (fd_pipe fd) True k = Some k'"
    | "fd_type fd = FD_PIPE_WRITE" "pipe_close_end (fd_pipe fd) False k = Some k'"
    | "\<not> pipe_type (fd_type fd)" "k' = k"
    using assms by (auto simp: drop_fd_def pipe_type_def split: fd_type.splits)
  note cs = this
  show "fds k' a = fds k a" "current_process k' = current_process k" using cs pipe_close_end_fds(1,4) by metis+
  show "end_count t (pipe_at k' p) = end_count t (pipe_at k p) - fd_end t p fd"
    if t: "pipe_type t" "fd_type fd = t \<Longrightarrow> fd_pipe fd = p \<Longrightarrow> 0 < end_count t (pipe_at k p)"
    using cs
  proof cases
    case 1
    show ?thesis using pipe_close_end_fds(2,3) [OF 1(2)] t 1(1)
      by (cases "p = fd_pipe fd") (auto simp: fd_end_def drop_end_def end_count_def pipe_type_def sint_dec)
  next
    case 2
    show ?thesis using pipe_close_end_fds(2,3) [OF 2(2)] t 2(1)
      by (cases "p = fd_pipe fd") (auto simp: fd_end_def drop_end_def end_count_def pipe_type_def sint_dec)
  qed (use t in \<open>auto simp: fd_end_def\<close>)
qed

text \<open>One process's table has changed, and the counts with it.\<close>

lemma counted_table:
  assumes inv: "fds_counted k P" and c: "c \<in> P" "length (fds k' c) = MAX_FDS" "\<And>a. a \<in> P \<Longrightarrow> a \<noteq> c \<Longrightarrow> fds k' a = fds k a"
    and old: "\<And>p t. pipe_type t \<Longrightarrow> referenced p P k \<Longrightarrow>
       end_count t (pipe_at k' p) = end_count t (pipe_at k p) - table_ends t p (fds k c) + table_ends t p (fds k' c)"
    and new: "\<And>p t. pipe_type t \<Longrightarrow> \<not> referenced p P k \<Longrightarrow> referenced p P k' \<Longrightarrow> end_count t (pipe_at k' p) = table_ends t p (fds k' c)"
  shows "fds_counted k' P"
  unfolding fds_counted_def
proof (intro conjI ballI allI impI)
  have fin: "finite P" using inv by (simp add: fds_counted_def)
  then show "finite P" .
  show "length (fds k' a) = MAX_FDS" if "a \<in> P" for a using that c inv by (cases "a = c") (simp_all add: fds_counted_def)
  fix p t assume r: "referenced p P k' \<and> pipe_type t"
  have "ends t p P k' = ends t p P k - table_ends t p (fds k c) + table_ends t p (fds k' c)"
  proof -
    have "(\<Sum>a \<in> P - {c}. table_ends t p (fds k' a)) = (\<Sum>a \<in> P - {c}. table_ends t p (fds k a))"
      by (rule sum.cong) (use c(3) in auto)
    then show ?thesis using sum.remove [OF fin c(1), of "\<lambda>a. table_ends t p (fds k' a)"]
        sum.remove [OF fin c(1), of "\<lambda>a. table_ends t p (fds k a)"] by (simp add: ends_def)
  qed
  moreover have "\<not> referenced p P k \<Longrightarrow> table_ends t p (fds k c) \<le> 0"
    using unreferenced_ends [of p P k t] r member_le_sum [of c P "\<lambda>a. table_ends t p (fds k a)"] c(1) fin table_ends_nonneg
    by (fastforce simp: ends_def)
  ultimately show "end_count t (pipe_at k' p) = ends t p P k'"
    using old [of t p] new [of t p] r inv unreferenced_ends [of p P k t] table_ends_nonneg [of t p "fds k c"]
    by (cases "referenced p P k") (auto simp: fds_counted_def)
qed

lemma countedD:
  assumes "fds_counted k P"
  shows "finite P" "a \<in> P \<Longrightarrow> length (fds k a) = MAX_FDS"
    "referenced p P k \<Longrightarrow> pipe_type t \<Longrightarrow> end_count t (pipe_at k p) = ends t p P k"
    "a \<in> P \<Longrightarrow> i < MAX_FDS \<Longrightarrow> pipe_type (fd_type (fds k a ! i)) \<Longrightarrow>
       0 < end_count (fd_type (fds k a ! i)) (pipe_at k (fd_pipe (fds k a ! i)))"
proof -
  show "finite P" "a \<in> P \<Longrightarrow> length (fds k a) = MAX_FDS"
    "referenced p P k \<Longrightarrow> pipe_type t \<Longrightarrow> end_count t (pipe_at k p) = ends t p P k" for a p t
    using assms by (simp_all add: fds_counted_def)
  assume a: "a \<in> P" "i < MAX_FDS" "pipe_type (fd_type (fds k a ! i))"
  then have "referenced (fd_pipe (fds k a ! i)) P k" by (auto simp: referenced_def)
  then show "0 < end_count (fd_type (fds k a ! i)) (pipe_at k (fd_pipe (fds k a ! i)))"
    using assms a ends_pos [of P a i k] by (simp add: fds_counted_def)
qed

text \<open>There is room for one more descriptor of an end that has one.\<close>

lemma counted_room:
  assumes inv: "fds_counted k P" and few: "few_processes (card P)" and a: "a \<in> P" "i < MAX_FDS" "pipe_type t"
    and fd: "fd_type (fds k a ! i) = t" "fd_pipe (fds k a ! i) = p"
  shows "end_count t (pipe_at k p) < 2 ^ 31 - 1"
proof -
  have "referenced p P k" using a fd by (auto simp: referenced_def)
  then have "end_count t (pipe_at k p) = ends t p P k" by (rule countedD(3) [OF inv _ a(3)])
  then show ?thesis using ends_le [of t p P k] few by (simp add: few_processes_def)
qed

text \<open>Replacing descriptor \<open>i\<close> of process \<open>c\<close> by \<open>fd\<close>, after closing the old one and counting the new one.\<close>

lemma counted_replace:
  assumes inv: "fds_counted k P" and c: "c \<in> P" "i < MAX_FDS" and t: "\<And>a. fds k' a = (if a = c then (fds k c)[i := fd] else fds k a)"
    and cnt: "\<And>p t. pipe_type t \<Longrightarrow> end_count t (pipe_at k' p) = end_count t (pipe_at k p) - fd_end t p (fds k c ! i) + fd_end t p fd"
    and fd: "pipe_type (fd_type fd) \<Longrightarrow> referenced (fd_pipe fd) P k"
  shows "fds_counted k' P"
proof (rule counted_table [OF inv c(1)])
  note l = countedD(2) [OF inv c(1)]
  show "length (fds k' c) = MAX_FDS" "\<And>a. a \<in> P \<Longrightarrow> a \<noteq> c \<Longrightarrow> fds k' a = fds k a" using t l by simp_all
  fix p t' assume t': "pipe_type t'"
  show "end_count t' (pipe_at k' p) = end_count t' (pipe_at k p) - table_ends t' p (fds k c) + table_ends t' p (fds k' c)"
    using cnt [OF t'] table_ends_upd [OF l c(2)] t by simp
  assume n: "\<not> referenced p P k" "referenced p P k'"
  have "referenced p P k"
  proof -
    obtain a j where a: "a \<in> P" "j < MAX_FDS" "pipe_type (fd_type (fds k' a ! j))" "fd_pipe (fds k' a ! j) = p"
      using n(2) by (auto simp: referenced_def)
    show ?thesis
    proof (cases "a = c \<and> j = i")
      case True
      then show ?thesis using a fd t l c by simp
    next
      case False
      then have "fds k' a ! j = fds k a ! j" using t by auto
      then show ?thesis using a by (auto simp: referenced_def)
    qed
  qed
  then show "end_count t' (pipe_at k' p) = table_ends t' p (fds k' c)" using n by simp
qed

section \<open>The system calls on descriptors\<close>

abbreviation closed :: "file_descriptor \<Rightarrow> file_descriptor" where
  "closed fd \<equiv> fd\<lparr>fd_type := FD_NONE, fd_node := NULL, fd_pipe := NULL\<rparr>"

lemma fd_end_none [simp]: "pipe_type t \<Longrightarrow> \<not> pipe_type (fd_type fd) \<Longrightarrow> fd_end t p fd = 0"
  by (auto simp: fd_end_def)

lemma drop_fd_counted:
  assumes inv: "fds_counted k P" and c: "c \<in> P" "i < MAX_FDS" and d: "drop_fd (fds k c ! i) k = Some k1" and t: "pipe_type t"
  shows "end_count t (pipe_at k1 p) = end_count t (pipe_at k p) - fd_end t p (fds k c ! i)"
  by (rule drop_fd_fds(3) [OF d t]) (use countedD(4) [OF inv c] t in auto)

lemma close_fd_counted:
  assumes inv: "fds_counted k P" and c: "c \<in> P" "i < MAX_FDS" and r: "close_fd c i k = Some k'"
  shows "fds_counted k' P" "fds k' a = (if a = c then (fds k c)[i := closed (fds k c ! i)] else fds k a)"
proof -
  obtain k1 where d: "drop_fd (fds k c ! i) k = Some k1" and k': "k' = set_fd c i closed k1"
    using r by (auto simp: close_fd_def bind_eq_Some_conv)
  show f: "fds k' a = (if a = c then (fds k c)[i := closed (fds k c ! i)] else fds k a)" for a
    using drop_fd_fds(1) [OF d] by (simp add: k')
  show "fds_counted k' P"
    by (rule counted_replace [OF inv c f]) (use drop_fd_counted [OF inv c d] in \<open>simp_all add: k' pipe_type_def\<close>)
qed

lemma release_counted:
  fixes k :: "'a ipc_scheme"
  assumes "fds_counted k P" "c \<in> P" "\<forall>i \<in> set is. i < MAX_FDS" "fold (\<lambda>i r. Option.bind r (close_fd c i)) is (Some k) = Some k'"
  shows "fds_counted k' P"
  using assms
proof (induction "is" arbitrary: k)
  case (Cons i js)
  have n: "fold (\<lambda>i r. Option.bind r (close_fd c i)) xs None = (None :: 'a ipc_scheme option)" for xs by (induction xs) simp_all
  obtain k1 where k1: "close_fd c i k = Some k1" using Cons.prems(4) n by (cases "close_fd c i k") auto
  then show ?case using Cons.IH [of k1] Cons.prems close_fd_counted(1) [OF Cons.prems(1,2) _ k1] by simp
qed simp

lemma process_release_fds_counted:
  "fds_counted k P \<Longrightarrow> c \<in> P \<Longrightarrow> process_release_fds c k = Some k' \<Longrightarrow> fds_counted k' P"
  unfolding process_release_fds_def by (rule release_counted [of k P c "[0..<MAX_FDS]"]) auto

lemma sys_close_counted:
  assumes inv: "fds_counted k P" and c: "current_process k \<in> P" and r: "sys_close f k = Some (r, k')"
  shows "fds_counted k' P"
proof (cases "f_rdi f \<ge> 3 \<and> f_rdi f < of_nat MAX_FDS")
  case True
  then have "unat (f_rdi f) < MAX_FDS" by (simp add: word_less_nat_alt)
  then show ?thesis using True r close_fd_counted(1) [OF inv c] by (auto simp: sys_close_def)
qed (use r inv in \<open>auto simp: sys_close_def\<close>)

lemma free_fd_bound: "free_fd m k = Some i \<Longrightarrow> m \<le> i \<and> i < MAX_FDS \<and> fd_type (cur_fd i k) = FD_NONE"
  by (auto simp: free_fd_def find_Some_iff simp del: upt_rec_numeral)

lemma sys_open_counted:
  assumes inv: "fds_counted k P" and c: "current_process k \<in> P" and r: "sys_open f k = Some (r, k')"
  shows "fds_counted k' P"
proof -
  obtain found where fo: "find_user_path (f_rdi f) k = Some found" using r by (auto simp: sys_open_def bind_eq_Some_conv)
  have "k' = k \<or> (\<exists>i node. free_fd 3 k = Some i \<and> k' = set_fd (current_process k) i
      (\<lambda>fd. fd\<lparr>fd_type := FD_VFS, fd_node := node, fd_offset := 0, fd_flags := ucast (f_rsi f)\<rparr>) k)"
    using r fo by (cases found; cases "free_fd 3 k") (auto simp: sys_open_def split: if_splits)
  then consider "k' = k" | i node where "free_fd 3 k = Some i" "k' = set_fd (current_process k) i
      (\<lambda>fd. fd\<lparr>fd_type := FD_VFS, fd_node := node, fd_offset := 0, fd_flags := ucast (f_rsi f)\<rparr>) k" by blast
  then show ?thesis
  proof cases
    case (2 i node)
    note b = free_fd_bound [OF 2(1)]
    let ?g = "\<lambda>fd. fd\<lparr>fd_type := FD_VFS, fd_node := node, fd_offset := 0, fd_flags := ucast (f_rsi f)\<rparr> :: file_descriptor"
    show ?thesis
      by (rule counted_replace [OF inv c, of i k' "?g (cur_fd i k)"]) (use b 2 in \<open>auto simp: pipe_type_def fd_end_def\<close>)
  qed (simp add: inv)
qed

lemma sys_dup_counted:
  assumes inv: "fds_counted k P" and few: "few_processes (card P)" and c: "current_process k \<in> P" and r: "sys_dup f k = (r, k')"
  shows "fds_counted k' P"
proof (cases "c_int (f_rdi f) < 0 \<or> c_int (f_rdi f) \<ge> int MAX_FDS \<or> fd_type (cur_fd (nat (c_int (f_rdi f))) k) = FD_NONE")
  case False
  let ?o = "nat (c_int (f_rdi f))" and ?c = "current_process k"
  have o: "?o < MAX_FDS" using False by auto
  show ?thesis
  proof (cases "free_fd 3 k")
    case (Some i)
    note b = free_fd_bound [OF Some]
    have k': "k' = share_fd (cur_fd ?o k) (set_fd ?c i (\<lambda>_. cur_fd ?o k) k)"
      using r False Some by (auto simp: sys_dup_def Let_def)
    have "end_count t (pipe_at k' p) = end_count t (pipe_at k p) + fd_end t p (cur_fd ?o k)" if "pipe_type t" for t p
      unfolding k' using share_fd_count [OF that, of "cur_fd ?o k" p "set_fd ?c i (\<lambda>_. cur_fd ?o k) k"]
        counted_room [OF inv few c o that] by simp
    then show ?thesis
      by (intro counted_replace [OF inv c, of i k' "cur_fd ?o k"])
        (use b o c in \<open>auto simp: k' pipe_type_def fd_end_def referenced_def\<close>)
  qed (use r False inv in \<open>auto simp: sys_dup_def Let_def\<close>)
qed (use r inv in \<open>auto simp: sys_dup_def Let_def\<close>)

lemma sys_dup2_counted:
  assumes inv: "fds_counted k P" and few: "few_processes (card P)" and c: "current_process k \<in> P" and r: "sys_dup2 f k = Some (r, k')"
  shows "fds_counted k' P"
proof -
  let ?o = "c_int (f_rdi f)" and ?n = "c_int (f_rsi f)" and ?c = "current_process k"
  consider "k' = k" | k1 where "\<not> (?o < 0 \<or> ?o \<ge> int MAX_FDS \<or> ?n < 0 \<or> ?n \<ge> int MAX_FDS)"
      "drop_fd (cur_fd (nat ?n) k) k = Some k1"
      "k' = share_fd (cur_fd (nat ?o) k1) (set_fd (current_process k1) (nat ?n) (\<lambda>_. cur_fd (nat ?o) k1) k1)"
    using r by (auto simp: sys_dup2_def Let_def bind_eq_Some_conv split: if_splits)
  then show ?thesis
  proof cases
    case (2 k1)
    have b: "nat ?o < MAX_FDS" "nat ?n < MAX_FDS" using 2(1) by auto
    note d = drop_fd_fds(1,2) [OF 2(2)]
    have k': "k' = share_fd (cur_fd (nat ?o) k) (set_fd ?c (nat ?n) (\<lambda>_. cur_fd (nat ?o) k) k1)" using 2(3) d by simp
    have "end_count t (pipe_at k' p) = end_count t (pipe_at k p) - fd_end t p (cur_fd (nat ?n) k) + fd_end t p (cur_fd (nat ?o) k)"
      if t: "pipe_type t" for t p
    proof -
      have k1: "end_count t (pipe_at k1 p) = end_count t (pipe_at k p) - fd_end t p (cur_fd (nat ?n) k)"
        by (rule drop_fd_counted [OF inv c b(2) 2(2) t])
      then have "end_count t (pipe_at k1 p) < 2 ^ 31 - 1" if "fd_type (cur_fd (nat ?o) k) = t" "fd_pipe (cur_fd (nat ?o) k) = p"
        using counted_room [OF inv few c b(1) t that] fd_end_01(1) [of t p "cur_fd (nat ?n) k"] by linarith
      then show ?thesis
        unfolding k' using share_fd_count [OF t, of "cur_fd (nat ?o) k" p "set_fd ?c (nat ?n) (\<lambda>_. cur_fd (nat ?o) k) k1"] k1 by simp
    qed
    then show ?thesis
      by (intro counted_replace [OF inv c b(2), of k' "cur_fd (nat ?o) k"]) (use b c d in \<open>auto simp: k' referenced_def\<close>)
  qed (simp add: inv)
qed

lemma rest_store_mapped [simp]: "machine.more (snd (store_mapped r va b m)) = machine.more m"
  by (simp add: store_mapped_def split: option.split)

lemma rest_user_store [simp]: "machine.more (snd (user_store r va b m)) = machine.more m"
proof -
  obtain x m1 where 1: "store_mapped r va b m = (x, m1)" by fastforce
  obtain y m2 where 2: "vmm_handle_cow_fault r va m1 = (y, m2)" by fastforce
  have "machine.more m1 = machine.more m" "machine.more m2 = machine.more m1"
    using rest_store_mapped [of r va b m] rest_cow_fault [of r va m1] 1 2 by simp_all
  then show ?thesis using 1 2 rest_store_mapped [of r va b m2] by (cases x; cases y) (simp_all add: user_store_def)
qed

lemma rest_copy_to_user [simp]: "machine.more (snd (copy_to_user r a bs m)) = machine.more m"
proof (induction bs arbitrary: a m)
  case (Cons b bs)
  obtain x m1 where 1: "user_store r a b m = (x, m1)" by fastforce
  have "machine.more m1 = machine.more m" using rest_user_store [of r a b m] 1 by simp
  then show ?case using 1 Cons by (cases x) simp_all
qed simp

lemma copy_to_user_fds: "copy_to_user r a bs k = (x, k') \<Longrightarrow> fd_same k k'"
  using rest_copy_to_user [of r a bs k] by (intro fd_same_machine) simp

lemma copy_to_user_current:
  fixes k :: "'a tasks_scheme"
  shows "copy_to_user r a bs k = (x, k') \<Longrightarrow> current_process k' = current_process k"
  using rest_copy_to_user [of r a bs k] tasks_of_more(3) [of k' k] by simp

text \<open>Two free descriptors are replaced; \<open>p\<close> is a pipe nothing referred to.\<close>

lemma counted_two:
  assumes inv: "fds_counted k P" and c: "c \<in> P" "i < MAX_FDS" "j < MAX_FDS" "i \<noteq> j" "\<not> referenced p P k"
    and free: "fd_type (fds k c ! i) = FD_NONE" "fd_type (fds k c ! j) = FD_NONE"
    and t: "\<And>a. fds k' a = (if a = c then (fds k c)[i := x, j := y] else fds k a)"
    and xy: "pipe_type (fd_type x) \<Longrightarrow> fd_pipe x = p" "pipe_type (fd_type y) \<Longrightarrow> fd_pipe y = p"
    and same: "\<And>q t. pipe_type t \<Longrightarrow> q \<noteq> p \<Longrightarrow> end_count t (pipe_at k' q) = end_count t (pipe_at k q)"
    and at_p: "\<And>t. pipe_type t \<Longrightarrow> referenced p P k' \<Longrightarrow> end_count t (pipe_at k' p) = fd_end t p x + fd_end t p y"
  shows "fds_counted k' P"
proof (rule counted_table [OF inv c(1)])
  note l = countedD(2) [OF inv c(1)]
  show "length (fds k' c) = MAX_FDS" "\<And>a. a \<in> P \<Longrightarrow> a \<noteq> c \<Longrightarrow> fds k' a = fds k a" using t l by simp_all
  fix q t' assume t': "pipe_type t'"
  have te: "table_ends t' q (fds k' c) = table_ends t' q (fds k c) + fd_end t' q x + fd_end t' q y"
    using table_ends_upd [of "(fds k c)[i := x]" j t' q y] table_ends_upd [OF l c(2), of t' q x] l c free t' t
    by (auto simp: fd_end_def pipe_type_def)
  show "end_count t' (pipe_at k' q) = end_count t' (pipe_at k q) - table_ends t' q (fds k c) + table_ends t' q (fds k' c)"
    if "referenced q P k"
  proof -
    have "q \<noteq> p" using that c(5) by auto
    then have "fd_end t' q x = 0" "fd_end t' q y = 0" using xy t' by (auto simp: fd_end_def)
    then show ?thesis using te same [OF t' \<open>q \<noteq> p\<close>] by simp
  qed
  assume n: "\<not> referenced q P k" "referenced q P k'"
  obtain a b where a: "a \<in> P" "b < MAX_FDS" "pipe_type (fd_type (fds k' a ! b))" "fd_pipe (fds k' a ! b) = q"
    using n(2) by (auto simp: referenced_def)
  have "a = c \<and> (b = i \<or> b = j)"
  proof (rule ccontr)
    assume "\<not> (a = c \<and> (b = i \<or> b = j))"
    then have "fds k' a ! b = fds k a ! b" using t by auto
    then show False using a n(1) by (auto simp: referenced_def)
  qed
  then have q: "q = p" using a t xy l c by (auto simp: nth_list_update)
  have "table_ends t' p (fds k c) = 0"
    unfolding table_ends_def by (rule sum.neutral) (use c t' in \<open>auto simp: fd_end_def referenced_def\<close>)
  then show "end_count t' (pipe_at k' q) = table_ends t' q (fds k' c)" using te at_p [OF t'] n(2) q by simp
qed

lemma sys_pipe_counted:
  assumes inv: "fds_counted k P" and c: "current_process k \<in> P" and r: "sys_pipe f k = Some (r, k')"
    and new: "\<not> referenced (fst (pipe_create k)) P k"
  shows "fds_counted k' P"
proof (cases "free_fd 3 k")
  case (Some i)
  show ?thesis
  proof (cases "free_fd (i + 1) k")
    case (Some j)
    obtain p k1 where pc: "pipe_create k = (p, k1)" by fastforce
    note b = free_fd_bound [OF \<open>free_fd 3 k = Some i\<close>] free_fd_bound [OF Some]
    obtain k0 where km: "kmalloc pipe_bytes k = (p, k0)" "k1 = (if p = NULL then k0 else upd_pipe p (\<lambda>_. new_pipe) k0)"
      using pc by (auto simp: pipe_create_def split: prod.splits if_splits)
    have s0: "fd_same k k0" by (rule fd_same_heap [OF more_kmalloc [OF km(1)]])
    have f1: "fds k1 a = fds k a" for a using fd_same_fds [OF s0] km(2) by simp
    have cp: "current_process k1 = current_process k" using more_kmalloc [OF km(1)] km(2) by (cases k; cases k0) auto
    show ?thesis
    proof (cases "p = NULL")
      case True
      then show ?thesis using r \<open>free_fd 3 k = Some i\<close> Some pc km(2) inv fd_same_counted [OF s0] by (auto simp: sys_pipe_def)
    next
      case False
      let ?c = "current_process k"
      let ?x = "\<lambda>fd. fd\<lparr>fd_type := FD_PIPE_READ, fd_pipe := p\<rparr> :: file_descriptor"
      let ?y = "\<lambda>fd. fd\<lparr>fd_type := FD_PIPE_WRITE, fd_pipe := p\<rparr> :: file_descriptor"
      let ?z = "\<lambda>fd. fd\<lparr>fd_type := FD_NONE, fd_pipe := NULL\<rparr> :: file_descriptor"
      let ?k3 = "set_fd ?c j ?y (set_fd ?c i ?x k1)"
      have ij: "i \<noteq> j" "i < MAX_FDS" "j < MAX_FDS" using b by auto
      have l: "length (fds k ?c) = MAX_FDS" by (rule countedD(2) [OF inv c])
      have c3: "end_count t (pipe_at ?k3 q) = (if q = p then end_count t new_pipe else end_count t (pipe_at k q))" for t q
        using s0 km(2) False by (simp add: fd_same_def)
      obtain ok k4 where cu: "copy_to_user (cur_space ?k3) (f_rdi f) (le_bytes 4 (of_nat i) @ le_bytes 4 (of_nat j)) ?k3 = (ok, k4)" by fastforce
      note s4 = copy_to_user_fds [OF cu]
      have f4: "fds k4 a = (if a = ?c then (fds k ?c)[i := ?x (fds k ?c ! i), j := ?y (fds k ?c ! j)] else fds k a)" for a
        using fd_same_fds [OF s4] f1 ij by simp
      have c4: "end_count t (pipe_at k4 q) = (if q = p then end_count t new_pipe else end_count t (pipe_at k q))" for t q
        using s4 c3 by (simp add: fd_same_def)
      have np: "\<not> referenced p P k" using new pc by simp
      show ?thesis
      proof (cases ok)
        case True
        then have k': "k' = k4" using r \<open>free_fd 3 k = Some i\<close> Some pc False cp cu by (simp add: sys_pipe_def Let_def)
        show ?thesis unfolding k'
          by (rule counted_two [OF inv c ij(2,3,1) np _ _ f4])
            (use b c4 in \<open>auto simp: fd_end_def end_count_def new_pipe_def pipe_type_def\<close>)
      next
        case False
        then obtain k5 k6 where cl: "pipe_close_end p True k4 = Some k5" "pipe_close_end p False k5 = Some k6"
          and k': "k' = set_fd ?c j ?z (set_fd ?c i ?z k6)"
          using r \<open>free_fd 3 k = Some i\<close> Some pc \<open>p \<noteq> NULL\<close> cp cu by (auto simp: sys_pipe_def Let_def bind_eq_Some_conv)
        note e5 = pipe_close_end_fds [OF cl(1)] and e6 = pipe_close_end_fds [OF cl(2)]
        have f': "fds k' a = (if a = ?c then (fds k ?c)[i := ?z (?x (fds k ?c ! i)), j := ?z (?y (fds k ?c ! j))] else fds k a)" for a
          using f4 e5(1) e6(1) ij l by (simp add: k' list_update_swap)
        have c': "end_count t (pipe_at k' q) = end_count t (pipe_at k q)" if "q \<noteq> p" for t q
          using e5(2) e6(2) c4 that by (simp add: k')
        have nr: "\<not> referenced p P k'"
          using np f' ij l by (auto simp: referenced_def nth_list_update pipe_type_def split: if_splits)
        show ?thesis
          by (rule counted_two [OF inv c ij(2,3,1) np _ _ f']) (use b c' nr in \<open>auto simp: pipe_type_def\<close>)
      qed
    qed
  qed (use r Some inv in \<open>auto simp: sys_pipe_def\<close>)
qed (use r inv in \<open>auto simp: sys_pipe_def\<close>)

section \<open>Fork and clone\<close>

lemma fds_counted_cong:
  assumes "\<And>a. a \<in> P \<Longrightarrow> fds k' a = fds k a" "\<And>p t. end_count t (pipe_at k' p) = end_count t (pipe_at k p)"
  shows "fds_counted k' P = fds_counted k P"
proof -
  have "referenced p P k' = referenced p P k" "ends t p P k' = ends t p P k" for p t
    using assms(1) by (auto simp: referenced_def ends_def intro!: sum.cong)
  then show ?thesis using assms by (simp add: fds_counted_def)
qed

lemma fold_share_fd_proc: "proc (fold (\<lambda>i s. share_fd (fds s c ! i) s) is k) = proc k"
  by (induction "is" arbitrary: k) simp_all

lemma fold_share_fd:
  assumes "pipe_type t" "\<And>i. i < n \<Longrightarrow> fd_type (fds k c ! i) = t \<Longrightarrow> fd_pipe (fds k c ! i) = p \<Longrightarrow> end_count t (pipe_at k p) + int n < 2 ^ 31"
  shows "end_count t (pipe_at (fold (\<lambda>i s. share_fd (fds s c ! i) s) [0..<n] k) p) =
      end_count t (pipe_at k p) + (\<Sum>i < n. fd_end t p (fds k c ! i))"
  using assms(2)
proof (induction n)
  case (Suc n)
  let ?k = "fold (\<lambda>i s. share_fd (fds s c ! i) s) [0..<n] k"
  have "end_count t (pipe_at k p) + int n < 2 ^ 31" if "i < n" "fd_type (fds k c ! i) = t" "fd_pipe (fds k c ! i) = p" for i
    using Suc.prems [of i] that by simp
  then have ih: "end_count t (pipe_at ?k p) = end_count t (pipe_at k p) + (\<Sum>i < n. fd_end t p (fds k c ! i))" by (rule Suc.IH)
  have "(\<Sum>i < n. fd_end t p (fds k c ! i)) \<le> int n"
    using sum_bounded_above [of "{..<n}" "\<lambda>i. fd_end t p (fds k c ! i)" 1] fd_end_01(2) by simp
  then have "fd_type (fds k c ! n) = t \<Longrightarrow> fd_pipe (fds k c ! n) = p \<Longrightarrow> end_count t (pipe_at ?k p) < 2 ^ 31 - 1"
    using Suc.prems [of n] ih by simp
  then show ?case using share_fd_count [OF assms(1), of "fds ?k c ! n" p ?k] ih by (simp add: fold_share_fd_proc)
qed simp

lemma clone_space_fds:
  assumes "clone_space parent fl k = (s, k')"
  shows "fd_same k k'"
proof (cases "fl AND CLONE_VM \<noteq> 0 \<and> p_vm_refcount (proc k parent) = NULL")
  case True
  obtain rc k1 where km: "kmalloc 8 k = (rc, k1)" by fastforce
  let ?k2 = "upd_proc parent (p_vm_refcount_update (\<lambda>_. rc)) k1"
  have "fd_same k ?k2" by (rule fd_same_trans [OF fd_same_heap [OF more_kmalloc [OF km]] fd_same_upd]) simp
  then show ?thesis using assms True km by (auto simp: clone_space_def Let_def fd_same_def split: if_splits)
next
  case False
  have "fd_same k (snd (vmm_clone_user_pagetable (p_cr3 (proc k parent)) k))" by (rule fd_same_machine) simp
  then show ?thesis using assms False by (auto simp: clone_space_def split: if_splits prod.splits option.splits)
qed

lemma drop_space_fds: "fd_same k (drop_space s k)"
  using fd_same_machine [of "vmm_destroy_user_pagetable (Some (fst s)) k" k] by (simp add: drop_space_def)

lemma enqueue_process_fds: "fd_same k (enqueue_process p k)"
proof (cases "process_queue k = NULL")
  case True
  then show ?thesis
    using ipc_more [of "upd_proc p (p_prev_update (\<lambda>_. p)) (upd_proc p (p_next_update (\<lambda>_. p)) (k\<lparr>process_queue := p\<rparr>))" k]
    by (simp add: enqueue_process_def fd_same_def)
next
  case False
  then show ?thesis unfolding enqueue_process_def Let_def
    by (simp only: if_False) (intro fd_same_trans [OF _ fd_same_upd] fd_same_refl; simp)
qed

lemma start_process_fds: "fd_same k (start_process p k)"
  unfolding start_process_def
  by (intro fd_same_trans [OF _ fd_same_wake [OF wake_frame_ops(1)]] fd_same_trans [OF enqueue_process_fds fd_same_upd]) simp

lemma setup_kernel_stack_fds: "setup_kernel_stack b stub k = (sp, k') \<Longrightarrow> fd_same k k'"
  using push_all_more [of "[stub, 0x202, 0, 0, 0, 0, 0, 0]" "(b + PAGE_SIZE, k)"]
  by (intro fd_same_machine) (simp only: setup_kernel_stack_def snd_conv)

text \<open>A new process with a copy of the table of one of the old ones.\<close>

lemma counted_copy:
  assumes inv: "fds_counted k P" and p: "par \<in> P" "c \<notin> P"
    and t: "fds k' c = fds k par" "\<And>a. a \<in> P \<Longrightarrow> fds k' a = fds k a"
    and n: "\<And>q t. pipe_type t \<Longrightarrow> end_count t (pipe_at k' q) = end_count t (pipe_at k q) + table_ends t q (fds k par)"
  shows "fds_counted k' (insert c P)"
proof -
  note fin = countedD(1) [OF inv]
  have r: "referenced q P k" if "referenced q (insert c P) k'" for q
    using that p t unfolding referenced_def by (metis insert_iff)
  have "ends t q P k' = ends t q P k" for t q unfolding ends_def by (rule sum.cong) (use t in auto)
  then have e: "ends t q (insert c P) k' = ends t q P k + table_ends t q (fds k par)" for t q
    using fin p(2) t(1) by (simp add: ends_def)
  have "length (fds k' a) = MAX_FDS" if "a \<in> insert c P" for a
    using that countedD(2) [OF inv] p t by (cases "a = c") auto
  then show ?thesis
    using fin n e r inv unfolding fds_counted_def by auto
qed

lemma clone_process_counted:
  assumes inv: "fds_counted k P" and par: "parent \<in> P" and few: "few_processes (card P + 1)" and r: "clone_process parent regs fl st k = (child, k')"
    and new: "\<And>s k1. clone_space parent fl k = (Some s, k1) \<Longrightarrow> fst (kmalloc process_bytes k1) \<notin> P"
  shows "fds_counted k' (if child = NULL then P else insert child P)"
proof -
  obtain s k1 where cs: "clone_space parent fl k = (s, k1)" by fastforce
  note f1 = clone_space_fds [OF cs]
  show ?thesis
  proof (cases s)
    case None
    then show ?thesis using r cs fd_same_counted [OF f1] inv by (simp add: clone_process_def)
  next
    case (Some pr)
    obtain pml4 rc where pr: "pr = (pml4, rc)" by fastforce
    obtain c k2 where km: "kmalloc process_bytes k1 = (c, k2)" by fastforce
    note f2 = fd_same_trans [OF f1 fd_same_heap [OF more_kmalloc [OF km]]]
    have c: "c \<notin> P" using new cs Some km by simp
    let ?k3 = "upd_proc c (\<lambda>_. zero_process) k2"
    obtain phys k4 where al: "pmm_alloc_page ?k3 = (phys, k4)" by fastforce
    have f34: "fd_same ?k3 k4" by (rule fd_same_machine) (rule rest_alloc [OF al])
    have k4: "fds k4 a = fds k a" if "a \<noteq> c" for a using fd_same_fds [OF f34] fd_same_fds [OF f2] that by simp
    have n4: "end_count t (pipe_at k4 q) = end_count t (pipe_at k q)" for t q
      using f34 f2 ipc_more [of ?k3 k2] by (simp add: fd_same_def)
    show ?thesis
    proof (cases "c = NULL \<or> phys = NULL")
      case True
      then have nul: "child = NULL" and k': "k' = (if c = NULL then drop_space pr k2 else drop_space pr (kfree c k4))"
        using r cs Some pr km al by (cases "c = NULL"; simp add: clone_process_def)+
      have s5: "fd_same k4 (drop_space pr (kfree c k4))"
        by (rule fd_same_trans [OF fd_same_heap [OF more_kfree] drop_space_fds])
      have "fds_counted k' P"
      proof (cases "c = NULL")
        case True
        then show ?thesis using k' fd_same_counted [OF fd_same_trans [OF f2 drop_space_fds]] inv by simp
      next
        case False
        have "fds_counted k4 P" using fds_counted_cong [of P k4 k] k4 n4 c inv by metis
        then show ?thesis using k' False fd_same_counted [OF s5] by simp
      qed
      then show ?thesis using nul by simp
    next
      case False
      define k5 where "k5 = upd_proc c (\<lambda>x. x\<lparr>p_kernel_stack := phys, p_pid := next_pid k4, p_state := PROCESS_READY,
                                 p_entry := p_entry (proc k4 parent),
                                 p_user_stack_top := (if st \<noteq> 0 then st else p_user_stack_top (proc k4 parent)),
                                 p_brk_start := p_brk_start (proc k4 parent), p_brk := p_brk (proc k4 parent),
                                 p_mmap_next := p_mmap_next (proc k4 parent),
                                 p_cr3 := pml4, p_vm_refcount := rc\<rparr>) (k4\<lparr>next_pid := next_pid k4 + 1\<rparr>)"
      define k6 where "k6 = (if rc \<noteq> NULL then k5\<lparr>vm_count := (vm_count k5)(rc := vm_count k5 rc + 1)\<rparr> else k5)"
      define k7 where "k7 = upd_proc c (\<lambda>x. x\<lparr>p_parent := parent, p_fd_table := fds k6 parent\<rparr>) k6"
      define k8 where "k8 = fold (\<lambda>i s. share_fd (fds s c ! i) s) [0..<MAX_FDS] k7"
      define k9 where "k9 = upd_proc c (\<lambda>x. x\<lparr>p_fork_frame := regs\<lparr>tf_rax := 0\<rparr>\<rparr>) k8"
      define k10 where "k10 = (if st \<noteq> 0 then upd_proc c (p_fork_frame_update (\<lambda>f. f\<lparr>tf_rsp := st\<rparr>)) k9 else k9)"
      obtain sp k11 where ss: "setup_kernel_stack phys (fork_trampoline k10) k10 = (sp, k11)" by fastforce
      have "clone_process parent regs fl st k = (case setup_kernel_stack phys (fork_trampoline k10) k10 of
          (sp, k11) \<Rightarrow> (c, start_process c (upd_proc c (p_rsp_update (\<lambda>_. sp)) k11)))"
        unfolding clone_process_def k10_def k9_def k8_def k7_def k6_def k5_def Let_def using cs Some pr km al False by simp
      then have res: "child = c" "k' = start_process c (upd_proc c (p_rsp_update (\<lambda>_. sp)) k11)" using r ss by simp_all
      have "fd_same k8 k9" "fd_same k9 k10" unfolding k9_def k10_def by (auto intro: fd_same_upd)
      then have f8: "fd_same k8 k'" unfolding res(2)
        by (intro fd_same_trans [OF _ start_process_fds] fd_same_trans [OF _ fd_same_upd]
            fd_same_trans [OF _ setup_kernel_stack_fds [OF ss]]) (auto intro: fd_same_trans)
      have f7: "fds k7 a = (if a = c then fds k parent else fds k a)" for a
        using k4 par c by (auto simp: k7_def k6_def k5_def)
      have n7: "end_count t (pipe_at k7 q) = end_count t (pipe_at k q)" for t q
        using n4 ipc_more [of k7 k6] ipc_more [of k5 "k4\<lparr>next_pid := next_pid k4 + 1\<rparr>"] by (simp add: k7_def k6_def k5_def)
      have room: "end_count t (pipe_at k7 q) + int MAX_FDS < 2 ^ 31"
        if "pipe_type t" "i < MAX_FDS" "fd_type (fds k7 c ! i) = t" "fd_pipe (fds k7 c ! i) = q" for t q i
      proof -
        have "referenced q P k" using that par f7 by (auto simp: referenced_def)
        then have "end_count t (pipe_at k7 q) = ends t q P k" using countedD(3) [OF inv _ that(1)] n7 by simp
        then show ?thesis using ends_le [of t q P k] few by (simp add: few_processes_def)
      qed
      have "proc k8 = proc k7" unfolding k8_def by (rule fold_share_fd_proc)
      moreover have "end_count t (pipe_at k8 q) = end_count t (pipe_at k7 q) + table_ends t q (fds k7 c)" if "pipe_type t" for t q
        unfolding k8_def table_ends_def by (rule fold_share_fd [OF that room [OF that]])
      ultimately have "fds_counted k' (insert c P)"
        by (intro counted_copy [OF inv par c]) (use f8 f7 n7 c in \<open>auto simp: fd_same_def\<close>)
      then show ?thesis using res False by simp
    qed
  qed
qed

section \<open>Steps of the kernel on descriptors\<close>

text \<open>
  \<open>P\<close> is the set of the processes that exist. A pipe and a process are created at an address that is not in use: the
  allocator's promise. A clone leaves room in the 32-bit counts (\<open>few_processes\<close>). Other steps leave the tables and the counts alone, as reading, writing and scheduling do.
\<close>

inductive fd_step :: "'a kern_scheme \<times> addr set \<Rightarrow> 'a kern_scheme \<times> addr set \<Rightarrow> bool" where
  fd_open: "current_process k \<in> P \<Longrightarrow> sys_open f k = Some (r, k') \<Longrightarrow> fd_step (k, P) (k', P)"
| fd_close: "current_process k \<in> P \<Longrightarrow> sys_close f k = Some (r, k') \<Longrightarrow> fd_step (k, P) (k', P)"
| fd_pipe: "current_process k \<in> P \<Longrightarrow> \<not> referenced (fst (pipe_create k)) P k \<Longrightarrow> sys_pipe f k = Some (r, k') \<Longrightarrow>
    fd_step (k, P) (k', P)"
| fd_dup: "current_process k \<in> P \<Longrightarrow> sys_dup f k = (r, k') \<Longrightarrow> fd_step (k, P) (k', P)"
| fd_dup2: "current_process k \<in> P \<Longrightarrow> sys_dup2 f k = Some (r, k') \<Longrightarrow> fd_step (k, P) (k', P)"
| fd_clone: "parent \<in> P \<Longrightarrow> few_processes (card P + 1) \<Longrightarrow> (\<And>s k1. clone_space parent fl k = (Some s, k1) \<Longrightarrow> fst (kmalloc process_bytes k1) \<notin> P) \<Longrightarrow>
    clone_process parent regs fl st k = (child, k') \<Longrightarrow> fd_step (k, P) (k', if child = NULL then P else insert child P)"
| fd_release: "c \<in> P \<Longrightarrow> process_release_fds c k = Some k' \<Longrightarrow> fd_step (k, P) (k', P)"
| fd_gone: "(\<And>i. i < MAX_FDS \<Longrightarrow> \<not> pipe_type (fd_type (fds k c ! i))) \<Longrightarrow> fd_step (k, P) (k, P - {c})"
| fd_other: "fd_same k k' \<Longrightarrow> fd_step (k, P) (k', P)"

lemma counted_remove:
  assumes inv: "fds_counted k P" and c: "\<And>i. i < MAX_FDS \<Longrightarrow> \<not> pipe_type (fd_type (fds k c ! i))"
  shows "fds_counted k (P - {c})"
proof -
  have z: "table_ends t p (fds k c) = 0" if "pipe_type t" for t p
    unfolding table_ends_def by (rule sum.neutral) (use c that in auto)
  have "ends t p (P - {c}) k = ends t p P k" if "pipe_type t" for t p
    using z [OF that, of p] sum_diff1 [OF countedD(1) [OF inv], of "\<lambda>a. table_ends t p (fds k a)" c]
    by (simp add: ends_def)
  moreover have "referenced p P k" if "referenced p (P - {c}) k" for p using that by (auto simp: referenced_def)
  ultimately show ?thesis using inv by (auto simp: fds_counted_def)
qed

lemma fd_step_counted:
  assumes "fd_step s s'" "fds_counted (fst s) (snd s)" "few_processes (card (snd s))"
  shows "fds_counted (fst s') (snd s') \<and> few_processes (card (snd s'))"
  using assms
proof (induction rule: fd_step.induct)
  case (fd_clone parent P fl k regs st child k')
  have "card (insert child P) \<le> card P + 1" by (simp add: card_insert_le_m1)
  then show ?case using clone_process_counted [OF _ fd_clone(1,2,4)] fd_clone(3,5,6) few_processes_mono [OF fd_clone(2)] by auto
next
  case (fd_gone k c P)
  have "card (P - {c}) \<le> card P" by (simp add: card_Diff1_le)
  then show ?case using fd_gone counted_remove few_processes_mono by auto
qed (auto simp: fd_same_counted dest: sys_open_counted sys_close_counted sys_pipe_counted sys_dup_counted sys_dup2_counted
     process_release_fds_counted)

lemma fd_steps_counted:
  assumes "fd_step\<^sup>*\<^sup>* s s'" "fds_counted (fst s) (snd s)" "few_processes (card (snd s))"
  shows "fds_counted (fst s') (snd s') \<and> few_processes (card (snd s'))"
  using assms by (induction rule: rtranclp_induct) (auto dest: fd_step_counted)

section \<open>Properties\<close>

text \<open>
  C33: Whatever processes do with their descriptors, in any order, while there are fewer than \<open>2 ^ 26\<close> of them, the reader and writer counts of every pipe that is referred
  to are the numbers of descriptors of all processes that refer to its ends. So a pipe with a descriptor has a positive
  count, and \<^verbatim>\<open>pipe_close_end\<close>, which frees the pipe when both are zero, never frees a pipe that is still in use.
\<close>

theorem pipe_references_counted:
  assumes "fd_step\<^sup>*\<^sup>* (k, P) (k', P')" "fds_counted k P" "few_processes (card P)"
  shows "fds_counted k' P' \<and> (\<forall>a \<in> P'. \<forall>i < MAX_FDS.
     (fd_type (fds k' a ! i) = FD_PIPE_READ \<longrightarrow> 0 < sint (pi_readers (pipe_at k' (fd_pipe (fds k' a ! i))))) \<and>
     (fd_type (fds k' a ! i) = FD_PIPE_WRITE \<longrightarrow> 0 < sint (pi_writers (pipe_at k' (fd_pipe (fds k' a ! i))))))"
proof -
  have c: "fds_counted k' P'" using fd_steps_counted [OF assms(1)] assms(2,3) by simp
  then show ?thesis using countedD(4) [OF c] by (force simp: pipe_type_def end_count_def)
qed

definition kern5 :: kern where
  "kern5 = kern0\<lparr>pipe_at := (\<lambda>_. new_pipe),
     proc := kproc0(0x1000 := (kproc0 0x1000)\<lparr>p_fd_table := (replicate MAX_FDS fd_free)
       [3 := fd_free\<lparr>fd_type := FD_PIPE_READ, fd_pipe := 0x9000\<rparr>, 4 := fd_free\<lparr>fd_type := FD_PIPE_WRITE, fd_pipe := 0x9000\<rparr>]\<rparr>)\<rparr>"

definition frame5 :: syscall_frame where
  "frame5 = \<lparr>f_rax = 0, f_r9 = 0, f_r8 = 0, f_r10 = 0, f_rdx = 0, f_rsi = 0, f_rdi = 3, f_user_rsp = 0, f_user_rflags = 0,
     f_user_rip = 0, f_r15 = 0, f_r14 = 0, f_r13 = 0, f_r12 = 0, f_rbp = 0, f_rbx = 0\<rparr>"

lemma kern5_fields:
  "current_process kern5 = 0x1000" "pipe_at kern5 p = new_pipe"
  "fds kern5 0x1000 = (replicate MAX_FDS fd_free)
     [3 := fd_free\<lparr>fd_type := FD_PIPE_READ, fd_pipe := 0x9000\<rparr>, 4 := fd_free\<lparr>fd_type := FD_PIPE_WRITE, fd_pipe := 0x9000\<rparr>]"
  by (simp_all add: kern5_def)

lemma kern5_nth:
  "i < MAX_FDS \<Longrightarrow> fds kern5 0x1000 ! i = (if i = 3 then fd_free\<lparr>fd_type := FD_PIPE_READ, fd_pipe := 0x9000\<rparr>
     else if i = 4 then fd_free\<lparr>fd_type := FD_PIPE_WRITE, fd_pipe := 0x9000\<rparr> else fd_free)"
  by (simp add: kern5_fields nth_list_update)

lemma kern5_counted: "fds_counted kern5 {0x1000}"
proof -
  have "table_ends t 0x9000 (fds kern5 0x1000) = (\<Sum>i < MAX_FDS. if i = (if t = FD_PIPE_READ then 3 else 4) then 1 else 0)" if "pipe_type t" for t
    unfolding table_ends_def by (rule sum.cong) (use that in \<open>auto simp: kern5_nth fd_end_def fd_free_def pipe_type_def\<close>)
  then have e: "ends t 0x9000 {0x1000} kern5 = 1" if "pipe_type t" for t
    using that by (cases "t = FD_PIPE_READ") (auto simp: ends_def sum.delta)
  have "p = 0x9000" if r: "referenced p {0x1000} kern5" for p
  proof -
    obtain i where "i < MAX_FDS" "pipe_type (fd_type (fds kern5 0x1000 ! i))" "fd_pipe (fds kern5 0x1000 ! i) = p"
      using r unfolding referenced_def by blast
    then show ?thesis unfolding kern5_nth [OF \<open>i < MAX_FDS\<close>] by (auto simp: pipe_type_def fd_free_def split: if_splits)
  qed
  moreover have "length (fds kern5 0x1000) = MAX_FDS" unfolding kern5_fields(3) by simp
  moreover have "end_count t new_pipe = 1" if "pipe_type t" for t using that by (auto simp: end_count_def pipe_type_def new_pipe_def)
  ultimately show ?thesis unfolding fds_counted_def kern5_fields(2) using e by auto
qed

theorem pipe_references_counted_witness:
  "\<exists>k'. sys_dup frame5 kern5 = (Sys_ret 5, k') \<and> fds_counted k' {0x1000} \<and> 0 < sint (pi_readers (pipe_at k' (fd_pipe (fds k' 0x1000 ! 5))))"
proof -
  have fr: "free_fd 3 kern5 = Some 5" by (simp add: free_fd_def kern5_fields fd_free_def upt_rec)
  define k' where "k' = share_fd (cur_fd 3 kern5) (set_fd 0x1000 5 (\<lambda>_. cur_fd 3 kern5) kern5)"
  have d: "sys_dup frame5 kern5 = (Sys_ret 5, k')"
    by (simp add: sys_dup_def Let_def fr frame5_def c_int_def kern5_nth kern5_fields(1) k'_def)
  have "fd_step (kern5, {0x1000}) (k', {0x1000})" by (rule fd_dup [OF _ d]) (simp add: kern5_fields)
  then have "fd_step\<^sup>*\<^sup>* (kern5, {0x1000}) (k', {0x1000})" by simp
  moreover have "few_processes (card {0x1000 :: addr})" by (simp add: few_processes_def)
  ultimately have "fds_counted k' {0x1000} \<and> (\<forall>a \<in> {0x1000}. \<forall>i < MAX_FDS.
     (fd_type (fds k' a ! i) = FD_PIPE_READ \<longrightarrow> 0 < sint (pi_readers (pipe_at k' (fd_pipe (fds k' a ! i))))) \<and>
     (fd_type (fds k' a ! i) = FD_PIPE_WRITE \<longrightarrow> 0 < sint (pi_writers (pipe_at k' (fd_pipe (fds k' a ! i))))))"
    using pipe_references_counted [OF _ kern5_counted] by blast
  then
  have "fds_counted k' {0x1000}" "fd_type (fds k' 0x1000 ! 5) = FD_PIPE_READ \<Longrightarrow> 0 < sint (pi_readers (pipe_at k' (fd_pipe (fds k' 0x1000 ! 5))))"
    by (blast, simp)
  moreover have "fds k' 0x1000 ! 5 = cur_fd 3 kern5"
    unfolding k'_def share_fd_simps set_fd_simps using countedD(2) [OF kern5_counted, of "0x1000"] by (simp add: kern5_fields(1))
  ultimately show ?thesis using d by (simp add: kern5_nth kern5_fields(1))
qed

end
