(* ===== verification/Fd_Types.thy ===== *)
theory Fd_Types
  imports Fd_Table
begin

text \<open>
  Typing of descriptors: the tag of a descriptor and the pointer it selects agree, in every table and after every
  system call on descriptors (\<^verbatim>\<open>process.h\<close>, \<^verbatim>\<open>syscall.c\<close>).
\<close>

section \<open>Well-typed tables\<close>

definition fd_wf :: "'a vfs_scheme \<Rightarrow> file_descriptor \<Rightarrow> bool" where
  "fd_wf k fd \<longleftrightarrow> (fd_type fd = FD_VFS \<longrightarrow> fd_node fd \<noteq> NULL \<and> v_type (vfs_at k (fd_node fd)) = VFS_FILE) \<and>
     (pipe_type (fd_type fd) \<longrightarrow> fd_pipe fd \<noteq> NULL)"

definition table_wf :: "'a vfs_scheme \<Rightarrow> addr \<Rightarrow> bool" where
  "table_wf k a \<longleftrightarrow> length (fds k a) = MAX_FDS \<and> (\<forall>fd \<in> set (fds k a). fd_wf k fd)"

lemma table_wf_nth: "table_wf k a \<Longrightarrow> i < MAX_FDS \<Longrightarrow> fd_wf k (fds k a ! i)"
  by (simp add: table_wf_def)

lemma fd_wf_closed [simp]: "fd_type fd = FD_NONE \<Longrightarrow> fd_wf k fd"
  by (simp add: fd_wf_def pipe_type_def)

text \<open>The tables and the file tree are as before.\<close>

definition vfs_frame :: "'a vfs_scheme \<Rightarrow> 'a vfs_scheme \<Rightarrow> bool" where
  "vfs_frame k k' \<longleftrightarrow> (\<forall>a. fds k' a = fds k a) \<and> vfs_at k' = vfs_at k \<and> current_process k' = current_process k"

lemma vfs_frame_refl [simp]: "vfs_frame k k"
  by (simp add: vfs_frame_def)

lemma vfs_frame_trans: "vfs_frame k k' \<Longrightarrow> vfs_frame k' k'' \<Longrightarrow> vfs_frame k k''"
  by (simp add: vfs_frame_def)

lemma vfs_frame_wf: "vfs_frame k k' \<Longrightarrow> table_wf k' a = table_wf k a"
  by (simp add: vfs_frame_def table_wf_def fd_wf_def)

lemma vfs_frame_heap:
  fixes k k' :: "'a vfs_scheme"
  assumes "kheap.more k' = kheap.more k"
  shows "vfs_frame k k'"
  using assms by (cases k; cases k') (simp add: vfs_frame_def)

lemma vfs_frame_machine:
  fixes k k' :: "'a vfs_scheme"
  assumes "machine.more k' = machine.more k"
  shows "vfs_frame k k'"
  using assms by (cases k; cases k') (simp add: vfs_frame_def)

lemma vfs_at_tasks: "tasks.more k' = tasks.more k \<Longrightarrow> vfs_at k' = vfs_at k"
  by (cases k; cases k') simp

lemma vfs_frame_wake: "wake_frame k k' \<Longrightarrow> vfs_frame k k'"
  unfolding vfs_frame_def using vfs_at_tasks [of k' k] by (auto simp: wake_frame_def dest: same_processD)

lemma vfs_at_upds [simp]:
  "vfs_at (upd_proc a f k) = vfs_at k" "vfs_at (upd_pipe p g k) = vfs_at k" "vfs_at (set_fd c i h k) = vfs_at k"
  by (simp_all add: upd_proc_def upd_pipe_def set_fd_def)

lemma vfs_frame_upds:
  "(\<And>x. p_fd_table (f x) = p_fd_table x) \<Longrightarrow> vfs_frame k (upd_proc a f k)" "vfs_frame k (upd_pipe p g k)"
  by (simp_all add: vfs_frame_def)

lemma vfs_frame_copy: "copy_to_user r a bs k = (x, k') \<Longrightarrow> vfs_frame k k'"
  using rest_copy_to_user [of r a bs k] by (intro vfs_frame_machine) simp

lemmas vfs_frames = vfs_frame_trans [OF _ vfs_frame_upds(1)] vfs_frame_trans [OF _ vfs_frame_upds(2)]

section \<open>Pipes and the keyboard\<close>

lemma vfs_frame_wake_end: "vfs_frame k (wake_writer p k)" "vfs_frame k (wake_reader p k)"
proof -
  have s: "vfs_frame k (if w \<noteq> NULL then mlfq_enqueue w (upd_pipe p g k1) else upd_pipe p g k1)"
    if "wait_queue_pop q k = (w, wq, k1)" for q w wq k1 g
    using vfs_frame_trans [OF vfs_frame_wake [OF wake_frame_ops(2) [of k q]] vfs_frame_upds(2) [of _ p g]] that
      vfs_frame_trans [OF _ vfs_frame_wake [OF wake_frame_ops(1)]] by auto
  show "vfs_frame k (wake_writer p k)" "vfs_frame k (wake_reader p k)"
    unfolding wake_writer_def wake_reader_def Let_def by (auto split: prod.split dest: s simp del: if_not_P if_P)
qed

lemma vfs_frame_push: "wait_queue_push q c k = (wq, k') \<Longrightarrow> vfs_frame k k'"
  using vfs_frame_wake [OF wake_frame_ops(3) [of k q c]] by simp

lemma vfs_frame_block: "vfs_frame k (block_on_read p k)" "vfs_frame k (block_on_write p k)"
proof -
  have s: "vfs_frame k (upd_pipe p g k2)"
    if "wait_queue_push q c (upd_proc c (p_state_update (\<lambda>_. PROCESS_BLOCKED_PIPE)) k) = (wq, k2)" for q c wq k2 g
    by (rule vfs_frames(2) [OF vfs_frame_trans [OF vfs_frame_upds(1) vfs_frame_push [OF that]]]) simp
  show "vfs_frame k (block_on_read p k)" "vfs_frame k (block_on_write p k)"
    unfolding block_on_read_def block_on_write_def Let_def by (auto split: prod.split dest: s)
qed

lemma vfs_frame_pipe_read: "pipe_read p n k = (bs, r, k') \<Longrightarrow> vfs_frame k k'"
proof (induction n arbitrary: k bs)
  case (Suc n)
  have "vfs_frame k (wake_writer p (snd (take_byte p k)))"
    by (rule vfs_frame_trans [OF _ vfs_frame_wake_end(1)]) (simp add: take_byte_def Let_def vfs_frame_upds)
  then show ?case using Suc vfs_frame_block(1) [of k p]
    by (auto split: prod.splits if_splits intro: vfs_frame_trans)
qed simp

lemma vfs_frame_pipe_write: "pipe_write p bs k = (n, r, k') \<Longrightarrow> vfs_frame k k'"
proof (induction bs arbitrary: k n)
  case (Cons c cs)
  have "vfs_frame k (wake_reader p (put_byte p c k))"
    by (rule vfs_frame_trans [OF _ vfs_frame_wake_end(2)]) (simp add: put_byte_def vfs_frame_upds)
  then show ?case using Cons vfs_frame_block(2) [of k p]
    by (auto split: prod.splits if_splits intro: vfs_frame_trans)
qed simp

lemma vfs_frame_kb: "vfs_frame k (k\<lparr>kb := s\<rparr>)"
  by (simp add: vfs_frame_def)

lemma vfs_frame_keyboard_read: "keyboard_read n k = (bs, r, k') \<Longrightarrow> vfs_frame k k'"
proof (induction n arbitrary: k bs)
  case (Suc n)
  show ?case
  proof (cases "kbd_buf_pop (kb k)")
    case None
    let ?k1 = "upd_proc (current_process k) (p_state_update (\<lambda>_. PROCESS_BLOCKED_KBD)) k"
    obtain wq k2 where p: "wait_queue_push (kbd_waitq (kb ?k1)) (current_process ?k1) ?k1 = (wq, k2)" by fastforce
    have "vfs_frame k k2" by (rule vfs_frame_trans [OF vfs_frame_upds(1) vfs_frame_push [OF p]]) simp
    then show ?thesis using Suc.prems None p by (auto intro: vfs_frame_trans [OF _ vfs_frame_kb])
  next
    case (Some cs)
    then show ?thesis using Suc
      by (auto split: prod.splits if_splits intro: vfs_frame_kb vfs_frame_trans [OF vfs_frame_kb])
  qed
qed simp

section \<open>The calls\<close>

lemma table_wf_set_fd:
  assumes "table_wf k a" "i < MAX_FDS" "fd_wf k (h (fds k a ! i))"
  shows "table_wf (set_fd c i h k) a"
proof -
  have w: "fd_wf (set_fd c i h k) fd = fd_wf k fd" for fd by (simp add: fd_wf_def)
  show ?thesis using assms set_update_subset_insert [of "fds k c" i "h (fds k c ! i)"]
    by (cases "a = c") (auto simp: table_wf_def w simp del: set_fd_def)
qed

lemma table_wf_share: "table_wf (share_fd fd k) a = table_wf k a"
  by (rule vfs_frame_wf) (simp add: share_fd_def vfs_frame_upds split: fd_type.split)

lemma vfs_frame_close_end:
  assumes "pipe_close_end p b k = Some k'"
  shows "vfs_frame k k'"
proof -
  let ?k1 = "upd_pipe p (drop_end b) k"
  obtain wq k2 wq' k4 fr where w: "wake_all (pi_write_waiters (pipe_at ?k1 p)) ?k1 = Some (wq, k2)"
      "wake_all (pi_read_waiters (pipe_at (upd_pipe p (pi_write_waiters_update (\<lambda>_. wq)) k2) p))
         (upd_pipe p (pi_write_waiters_update (\<lambda>_. wq)) k2) = Some (wq', k4)"
      "k' = (if fr then kfree p (upd_pipe p (pi_read_waiters_update (\<lambda>_. wq')) k4)
             else upd_pipe p (pi_read_waiters_update (\<lambda>_. wq')) k4)"
    using assms unfolding pipe_close_end_def close_end_drop Let_def by (auto simp: bind_eq_Some_conv)
  have "vfs_frame k k4"
    using vfs_frame_wake [OF wake_all_frame [OF w(1)]] vfs_frame_wake [OF wake_all_frame [OF w(2)]]
    by (simp add: vfs_frame_def)
  then have "vfs_frame k (upd_pipe p (pi_read_waiters_update (\<lambda>_. wq')) k4)" by (rule vfs_frames(2))
  then show ?thesis using w(3) vfs_frame_trans [OF _ vfs_frame_heap [OF more_kfree]] by auto
qed

lemma vfs_frame_drop_fd: "drop_fd fd k = Some k' \<Longrightarrow> vfs_frame k k'"
  using vfs_frame_close_end by (auto simp: drop_fd_def split: fd_type.splits)

lemma sys_close_wf:
  assumes "sys_close f k = Some (r, k')" "table_wf k a"
  shows "table_wf k' a"
proof (cases "f_rdi f \<ge> 3 \<and> f_rdi f < of_nat MAX_FDS")
  case True
  let ?c = "current_process k" and ?i = "unat (f_rdi f)"
  have i: "?i < MAX_FDS" using True by (simp add: word_less_nat_alt)
  obtain k1 where d: "drop_fd (fds k ?c ! ?i) k = Some k1" and k': "k' = set_fd ?c ?i closed k1"
    using assms(1) True by (auto simp: sys_close_def close_fd_def bind_eq_Some_conv)
  show ?thesis unfolding k'
    by (rule table_wf_set_fd [OF _ i]) (use vfs_frame_wf [OF vfs_frame_drop_fd [OF d]] assms(2) in auto)
qed (use assms in \<open>auto simp: sys_close_def\<close>)

lemma sys_dup_wf:
  assumes r: "sys_dup f k = (r, k')" and wf: "table_wf k a" "table_wf k (current_process k)"
  shows "table_wf k' a"
proof (cases "c_int (f_rdi f) < 0 \<or> c_int (f_rdi f) \<ge> int MAX_FDS \<or> fd_type (cur_fd (nat (c_int (f_rdi f))) k) = FD_NONE \<or>
    free_fd 3 k = None")
  case False
  let ?o = "nat (c_int (f_rdi f))"
  obtain i where i: "free_fd 3 k = Some i" using False by auto
  have o: "?o < MAX_FDS" using False by auto
  have k': "k' = share_fd (cur_fd ?o k) (set_fd (current_process k) i (\<lambda>_. cur_fd ?o k) k)"
    using r False i by (auto simp: sys_dup_def Let_def)
  show ?thesis unfolding k' table_wf_share
    by (rule table_wf_set_fd [OF wf(1)]) (use free_fd_bound [OF i] table_wf_nth [OF wf(2) o] in auto)
qed (use r wf in \<open>auto simp: sys_dup_def Let_def split: if_splits\<close>)

lemma sys_dup2_wf:
  assumes r: "sys_dup2 f k = Some (r, k')" and wf: "table_wf k a" "table_wf k (current_process k)"
  shows "table_wf k' a"
proof -
  let ?o = "nat (c_int (f_rdi f))" and ?n = "nat (c_int (f_rsi f))"
  consider "k' = k" | k1 where "\<not> (c_int (f_rdi f) \<ge> int MAX_FDS \<or> c_int (f_rsi f) \<ge> int MAX_FDS)" "drop_fd (cur_fd ?n k) k = Some k1"
      "k' = share_fd (cur_fd ?o k1) (set_fd (current_process k1) ?n (\<lambda>_. cur_fd ?o k1) k1)"
    using r by (auto simp: sys_dup2_def Let_def bind_eq_Some_conv split: if_splits)
  then show ?thesis
  proof cases
    case (2 k1)
    have b: "?o < MAX_FDS" "?n < MAX_FDS" using 2(1) by auto
    note f = vfs_frame_drop_fd [OF 2(2)]
    have w: "table_wf k1 a" "table_wf k1 (current_process k1)" using vfs_frame_wf [OF f] f wf by (simp_all add: vfs_frame_def)
    show ?thesis unfolding 2(3) table_wf_share
      by (rule table_wf_set_fd [OF w(1) b(2)]) (rule table_wf_nth [OF w(2) b(1)])
  qed (use wf in simp)
qed

lemma sys_open_wf:
  assumes "sys_open f k = Some (r, k')" "table_wf k a"
  shows "table_wf k' a"
proof -
  obtain found where fo: "find_user_path (f_rdi f) k = Some found" using assms(1) by (auto simp: sys_open_def bind_eq_Some_conv)
  have "k' = k \<or> (\<exists>i node. free_fd 3 k = Some i \<and> node \<noteq> NULL \<and> v_type (vfs_at k node) = VFS_FILE \<and>
      k' = set_fd (current_process k) i
        (\<lambda>fd. fd\<lparr>fd_type := FD_VFS, fd_node := node, fd_offset := 0, fd_flags := ucast (f_rsi f)\<rparr>) k)"
    using assms(1) fo by (cases found; cases "free_fd 3 k") (auto simp: sys_open_def split: if_splits)
  then show ?thesis
    using assms(2) free_fd_bound [of 3 k] by (auto simp: fd_wf_def pipe_type_def intro!: table_wf_set_fd)
qed

lemma sys_pipe_wf:
  assumes r: "sys_pipe f k = Some (r, k')" and wf: "table_wf k a"
  shows "table_wf k' a"
proof (cases "free_fd 3 k = None \<or> free_fd (the (free_fd 3 k) + 1) k = None")
  case False
  then obtain i j where ij: "free_fd 3 k = Some i" "free_fd (i + 1) k = Some j" by auto
  note b = free_fd_bound [OF ij(1)] free_fd_bound [OF ij(2)]
  obtain p k1 where pc: "pipe_create k = (p, k1)" by fastforce
  obtain k0 where km: "kmalloc pipe_bytes k = (p, k0)" "k1 = (if p = NULL then k0 else upd_pipe p (\<lambda>_. new_pipe) k0)"
    using pc by (auto simp: pipe_create_def split: prod.splits if_splits)
  have f1: "vfs_frame k k1"
    using vfs_frame_heap [OF more_kmalloc [OF km(1)]] vfs_frames(2) [of k k0 p] km(2) by auto
  note w1 = wf [folded vfs_frame_wf [OF f1]]
  show ?thesis
  proof (cases "p = NULL")
    case True
    then show ?thesis using r ij pc w1 by (simp add: sys_pipe_def)
  next
    case False
    let ?c = "current_process k1"
    define k3 where "k3 = set_fd ?c j (\<lambda>fd. fd\<lparr>fd_type := FD_PIPE_WRITE, fd_pipe := p\<rparr>)
      (set_fd ?c i (\<lambda>fd. fd\<lparr>fd_type := FD_PIPE_READ, fd_pipe := p\<rparr>) k1)"
    have w3: "table_wf k3 a" unfolding k3_def
      by (intro table_wf_set_fd w1) (use b False in \<open>auto simp: fd_wf_def pipe_type_def\<close>)
    obtain ok k4 where cu: "copy_to_user (cur_space k3) (f_rdi f) (le_bytes 4 (of_nat i) @ le_bytes 4 (of_nat j)) k3 = (ok, k4)" by fastforce
    note w4 = w3 [folded vfs_frame_wf [OF vfs_frame_copy [OF cu]]]
    consider "k' = k4" | k5 k6 where "pipe_close_end p True k4 = Some k5" "pipe_close_end p False k5 = Some k6"
        "k' = set_fd ?c j (\<lambda>fd. fd\<lparr>fd_type := FD_NONE, fd_pipe := NULL\<rparr>)
           (set_fd ?c i (\<lambda>fd. fd\<lparr>fd_type := FD_NONE, fd_pipe := NULL\<rparr>) k6)"
      using r ij pc False cu [unfolded k3_def] by (cases ok) (auto simp: sys_pipe_def Let_def bind_eq_Some_conv)
    then show ?thesis
    proof cases
      case (2 k5 k6)
      have "table_wf k6 a"
        using w4 vfs_frame_wf [OF vfs_frame_close_end [OF 2(1)]] vfs_frame_wf [OF vfs_frame_close_end [OF 2(2)]] by simp
      then show ?thesis unfolding 2(3) by (intro table_wf_set_fd) (use b in auto)
    qed (simp add: w4)
  qed
qed (use r wf in \<open>auto simp: sys_pipe_def split: option.splits\<close>)

lemma deliver_wf:
  assumes "deliver buf (bs, x, k1) = (r, k')" "vfs_frame k k1"
  shows "vfs_frame k k'"
  using assms vfs_frame_copy [of "cur_space k1" buf bs k1]
  by (cases "copy_to_user (cur_space k1) buf bs k1"; cases "fst (copy_to_user (cur_space k1) buf bs k1)")
    (auto simp: deliver_def intro: vfs_frame_trans)

lemma sys_read_wf:
  assumes r: "sys_read f k = (r, k')" and wf: "table_wf k a"
  shows "table_wf k' a"
proof -
  let ?n = "nat (c_int (f_rdx f))" and ?i = "unat (f_rdi f)"
  consider "k' = k" | p where "deliver (f_rsi f) (pipe_read p ?n k) = (r, k')" | "deliver (f_rsi f) (keyboard_read ?n k) = (r, k')"
    | "?i < MAX_FDS" "sys_read_file ?i (f_rsi f) (f_rdx f) k = (r, k')"
    using r by (auto simp: sys_read_def Let_def word_less_nat_alt split: if_splits)
  then show ?thesis
  proof cases
    case (2 p)
    obtain bs x k1 where p: "pipe_read p ?n k = (bs, x, k1)" by (cases "pipe_read p ?n k") auto
    then show ?thesis using deliver_wf [OF 2 [unfolded p] vfs_frame_pipe_read [OF p]] vfs_frame_wf wf by blast
  next
    case 3
    obtain bs x k1 where p: "keyboard_read ?n k = (bs, x, k1)" by (cases "keyboard_read ?n k") auto
    then show ?thesis using deliver_wf [OF 3 [unfolded p] vfs_frame_keyboard_read [OF p]] vfs_frame_wf wf by blast
  next
    case 4
    let ?fd = "cur_fd ?i k" and ?n0 = "ucast (f_rdx f) :: u32"
    define b where "b = (if fd_offset ?fd + ?n0 > v_size (vfs_at k (fd_node ?fd)) then v_size (vfs_at k (fd_node ?fd)) - fd_offset ?fd else ?n0)"
    obtain ok k1 where cu: "copy_to_user (cur_space k) (f_rsi f)
        (bytes_from (v_data (vfs_at k (fd_node ?fd)) + ucast (fd_offset ?fd)) (unat b) (ramdisk k)) k = (ok, k1)" by fastforce
    have w: "table_wf k1 a" using wf vfs_frame_wf [OF vfs_frame_copy [OF cu]] by simp
    have ws: "table_wf (set_fd (current_process k1) ?i (\<lambda>fd. fd\<lparr>fd_offset := fd_offset fd + b\<rparr>) k1) a"
      by (rule table_wf_set_fd [OF w 4(1)]) (use table_wf_nth [OF w 4(1)] in \<open>simp add: fd_wf_def\<close>)
    have "k' = k \<or> k' = k1 \<or> k' = set_fd (current_process k1) ?i (\<lambda>fd. fd\<lparr>fd_offset := fd_offset fd + b\<rparr>) k1"
      using 4(2) cu unfolding sys_read_file_def Let_def b_def [symmetric] by (cases "b > 0"; cases ok) simp_all
    then show ?thesis by (elim disjE) (simp_all only: w wf ws)
  qed (simp add: wf)
qed

lemma sys_write_wf:
  assumes r: "sys_write f k = (r, k')" and wf: "table_wf k a"
  shows "table_wf k' a"
proof -
  let ?bs = "user_prefix (cur_space k) (f_rsi f) (unat (f_rdx f)) k"
  have "(\<exists>p n. write_pipe p (f_rsi f) n k = (r, k')) \<or> k' = k\<lparr>echo := echo k @ ?bs\<rparr> \<or> k' = k"
    using r unfolding sys_write_def Let_def by (simp split: if_split_asm; blast)
  then consider p n where "write_pipe p (f_rsi f) n k = (r, k')" | "k' = k\<lparr>echo := echo k @ ?bs\<rparr>" | "k' = k" by blast
  then show ?thesis
  proof cases
    case (1 p n)
    then obtain bs w e where "pipe_write p bs k = (w, e, k')"
      by (auto simp: write_pipe_def Let_def split: prod.splits)
    then show ?thesis using vfs_frame_wf [OF vfs_frame_pipe_write] wf by blast
  qed (use wf in \<open>auto simp: table_wf_def fd_wf_def\<close>)
qed

lemma sys_readdir_wf:
  assumes r: "sys_readdir f k = Some (r, k')" and wf: "table_wf k a"
  shows "table_wf k' a"
proof -
  obtain found where fo: "find_user_path (f_rdi f) k = Some found" using r by (auto simp: sys_readdir_def bind_eq_Some_conv)
  show ?thesis
  proof (cases "found = None \<or> the found = NULL \<or> v_type (vfs_at k (the found)) \<noteq> VFS_DIRECTORY")
    case False
    then obtain kbuf where kb: "list_children (v_children (vfs_at k (the found))) (min (unat (ucast (f_rdx f) :: u32)) 512) [] k = Some kbuf"
      using r fo by (auto simp: sys_readdir_def bind_eq_Some_conv)
    obtain ok k1 where cu: "copy_to_user (cur_space k) (f_rsi f) kbuf k = (ok, k1)" by fastforce
    have "k' = k \<or> k' = k1"
      using r fo False kb cu by (cases ok; cases "kbuf = []") (auto simp: sys_readdir_def)
    then show ?thesis using wf vfs_frame_wf [OF vfs_frame_copy [OF cu]] by auto
  qed (use r fo wf in \<open>cases found; auto simp: sys_readdir_def split: if_splits\<close>)
qed

section \<open>Properties\<close>

text \<open>The calls that work on descriptors: read, write, open, close, pipe, dup, dup2, readdir.\<close>

definition descriptor_call :: "u64 \<Rightarrow> bool" where
  "descriptor_call n \<longleftrightarrow> n \<in> {0, 1, 2, 3, 22, 32, 33, 78}"

text \<open>
  C34: The tag of a descriptor and its pointer agree, always. If in every table a descriptor tagged as a file has the node of a
  file, one tagged as an end of a pipe has a pipe, and tables have \<^verbatim>\<open>MAX_FDS\<close> entries, then the same holds after any
  system call on descriptors, with any arguments, whether it succeeds, fails, blocks or faults.
\<close>

theorem descriptors_well_typed:
  assumes r: "descriptor_call (f_rax f)" "syscall_handler_c f k = Some (r, k')"
    and wf: "\<And>a. a \<in> P \<Longrightarrow> table_wf k a" "current_process k \<in> P" "a \<in> P"
  shows "table_wf k' a"
proof -
  note w = wf(1) [OF wf(2)] wf(1) [OF wf(3)]
  consider "sys_read f k = (r, k')" | "sys_write f k = (r, k')" | "sys_open f k = Some (r, k')" | "sys_close f k = Some (r, k')"
    | "sys_pipe f k = Some (r, k')" | "sys_dup f k = (r, k')" | "sys_dup2 f k = Some (r, k')" | "sys_readdir f k = Some (r, k')"
    using r unfolding descriptor_call_def syscall_handler_c_def by (elim insertE emptyE) simp_all
  then show ?thesis
    by cases (blast intro: w sys_read_wf sys_write_wf sys_open_wf sys_close_wf sys_pipe_wf sys_dup_wf sys_dup2_wf sys_readdir_wf)+
qed

definition sys5 :: sys where
  "sys5 = kern.extend kern5 (sys.fields \<lparr>fb_base_address = 0, fb_buffer_size = 0, fb_width = 0, fb_height = 0, fb_pixels_per_scan_line = 0\<rparr>)"

lemma sys5_fields: "proc sys5 = proc kern5" "current_process sys5 = 0x1000"
  by (simp_all add: sys5_def kern.extend_def kern5_fields)

lemma sys5_wf: "table_wf sys5 0x1000"
proof -
  have l: "length (fds sys5 0x1000) = MAX_FDS" unfolding sys5_fields by (rule countedD(2) [OF kern5_counted]) simp
  have "fd_wf sys5 (fds sys5 0x1000 ! i)" if "i < MAX_FDS" for i
    unfolding sys5_fields kern5_nth [OF that] by (simp add: fd_wf_def fd_free_def pipe_type_def)
  then show ?thesis unfolding table_wf_def using l by (auto simp: in_set_conv_nth)
qed

theorem descriptors_well_typed_witness:
  "\<exists>r k'. syscall_handler_c (frame5\<lparr>f_rax := 32\<rparr>) sys5 = Some (r, k') \<and> table_wf k' 0x1000"
proof -
  obtain r k' where e: "syscall_handler_c (frame5\<lparr>f_rax := 32\<rparr>) sys5 = Some (r, k')"
    by (cases "sys_dup (frame5\<lparr>f_rax := 32\<rparr>) sys5") (simp add: syscall_handler_c_def)
  have "table_wf k' 0x1000"
    by (rule descriptors_well_typed [OF _ e, of "{0x1000}"]) (use sys5_wf sys5_fields in \<open>auto simp: descriptor_call_def\<close>)
  then show ?thesis using e by blast
qed

end
