(* ===== verification/Tty.thy ===== *)
theory Tty
  imports Syscall
begin

text \<open>
  The text console (\<^verbatim>\<open>tty.c\<close>, \<^verbatim>\<open>serial.c\<close>): glyphs drawn into the framebuffer, the cursor, scrolling and the copy of the
  output on the serial line. Pixels are numbered from the start of the framebuffer. The font is a file that the boot
  loader provides: its bytes are a field of the state.
\<close>

section \<open>State\<close>

record psf1_font =
  charsize :: u8
  glyph_buffer :: "int \<Rightarrow> u8"

record console =
  renderer_fb :: framebuffer
  cursor_x :: u32
  cursor_y :: u32
  color :: u32
  font :: psf1_font
  pixels :: "nat \<Rightarrow> u32"
  serial_ready :: bool
  serial_out :: "u8 list"

abbreviation FG :: u32 where "FG \<equiv> 0xffebdbb2"
abbreviation BG :: u32 where "BG \<equiv> 0xff282828"

abbreviation fb_w :: "console \<Rightarrow> nat" where "fb_w k \<equiv> unat (fb_width (renderer_fb k))"
abbreviation fb_h :: "console \<Rightarrow> nat" where "fb_h k \<equiv> unat (fb_height (renderer_fb k))"
abbreviation fb_stride :: "console \<Rightarrow> nat" where "fb_stride k \<equiv> unat (fb_pixels_per_scan_line (renderer_fb k))"

section \<open>Operations\<close>

definition init_renderer :: "framebuffer \<Rightarrow> psf1_font \<Rightarrow> console \<Rightarrow> console" where
  "init_renderer fb f k = k\<lparr>color := FG, cursor_x := 0, cursor_y := 0, font := f, renderer_fb := fb\<rparr>"

text \<open>The rectangle of the loops \<^verbatim>\<open>for y in ys, for x in xs\<close>, with the colour \<open>f x y\<close>.\<close>

definition plot :: "nat \<Rightarrow> nat \<Rightarrow> u32 \<Rightarrow> console \<Rightarrow> console" where
  "plot x y c k = k\<lparr>pixels := (pixels k)(x + y * fb_stride k := c)\<rparr>"

definition fill :: "nat list \<Rightarrow> nat list \<Rightarrow> (nat \<Rightarrow> nat \<Rightarrow> u32) \<Rightarrow> console \<Rightarrow> console" where
  "fill xs ys f = fold (\<lambda>y. fold (\<lambda>x. plot x y (f x y)) xs) ys"

text \<open>\<^verbatim>\<open>chr\<close> is a signed char.\<close>

definition glyph_pixel :: "console \<Rightarrow> u8 \<Rightarrow> nat \<Rightarrow> nat \<Rightarrow> u32" where
  "glyph_pixel k chr dx dy =
     (let b = glyph_buffer (font k) (sint chr * uint (charsize (font k)) + int dy)
      in if b AND drop_bit dx 0x80 \<noteq> 0 then color k else BG)"

definition put_char :: "u8 \<Rightarrow> u32 \<Rightarrow> u32 \<Rightarrow> console \<Rightarrow> console" where
  "put_char chr xOff yOff k =
     fill [unat xOff..<unat (xOff + 8)] [unat yOff..<unat (yOff + 16)]
       (\<lambda>x y. glyph_pixel k chr (x - unat xOff) (y - unat yOff)) k"

definition clear :: "u32 \<Rightarrow> bool \<Rightarrow> console \<Rightarrow> console" where
  "clear c resetCursor k =
     (let k1 = fill [0..<fb_w k] [0..<fb_h k] (\<lambda>_ _. c) k
      in if resetCursor then k1\<lparr>cursor_x := 0, cursor_y := 0\<rparr> else k1)"

text \<open>\<^verbatim>\<open>memmove\<close> of the lower rows, then the new bottom row.\<close>

definition scroll_up :: "console \<Rightarrow> console" where
  "scroll_up k =
     (let height = ucast (fb_height (renderer_fb k)) :: u64;
          stride = ucast (fb_pixels_per_scan_line (renderer_fb k)) * 4 :: u64;
          n = unat ((height - 16) * stride) div 4;
          k1 = k\<lparr>pixels := (\<lambda>i. if i < n then pixels k (i + 16 * fb_stride k) else pixels k i)\<rparr>
      in fill [0..<fb_w k] [unat (height - 16)..<unat height] (\<lambda>_ _. BG) k1)"

definition serial_putchar :: "u8 \<Rightarrow> console \<Rightarrow> console" where
  "serial_putchar c k = (if serial_ready k then k\<lparr>serial_out := serial_out k @ [c]\<rparr> else k)"

definition serial_print :: "u8 list \<Rightarrow> console \<Rightarrow> console" where
  "serial_print cs = fold serial_putchar (takeWhile (\<lambda>c. c \<noteq> 0) cs)"

definition print_char_locked :: "u8 \<Rightarrow> console \<Rightarrow> console" where
  "print_char_locked chr k =
     (let k0 = serial_putchar chr k;
          k1 = (if chr = 10 then k0\<lparr>cursor_x := 0, cursor_y := cursor_y k0 + 16\<rparr>
                else if chr = 9 then k0\<lparr>cursor_x := cursor_x k0 + 8\<rparr>
                else if chr = 8 then
                  (if cursor_x k0 \<ge> 8 then k0\<lparr>cursor_x := cursor_x k0 - 8\<rparr>
                   else if cursor_y k0 \<ge> 16 then
                     k0\<lparr>cursor_y := cursor_y k0 - 16, cursor_x := (fb_width (renderer_fb k0) div 8 - 1) * 8\<rparr>
                   else k0)
                else (put_char chr (cursor_x k0) (cursor_y k0) k0)\<lparr>cursor_x := cursor_x k0 + 8\<rparr>);
          usable_width = fb_width (renderer_fb k1) div 8 * 8;
          usable_height = fb_height (renderer_fb k1) div 16 * 16;
          k2 = (if cursor_x k1 + 8 > usable_width then k1\<lparr>cursor_x := 0, cursor_y := cursor_y k1 + 16\<rparr> else k1)
      in if cursor_y k2 + 16 > usable_height
         then let k3 = scroll_up k2 in k3\<lparr>cursor_y := cursor_y k3 - 16\<rparr> else k2)"

definition print_n :: "u8 list \<Rightarrow> console \<Rightarrow> console" where
  "print_n cs = fold print_char_locked cs"

definition print :: "u8 list \<Rightarrow> console \<Rightarrow> console" where
  "print str = fold print_char_locked (takeWhile (\<lambda>c. c \<noteq> 0) str)"

section \<open>Drawing\<close>

definition same_console :: "console \<Rightarrow> console \<Rightarrow> bool" where
  "same_console k k' \<longleftrightarrow> k' = k\<lparr>pixels := pixels k'\<rparr>"

lemma same_consoleD:
  assumes "same_console k k'"
  shows "renderer_fb k' = renderer_fb k" "cursor_x k' = cursor_x k" "cursor_y k' = cursor_y k" "color k' = color k"
    "font k' = font k" "serial_ready k' = serial_ready k" "serial_out k' = serial_out k"
  using assms by (simp_all add: same_console_def, (metis console.ext_inject console.surjective console.update_convs(6))+)

lemma pixel_number:
  fixes p :: nat
  assumes "x < p" "x' < p"
  shows "x + y * p = x' + y' * p \<longleftrightarrow> x = x' \<and> y = y'"
proof
  assume e: "x + y * p = x' + y' * p"
  have "(x + y * p) mod p = x" "(x' + y' * p) mod p = x'" "(x + y * p) div p = y" "(x' + y' * p) div p = y'" using assms by simp_all
  then show "x = x' \<and> y = y'" using e by metis
qed simp

lemma plot_frame: "same_console k (plot x y c k)"
  by (simp add: same_console_def plot_def)

lemma same_console_trans: "same_console k k' \<Longrightarrow> same_console k' k'' \<Longrightarrow> same_console k k''"
  unfolding same_console_def by (cases k; cases k'; cases k'') simp

lemma fold_frame: "(\<And>x k. same_console k (f x k)) \<Longrightarrow> same_console k (fold f xs k)"
  by (induction xs arbitrary: k) (auto simp: same_console_def intro: same_console_trans [unfolded same_console_def])

lemma fill_frame: "same_console k (fill xs ys f k)"
  unfolding fill_def by (intro fold_frame plot_frame)

lemma fill_row:
  assumes "x < fb_stride k" "b \<le> fb_stride k"
  shows "pixels (fold (\<lambda>x. plot x y (f x)) [a..<b] k) (x + y' * fb_stride k) =
    (if y' = y \<and> a \<le> x \<and> x < b then f x else pixels k (x + y' * fb_stride k))"
  using assms(2)
proof (induction b)
  case (Suc b)
  let ?k = "fold (\<lambda>x. plot x y (f x)) [a..<b] k"
  have r: "renderer_fb ?k = renderer_fb k" by (rule same_consoleD(1) [OF fold_frame]) (rule plot_frame)
  have "b < fb_stride k" "b \<le> fb_stride k" using Suc.prems by simp_all
  note n = pixel_number [OF assms(1) this(1), of y' y] and IH = Suc.IH [OF this(2)]
  have "pixels (plot b y (f b) ?k) (x + y' * fb_stride k) = (if x = b \<and> y' = y then f b else pixels ?k (x + y' * fb_stride k))"
    by (simp add: plot_def r n)
  then show ?case unfolding IH by (cases "a \<le> b") auto
qed simp

lemma fill_pixels:
  assumes "x < fb_stride k" "b \<le> fb_stride k"
  shows "pixels (fill [a..<b] [c..<d] f k) (x + y * fb_stride k) =
    (if c \<le> y \<and> y < d \<and> a \<le> x \<and> x < b then f x y else pixels k (x + y * fb_stride k))"
proof (induction d)
  case (Suc d)
  let ?k = "fill [a..<b] [c..<d] f k"
  have r: "renderer_fb ?k = renderer_fb k" by (rule same_consoleD(1) [OF fill_frame])
  have "pixels (fold (\<lambda>x. plot x d (f x d)) [a..<b] ?k) (x + y * fb_stride k) =
    (if y = d \<and> a \<le> x \<and> x < b then f x d else pixels ?k (x + y * fb_stride k))"
    using fill_row [of x ?k b d "\<lambda>x. f x d" a y] assms r by simp
  then show ?case using Suc by (auto simp: fill_def)
qed (simp add: fill_def)

section \<open>The terminal that is shown\<close>

record screen =
  cell :: "nat \<Rightarrow> nat \<Rightarrow> u8 option"
  srow :: nat
  scol :: nat

text \<open>A terminal of \<open>R\<close> rows and \<open>C\<close> columns: what a character does to it.\<close>

definition term_act :: "nat \<Rightarrow> u8 \<Rightarrow> screen \<Rightarrow> screen" where
  "term_act C c s =
     (if c = 10 then s\<lparr>srow := srow s + 1, scol := 0\<rparr>
      else if c = 9 then s\<lparr>scol := scol s + 1\<rparr>
      else if c = 8 then
        (if 0 < scol s then s\<lparr>scol := scol s - 1\<rparr>
         else if 0 < srow s then s\<lparr>srow := srow s - 1, scol := C - 1\<rparr> else s)
      else s\<lparr>cell := (cell s)(srow s := (cell s (srow s))(scol s := Some c)), scol := scol s + 1\<rparr>)"

definition term_wrap :: "nat \<Rightarrow> screen \<Rightarrow> screen" where
  "term_wrap C s = (if C \<le> scol s then s\<lparr>srow := srow s + 1, scol := 0\<rparr> else s)"

definition term_scroll :: "nat \<Rightarrow> screen \<Rightarrow> screen" where
  "term_scroll R s =
     (if R \<le> srow s then s\<lparr>cell := (\<lambda>r c. if r + 1 < R then cell s (r + 1) c else None), srow := srow s - 1\<rparr> else s)"

definition term_char :: "nat \<Rightarrow> nat \<Rightarrow> u8 \<Rightarrow> screen \<Rightarrow> screen" where
  "term_char R C c s = term_scroll R (term_wrap C (term_act C c s))"

abbreviation text_rows :: "console \<Rightarrow> nat" where "text_rows k \<equiv> fb_h k div 16"
abbreviation text_cols :: "console \<Rightarrow> nat" where "text_cols k \<equiv> fb_w k div 8"

definition cell_pixel :: "console \<Rightarrow> u8 option \<Rightarrow> nat \<Rightarrow> nat \<Rightarrow> u32" where
  "cell_pixel k x dx dy = (case x of None \<Rightarrow> BG | Some c \<Rightarrow> glyph_pixel k c dx dy)"

text \<open>The screen has room for a character, and the framebuffer fits into memory.\<close>

definition console_ok :: "console \<Rightarrow> bool" where
  "console_ok k \<longleftrightarrow> 8 \<le> fb_w k \<and> 16 \<le> fb_h k \<and> fb_w k \<le> fb_stride k \<and> fb_w k < 2 ^ 31 \<and> fb_h k < 2 ^ 31 \<and>
     fb_h k * fb_stride k < 2 ^ 60"

definition drawn :: "console \<Rightarrow> (nat \<Rightarrow> nat \<Rightarrow> u8 option) \<Rightarrow> bool" where
  "drawn k g \<longleftrightarrow> (\<forall>x < 8 * text_cols k. \<forall>y < fb_h k. pixels k (x + y * fb_stride k) =
     (if y < 16 * text_rows k then cell_pixel k (g (y div 16) (x div 8)) (x mod 8) (y mod 16) else BG))"

definition cursor_at :: "console \<Rightarrow> nat \<Rightarrow> nat \<Rightarrow> bool" where
  "cursor_at k r c \<longleftrightarrow> unat (cursor_x k) = 8 * c \<and> unat (cursor_y k) = 16 * r"

definition shows_screen :: "console \<Rightarrow> screen \<Rightarrow> bool" where
  "shows_screen k s \<longleftrightarrow> console_ok k \<and> drawn k (cell s) \<and> cursor_at k (srow s) (scol s) \<and>
     srow s < text_rows k \<and> scol s < text_cols k"

lemma console_okD:
  assumes "console_ok k"
  shows "8 * text_cols k \<le> fb_stride k" "16 * text_rows k \<le> fb_h k" "0 < text_cols k" "0 < text_rows k"
    "8 * text_cols k < 2 ^ 31" "16 * text_rows k < 2 ^ 31"
  using assms by (auto simp: console_ok_def)

lemma glyph_pixel_cong: "font k' = font k \<Longrightarrow> color k' = color k \<Longrightarrow> glyph_pixel k' = glyph_pixel k"
  by (intro ext) (simp add: glyph_pixel_def)

lemma drawn_cong:
  "renderer_fb k' = renderer_fb k \<Longrightarrow> font k' = font k \<Longrightarrow> color k' = color k \<Longrightarrow> pixels k' = pixels k \<Longrightarrow> drawn k' g = drawn k g"
  by (simp add: drawn_def cell_pixel_def glyph_pixel_cong [of k' k] cong: option.case_cong)

lemma unat_widen: "unat (ucast (x :: u32) :: u64) = unat x"
  using unat_less_two_power [of x] by (simp add: unsigned_ucast_eq take_bit_nat_eq_self_iff)

lemma unat_plus_small: "unat x + n < 2 ^ 32 \<Longrightarrow> n < 2 ^ 32 \<Longrightarrow> unat (x + of_nat n :: u32) = unat x + n"
  by (simp add: unat_word_ariths unat_of_nat)

lemma put_char_drawn:
  assumes ok: "console_ok k" and d: "drawn k g" and c: "cursor_at k r c" "r < text_rows k" "c < text_cols k"
  shows "drawn (put_char chr (cursor_x k) (cursor_y k) k) (g(r := (g r)(c := Some chr)))"
proof -
  note okD = console_okD [OF ok]
  let ?k = "put_char chr (cursor_x k) (cursor_y k) k"
  have u: "unat (cursor_x k) = 8 * c" "unat (cursor_y k) = 16 * r" using c by (simp_all add: cursor_at_def)
  have u8: "unat (cursor_x k + 8) = 8 * c + 8" "unat (cursor_y k + 16) = 16 * r + 16"
    using unat_plus_small [of "cursor_x k" 8] unat_plus_small [of "cursor_y k" 16] u okD c by simp_all
  have f: "same_console k ?k" unfolding put_char_def by (rule fill_frame)
  note fD = same_consoleD [OF f]
  have p: "pixels ?k (x + y * fb_stride k) = (if 16 * r \<le> y \<and> y < 16 * r + 16 \<and> 8 * c \<le> x \<and> x < 8 * c + 8
      then glyph_pixel k chr (x - 8 * c) (y - 16 * r) else pixels k (x + y * fb_stride k))" if "x < 8 * text_cols k" for x y
    unfolding put_char_def u u8 by (rule fill_pixels) (use that okD c in auto)
  have "pixels ?k (x + y * fb_stride k) = (if y < 16 * text_rows k
      then cell_pixel k ((g(r := (g r)(c := Some chr))) (y div 16) (x div 8)) (x mod 8) (y mod 16) else BG)"
    if x: "x < 8 * text_cols k" and y: "y < fb_h k" for x y
  proof (cases "y div 16 = r \<and> x div 8 = c")
    case True
    then have "x mod 8 = x - 8 * c" "y mod 16 = y - 16 * r" "16 * r \<le> y" "y < 16 * r + 16" "8 * c \<le> x" "x < 8 * c + 8"
      by (auto simp: minus_mult_div_eq_mod)
    then show ?thesis using p [OF x, of y] True c by (auto simp: cell_pixel_def)
  next
    case False
    then have "\<not> (16 * r \<le> y \<and> y < 16 * r + 16 \<and> 8 * c \<le> x \<and> x < 8 * c + 8)" by auto
    then show ?thesis using p [OF x, of y] False d x y by (auto simp: drawn_def)
  qed
  then show ?thesis unfolding drawn_def cell_pixel_def glyph_pixel_cong [OF fD(5,4)] fD(1) by simp
qed

lemma unat_mult_word: "unat (x * y) = unat x * unat y mod 2 ^ LENGTH('a)" for x y :: "'a::len word"
  by (simp add: unat_word_ariths)

lemma bytes_bound: "(n :: nat) < 2 ^ 60 \<Longrightarrow> n * 4 < 2 ^ 64"
  by simp

lemma scroll_count:
  assumes ok: "console_ok k"
  defines "h \<equiv> ucast (fb_height (renderer_fb k)) :: u64"
  shows "unat h = fb_h k" "unat (h - 16) = fb_h k - 16"
    "unat ((h - 16) * (ucast (fb_pixels_per_scan_line (renderer_fb k)) * 4)) div 4 = (fb_h k - 16) * fb_stride k"
proof -
  let ?s = "ucast (fb_pixels_per_scan_line (renderer_fb k)) * 4 :: u64"
  have b: "16 \<le> fb_h k" "fb_h k * fb_stride k < 2 ^ 60" using ok by (auto simp: console_ok_def)
  show h: "unat h = fb_h k" "unat (h - 16) = fb_h k - 16"
    using b(1) by (simp_all add: h_def unat_widen unat_sub word_le_nat_alt)
  have s: "unat ?s = fb_stride k * 4"
    using unat_less_two_power [of "fb_pixels_per_scan_line (renderer_fb k)"] by (simp add: unat_word_ariths unat_widen)
  have "(fb_h k - 16) * fb_stride k < 2 ^ 60" by (rule le_less_trans [OF _ b(2)]) simp
  then have "(fb_h k - 16) * fb_stride k * 4 < 2 ^ 64" by (rule bytes_bound)
  then have "(fb_h k - 16) * (fb_stride k * 4) < 2 ^ 64" by (simp only: mult.assoc)
  then have "unat ((h - 16) * ?s) = (fb_h k - 16) * (fb_stride k * 4)"
    unfolding unat_mult_word [of "h - 16" ?s] h s by simp
  then show "unat ((h - 16) * ?s) div 4 = (fb_h k - 16) * fb_stride k" by simp
qed

lemma scroll_up_pixels:
  assumes ok: "console_ok k" and x: "x < fb_w k" "y < fb_h k"
  shows "pixels (scroll_up k) (x + y * fb_stride k) = (if y < fb_h k - 16 then pixels k (x + (y + 16) * fb_stride k) else BG)"
proof -
  have b: "x < fb_stride k" "fb_w k \<le> fb_stride k" using ok x by (auto simp: console_ok_def)
  define k1 where "k1 = k\<lparr>pixels := (\<lambda>i. if i < (fb_h k - 16) * fb_stride k then pixels k (i + 16 * fb_stride k) else pixels k i)\<rparr>"
  have e: "scroll_up k = fill [0..<fb_w k] [fb_h k - 16..<fb_h k] (\<lambda>_ _. BG) k1"
    by (simp add: scroll_up_def Let_def scroll_count [OF ok] k1_def)
  have i: "x + y * fb_stride k < (fb_h k - 16) * fb_stride k \<longleftrightarrow> y < fb_h k - 16"
  proof
    assume "y < fb_h k - 16"
    then have "(y + 1) * fb_stride k \<le> (fb_h k - 16) * fb_stride k" by (intro mult_le_mono) auto
    then show "x + y * fb_stride k < (fb_h k - 16) * fb_stride k" using b(1) by simp
  next
    assume "x + y * fb_stride k < (fb_h k - 16) * fb_stride k"
    then have "y * fb_stride k < (fb_h k - 16) * fb_stride k" by (rule le_less_trans [rotated]) simp
    then show "y < fb_h k - 16" using mult_less_cancel2 by blast
  qed
  have "pixels (scroll_up k) (x + y * fb_stride k) =
    (if fb_h k - 16 \<le> y \<and> y < fb_h k \<and> 0 \<le> x \<and> x < fb_w k then BG else pixels k1 (x + y * fb_stride k))"
    unfolding e using fill_pixels [of x k1 "fb_w k" 0 "fb_h k - 16" "fb_h k" "\<lambda>_ _. BG" y] b by (simp add: k1_def)
  also have "pixels k1 (x + y * fb_stride k) = (if y < fb_h k - 16 then pixels k (x + (y + 16) * fb_stride k) else pixels k (x + y * fb_stride k))"
    using i by (simp add: k1_def algebra_simps)
  finally show ?thesis using x by (auto simp: not_less)
qed

section \<open>One character\<close>

text \<open>The three parts of \<^verbatim>\<open>print_char_locked\<close>.\<close>

definition con_act :: "u8 \<Rightarrow> console \<Rightarrow> console" where
  "con_act chr k =
     (if chr = 10 then k\<lparr>cursor_x := 0, cursor_y := cursor_y k + 16\<rparr>
      else if chr = 9 then k\<lparr>cursor_x := cursor_x k + 8\<rparr>
      else if chr = 8 then
        (if cursor_x k \<ge> 8 then k\<lparr>cursor_x := cursor_x k - 8\<rparr>
         else if cursor_y k \<ge> 16 then k\<lparr>cursor_y := cursor_y k - 16, cursor_x := (fb_width (renderer_fb k) div 8 - 1) * 8\<rparr>
         else k)
      else (put_char chr (cursor_x k) (cursor_y k) k)\<lparr>cursor_x := cursor_x k + 8\<rparr>)"

definition con_wrap :: "console \<Rightarrow> console" where
  "con_wrap k = (if cursor_x k + 8 > fb_width (renderer_fb k) div 8 * 8 then k\<lparr>cursor_x := 0, cursor_y := cursor_y k + 16\<rparr> else k)"

definition con_scroll :: "console \<Rightarrow> console" where
  "con_scroll k = (if cursor_y k + 16 > fb_height (renderer_fb k) div 16 * 16
     then (scroll_up k)\<lparr>cursor_y := cursor_y (scroll_up k) - 16\<rparr> else k)"

lemma print_char_parts: "print_char_locked chr k = con_scroll (con_wrap (con_act chr (serial_putchar chr k)))"
proof -
  have g: "con_scroll (con_wrap k1) =
     (let usable_width = fb_width (renderer_fb k1) div 8 * 8;
          usable_height = fb_height (renderer_fb k1) div 16 * 16;
          k2 = (if cursor_x k1 + 8 > usable_width then k1\<lparr>cursor_x := 0, cursor_y := cursor_y k1 + 16\<rparr> else k1)
      in if cursor_y k2 + 16 > usable_height
         then let k3 = scroll_up k2 in k3\<lparr>cursor_y := cursor_y k3 - 16\<rparr> else k2)" for k1
    by (simp add: con_scroll_def con_wrap_def Let_def)
  show ?thesis unfolding print_char_locked_def g con_act_def Let_def by (rule refl)
qed

text \<open>The state between the parts.\<close>

definition shows_at :: "console \<Rightarrow> screen \<Rightarrow> bool" where
  "shows_at k s \<longleftrightarrow> console_ok k \<and> drawn k (cell s) \<and> cursor_at k (srow s) (scol s)"

lemma shows_at_serial: "shows_at (serial_putchar c k) s = shows_at k s"
  using drawn_cong [of "serial_putchar c k" k] by (simp add: serial_putchar_def shows_at_def console_ok_def cursor_at_def)

lemma shows_at_cursor:
  assumes "shows_at k s" "unat x = 8 * c" "unat y = 16 * r"
  shows "shows_at (k\<lparr>cursor_x := x, cursor_y := y\<rparr>) (s\<lparr>srow := r, scol := c\<rparr>)"
proof -
  have "drawn (k\<lparr>cursor_x := x, cursor_y := y\<rparr>) (cell s) = drawn k (cell s)" by (rule drawn_cong) simp_all
  then show ?thesis using assms by (simp add: shows_at_def cursor_at_def console_ok_def)
qed

lemma shows_at_row:
  assumes "shows_at k s" "unat y = 16 * r"
  shows "shows_at (k\<lparr>cursor_y := y\<rparr>) (s\<lparr>srow := r\<rparr>)"
  using shows_at_cursor [OF assms(1) _ assms(2), of "cursor_x k" "scol s"] assms(1) by (simp add: shows_at_def cursor_at_def)

lemma shows_at_col:
  assumes "shows_at k s" "unat x = 8 * c"
  shows "shows_at (k\<lparr>cursor_x := x\<rparr>) (s\<lparr>scol := c\<rparr>)"
  using shows_at_cursor [OF assms, of "cursor_y k" "srow s"] assms(1) by (simp add: shows_at_def cursor_at_def)

lemma cursor_swap: "k\<lparr>cursor_y := b, cursor_x := a\<rparr> = k\<lparr>cursor_x := a, cursor_y := b\<rparr>"
  by (cases k) simp

lemma console_add:
  assumes "console_ok k" "cursor_at k r c" "r \<le> text_rows k" "c \<le> text_cols k"
  shows "unat (cursor_x k + 8) = 8 * c + 8" "unat (cursor_y k + 16) = 16 * r + 16"
  using unat_plus_small [of "cursor_x k" 8] unat_plus_small [of "cursor_y k" 16] console_okD [OF assms(1)] assms(2-)
  by (simp_all add: cursor_at_def)

lemma put_char_frame: "same_console k (put_char c x y k)"
  unfolding put_char_def by (rule fill_frame)

lemma con_act_shows:
  assumes s: "shows_at k s" and b: "srow s < text_rows k" "scol s < text_cols k"
  shows "shows_at (con_act chr k) (term_act (text_cols k) chr s)"
proof -
  let ?C = "text_cols k"
  have ok: "console_ok k" and d: "drawn k (cell s)" and c: "cursor_at k (srow s) (scol s)" using s by (simp_all add: shows_at_def)
  note add = console_add [OF ok c less_imp_le [OF b(1)] less_imp_le [OF b(2)]]
  have u: "unat (cursor_x k) = 8 * scol s" "unat (cursor_y k) = 16 * srow s" using c by (simp_all add: cursor_at_def)
  have le: "8 \<le> cursor_x k \<longleftrightarrow> 0 < scol s" "16 \<le> cursor_y k \<longleftrightarrow> 0 < srow s" using u by (auto simp: word_le_nat_alt)
  have sub: "0 < scol s \<Longrightarrow> unat (cursor_x k - 8) = 8 * (scol s - 1)" "0 < srow s \<Longrightarrow> unat (cursor_y k - 16) = 16 * (srow s - 1)"
    using u le by (auto simp: unat_sub)
  have w: "unat (fb_width (renderer_fb k) div 8) = ?C" by (simp add: unat_div)
  then have "unat (fb_width (renderer_fb k) div 8 - 1) = ?C - 1" using console_okD(3) [OF ok] by (subst unat_sub) (auto simp: word_le_nat_alt)
  then have last: "unat ((fb_width (renderer_fb k) div 8 - 1) * 8) = 8 * (?C - 1)"
    using console_okD(5) [OF ok] by (simp add: unat_word_ariths del: left_diff_distrib_numeral)
  note cur = shows_at_cursor [OF s]
  consider "chr = 10" | "chr = 9" | "chr = 8" "0 < scol s" | "chr = 8" "scol s = 0" "0 < srow s" | "chr = 8" "scol s = 0" "srow s = 0"
    | "chr \<noteq> 10" "chr \<noteq> 9" "chr \<noteq> 8" by blast
  then show ?thesis
  proof cases
    case 1
    then show ?thesis using cur [of 0 0 "cursor_y k + 16" "srow s + 1"] add by (simp add: con_act_def term_act_def)
  next
    case 2
    then show ?thesis using cur [of "cursor_x k + 8" "scol s + 1" "cursor_y k" "srow s"] add u by (simp add: con_act_def term_act_def)
  next
    case 3
    then show ?thesis using cur [of "cursor_x k - 8" "scol s - 1" "cursor_y k" "srow s"] sub u le by (simp add: con_act_def term_act_def)
  next
    case 4
    then show ?thesis using cur [OF last, of "cursor_y k - 16" "srow s - 1"] sub le by (simp add: con_act_def term_act_def cursor_swap)
  next
    case 5
    then show ?thesis using s le by (simp add: con_act_def term_act_def)
  next
    case 6
    let ?k = "put_char chr (cursor_x k) (cursor_y k) k" and ?s = "s\<lparr>cell := (cell s)(srow s := (cell s (srow s))(scol s := Some chr))\<rparr>"
    note fr = same_consoleD [OF put_char_frame [of k chr "cursor_x k" "cursor_y k"]]
    have "shows_at ?k ?s"
      using put_char_drawn [OF ok d c b] ok c fr by (simp add: shows_at_def console_ok_def cursor_at_def)
    from shows_at_col [OF this, of "cursor_x k + 8" "scol s + 1"]
    show ?thesis using add 6 by (simp add: con_act_def term_act_def)
  qed
qed

lemma con_act_frame:
  "renderer_fb (con_act chr k) = renderer_fb k" "serial_out (con_act chr k) = serial_out k"
  "serial_ready (con_act chr k) = serial_ready k"
  using same_consoleD [OF put_char_frame [of k chr "cursor_x k" "cursor_y k"]] by (simp_all add: con_act_def)

lemma con_wrap_shows:
  assumes s: "shows_at k s" and b: "srow s \<le> text_rows k" "scol s \<le> text_cols k"
  shows "shows_at (con_wrap k) (term_wrap (text_cols k) s)"
proof -
  have ok: "console_ok k" and c: "cursor_at k (srow s) (scol s)" using s by (simp_all add: shows_at_def)
  note add = console_add [OF ok c b]
  have "unat (fb_width (renderer_fb k) div 8 * 8) = 8 * text_cols k" using console_okD(5) [OF ok] by (simp add: unat_word_ariths unat_div)
  then have "fb_width (renderer_fb k) div 8 * 8 < cursor_x k + 8 \<longleftrightarrow> text_cols k \<le> scol s" using add by (auto simp: word_less_nat_alt)
  then show ?thesis
    using s shows_at_cursor [OF s, of 0 0 "cursor_y k + 16" "srow s + 1"] add by (simp add: con_wrap_def term_wrap_def)
qed

lemma scroll_up_frame: "same_console k (scroll_up k)"
  unfolding scroll_up_def Let_def by (rule same_console_trans [OF _ fill_frame]) (simp add: same_console_def)

lemma scroll_up_drawn:
  assumes ok: "console_ok k" and d: "drawn k g"
  shows "drawn (scroll_up k) (\<lambda>r c. if r + 1 < text_rows k then g (r + 1) c else None)"
proof -
  note fr = same_consoleD [OF scroll_up_frame [of k]]
  have "pixels (scroll_up k) (x + y * fb_stride k) = (if y < 16 * text_rows k
      then cell_pixel k (if y div 16 + 1 < text_rows k then g (y div 16 + 1) (x div 8) else None) (x mod 8) (y mod 16) else BG)"
    if x: "x < 8 * text_cols k" and y: "y < fb_h k" for x y
  proof -
    have xw: "x < fb_w k" using x by simp
    have p: "pixels k (x + (y + 16) * fb_stride k) = (if y + 16 < 16 * text_rows k
        then cell_pixel k (g ((y + 16) div 16) (x div 8)) (x mod 8) ((y + 16) mod 16) else BG)" if "y < fb_h k - 16"
      using d x that unfolding drawn_def by simp
    show ?thesis
    proof (cases "y < fb_h k - 16")
      case True
      have "y + 16 < 16 * text_rows k \<longleftrightarrow> y div 16 + 1 < text_rows k" "(y + 16) div 16 = y div 16 + 1" by auto
      then show ?thesis using scroll_up_pixels [OF ok xw y] p [OF True] True by (simp add: cell_pixel_def)
    next
      case False
      then have "\<not> y div 16 + 1 < text_rows k" by auto
      then show ?thesis using scroll_up_pixels [OF ok xw y] False by (simp add: cell_pixel_def)
    qed
  qed
  then show ?thesis unfolding drawn_def cell_pixel_def glyph_pixel_cong [OF fr(5,4)] fr(1) by simp
qed

lemma con_scroll_shows:
  assumes s: "shows_at k s" and b: "srow s \<le> text_rows k" "scol s < text_cols k"
  shows "shows_screen (con_scroll k) (term_scroll (text_rows k) s)"
proof -
  have ok: "console_ok k" and d: "drawn k (cell s)" and c: "cursor_at k (srow s) (scol s)" using s by (simp_all add: shows_at_def)
  note add = console_add [OF ok c b(1) less_imp_le [OF b(2)]]
  note fr = same_consoleD [OF scroll_up_frame [of k]]
  have "unat (fb_height (renderer_fb k) div 16 * 16) = 16 * text_rows k" using console_okD(6) [OF ok] by (simp add: unat_word_ariths unat_div)
  then have t: "fb_height (renderer_fb k) div 16 * 16 < cursor_y k + 16 \<longleftrightarrow> text_rows k \<le> srow s" using add by (auto simp: word_less_nat_alt)
  show ?thesis
  proof (cases "text_rows k \<le> srow s")
    case True
    then have r: "srow s = text_rows k" using b by simp
    have "shows_at (scroll_up k) (s\<lparr>cell := (\<lambda>r c. if r + 1 < text_rows k then cell s (r + 1) c else None)\<rparr>)"
      using scroll_up_drawn [OF ok d] ok c fr by (simp add: shows_at_def console_ok_def cursor_at_def)
    moreover have "unat (cursor_y k - 16) = 16 * (srow s - 1)"
      using c r console_okD(4) [OF ok] by (subst unat_sub) (auto simp: cursor_at_def word_le_nat_alt)
    ultimately have "shows_at (con_scroll k) (term_scroll (text_rows k) s)"
      using shows_at_row [of "scroll_up k" _ "cursor_y k - 16" "srow s - 1"] fr t True
      by (simp add: con_scroll_def term_scroll_def)
    then show ?thesis using r b console_okD(4) [OF ok] fr t
      by (simp add: shows_screen_def shows_at_def con_scroll_def term_scroll_def)
  next
    case False
    then show ?thesis using s t b by (simp add: shows_screen_def shows_at_def con_scroll_def term_scroll_def)
  qed
qed

section \<open>Text\<close>

lemma serial_putchar_frame:
  "renderer_fb (serial_putchar c k) = renderer_fb k" "pixels (serial_putchar c k) = pixels k"
  "font (serial_putchar c k) = font k" "color (serial_putchar c k) = color k"
  "cursor_x (serial_putchar c k) = cursor_x k" "cursor_y (serial_putchar c k) = cursor_y k"
  "serial_ready (serial_putchar c k) = serial_ready k"
  "serial_out (serial_putchar c k) = serial_out k @ (if serial_ready k then [c] else [])"
  by (simp_all add: serial_putchar_def)

lemma con_frame:
  "renderer_fb (con_wrap k) = renderer_fb k" "serial_out (con_wrap k) = serial_out k" "serial_ready (con_wrap k) = serial_ready k"
  "pixels (con_wrap k) = pixels k" "font (con_wrap k) = font k" "color (con_wrap k) = color k"
  "renderer_fb (con_scroll k) = renderer_fb k" "serial_out (con_scroll k) = serial_out k" "serial_ready (con_scroll k) = serial_ready k"
  using same_consoleD [OF scroll_up_frame [of k]] by (simp_all add: con_wrap_def con_scroll_def)

lemma print_char_shows:
  assumes "shows_screen k s"
  shows "shows_screen (print_char_locked c k) (term_char (text_rows k) (text_cols k) c s)"
proof -
  let ?k0 = "serial_putchar c k" and ?s1 = "term_act (text_cols k) c s"
  let ?k1 = "con_act c ?k0" and ?s2 = "term_wrap (text_cols k) ?s1"
  have s: "shows_at ?k0 s" and b: "srow s < text_rows k" "scol s < text_cols k" and ok: "console_ok k"
    unfolding shows_at_serial using assms by (simp_all add: shows_screen_def shows_at_def)
  have fb: "renderer_fb ?k0 = renderer_fb k" "renderer_fb ?k1 = renderer_fb k" "renderer_fb (con_wrap ?k1) = renderer_fb k"
    by (simp_all add: serial_putchar_frame con_act_frame con_frame)
  have s1: "shows_at ?k1 ?s1" using con_act_shows [OF s, of c] b fb by simp
  have b1: "srow ?s1 \<le> text_rows k" "scol ?s1 \<le> text_cols k" "srow ?s1 = text_rows k \<Longrightarrow> scol ?s1 = 0"
    using b by (auto simp: term_act_def split: if_splits)
  have s2: "shows_at (con_wrap ?k1) ?s2" using con_wrap_shows [OF s1] b1 fb by simp
  have b2: "srow ?s2 \<le> text_rows k" "scol ?s2 < text_cols k"
    using b1 console_okD(3) [OF ok] by (auto simp: term_wrap_def le_less)
  show ?thesis using con_scroll_shows [OF s2] b2 fb unfolding print_char_parts term_char_def by simp
qed

lemma print_char_frame:
  "renderer_fb (print_char_locked c k) = renderer_fb k" "serial_ready (print_char_locked c k) = serial_ready k"
  "serial_out (print_char_locked c k) = serial_out k @ (if serial_ready k then [c] else [])"
  by (simp_all add: print_char_parts con_frame con_act_frame serial_putchar_frame)

text \<open>Nothing outside the framebuffer is written, and the font and the colour stay.\<close>

definition fb_frame :: "console \<Rightarrow> console \<Rightarrow> bool" where
  "fb_frame k k' \<longleftrightarrow> renderer_fb k' = renderer_fb k \<and> font k' = font k \<and> color k' = color k \<and> (\<forall>i \<ge> fb_h k * fb_stride k. pixels k' i = pixels k i)"

lemma fb_frame_trans: "fb_frame k k' \<Longrightarrow> fb_frame k' k'' \<Longrightarrow> fb_frame k k''"
  by (simp add: fb_frame_def)

lemma fb_frame_plot: "x < fb_stride k \<Longrightarrow> y < fb_h k \<Longrightarrow> fb_frame k (plot x y c k)"
proof -
  assume "x < fb_stride k" "y < fb_h k"
  then have "x + y * fb_stride k < (y + 1) * fb_stride k" "(y + 1) * fb_stride k \<le> fb_h k * fb_stride k"
    by (simp, intro mult_le_mono) auto
  then have "x + y * fb_stride k < fb_h k * fb_stride k" by (rule less_le_trans)
  then show ?thesis by (auto simp: fb_frame_def plot_def)
qed

lemma fb_frame_fold:
  assumes "\<And>x k'. x \<in> set xs \<Longrightarrow> renderer_fb k' = renderer_fb k \<Longrightarrow> fb_frame k' (f x k')"
  shows "fb_frame k (fold f xs k)"
  using assms
proof (induction xs arbitrary: k)
  case (Cons x xs)
  have f: "fb_frame k (f x k)" using Cons.prems by simp
  have "fb_frame (f x k) (fold f xs (f x k))" using Cons.prems f by (intro Cons.IH) (simp add: fb_frame_def)
  then show ?case using fb_frame_trans [OF f] by simp
qed (simp add: fb_frame_def)

lemma fb_frame_fill:
  assumes "\<forall>x \<in> set xs. x < fb_stride k" "\<forall>y \<in> set ys. y < fb_h k"
  shows "fb_frame k (fill xs ys f k)"
  unfolding fill_def by (intro fb_frame_fold fb_frame_plot) (use assms in auto)

lemma con_act_fb_frame:
  assumes "shows_at k s" "srow s < text_rows k" "scol s < text_cols k"
  shows "fb_frame k (con_act chr k)"
proof -
  have ok: "console_ok k" and c: "cursor_at k (srow s) (scol s)" using assms(1) by (simp_all add: shows_at_def)
  note add = console_add [OF ok c less_imp_le [OF assms(2)] less_imp_le [OF assms(3)]]
  have m: "8 * scol s + 8 \<le> 8 * text_cols k" "16 * srow s + 16 \<le> 16 * text_rows k" using assms(2,3) by simp_all
  have "fb_frame k (put_char chr (cursor_x k) (cursor_y k) k)"
    unfolding put_char_def add by (rule fb_frame_fill) (use m console_okD(1,2) [OF ok] in auto)
  then show ?thesis by (simp add: con_act_def fb_frame_def)
qed

lemma con_scroll_fb_frame:
  assumes "console_ok k"
  shows "fb_frame k (con_scroll k)"
proof -
  let ?h = "ucast (fb_height (renderer_fb k)) :: u64" and ?s = "ucast (fb_pixels_per_scan_line (renderer_fb k)) * 4 :: u64"
  let ?k1 = "k\<lparr>pixels := (\<lambda>i. if i < unat ((?h - 16) * ?s) div 4 then pixels k (i + 16 * fb_stride k) else pixels k i)\<rparr>"
  have "unat ((?h - 16) * ?s) div 4 \<le> fb_h k * fb_stride k" using scroll_count [OF assms] by simp
  then have k1: "fb_frame k ?k1" by (simp add: fb_frame_def)
  have f: "fb_frame ?k1 (scroll_up k)" unfolding scroll_up_def Let_def
    by (rule fb_frame_fill) (use assms in \<open>auto simp: console_ok_def unat_widen\<close>)
  show ?thesis using fb_frame_trans [OF k1 f] by (simp add: con_scroll_def fb_frame_def)
qed

lemma print_char_fb_frame:
  assumes "shows_screen k s"
  shows "fb_frame k (print_char_locked c k)"
proof -
  let ?k0 = "serial_putchar c k"
  have s: "shows_at ?k0 s" unfolding shows_at_serial using assms by (simp add: shows_screen_def shows_at_def)
  have "fb_frame ?k0 (con_act c ?k0)"
    by (rule con_act_fb_frame [OF s]) (use assms in \<open>simp_all add: shows_screen_def serial_putchar_frame\<close>)
  moreover have "console_ok (con_wrap (con_act c ?k0))"
    using assms by (simp add: shows_screen_def console_ok_def con_frame con_act_frame serial_putchar_frame)
  ultimately show ?thesis unfolding print_char_parts
    using con_scroll_fb_frame [of "con_wrap (con_act c ?k0)"] by (simp add: fb_frame_def con_frame con_act_frame serial_putchar_frame)
qed

section \<open>What the kernel prints\<close>

text \<open>
  The other theories log the bytes they print in \<open>echo\<close>. The console is the one that \<open>c\<close>, the console before the first of
  them, becomes when they are printed. So a write to descriptor 1 that is not redirected runs \<open>print_n\<close> on it, as
  \<^verbatim>\<open>SYS_write\<close> does, and a key that is typed runs it on the echoed character.
\<close>

definition console_of :: "console \<Rightarrow> 'a input_scheme \<Rightarrow> console" where
  "console_of c k = print_n (echo k) c"

lemma print_n_append: "print_n (xs @ ys) c = print_n ys (print_n xs c)"
  by (simp add: print_n_def)

lemma console_of_echo: "console_of c (k\<lparr>echo := echo k @ bs\<rparr>) = print_n bs (console_of c k)"
  by (simp add: console_of_def print_n_append)

lemma sys_write_console:
  assumes "f_rdi f = 1" "fd_type (cur_fd 1 k) \<noteq> FD_PIPE_WRITE"
  shows "console_of c (snd (sys_write f k)) = print_n (user_prefix (cur_space k) (f_rsi f) (unat (f_rdx f)) k) (console_of c k)"
  using assms by (simp add: sys_write_def Let_def console_of_echo)

section \<open>Properties\<close>

text \<open>
  C38: The console is a scrolling terminal. While the framebuffer shows a screen of text with the cursor on it, printing
  any bytes makes it show the screen that the terminal with that many rows and columns has after them: glyphs at the
  cursor, line feeds, tabs, backspaces over line ends, wrapping and scrolling. The cursor never leaves the screen,
  no memory outside the framebuffer is written, and the serial line gets the same bytes.
\<close>

theorem console_is_a_terminal:
  assumes "shows_screen k s"
  shows "shows_screen (print_n cs k) (fold (term_char (text_rows k) (text_cols k)) cs s) \<and> fb_frame k (print_n cs k) \<and>
    serial_out (print_n cs k) = serial_out k @ (if serial_ready k then cs else [])"
  using assms
proof (induction cs arbitrary: k s)
  case (Cons c cs)
  let ?k = "print_char_locked c k"
  note fr = print_char_frame [of c k]
  have f: "fb_frame k ?k" by (rule print_char_fb_frame [OF Cons.prems])
  show ?case using Cons.IH [OF print_char_shows [OF Cons.prems, of c]] fb_frame_trans [OF f] fr by (simp add: print_n_def)
qed (simp add: print_n_def fb_frame_def)

definition console0 :: console where
  "console0 = \<lparr>renderer_fb = \<lparr>fb_base_address = 0, fb_buffer_size = 2048, fb_width = 16, fb_height = 32, fb_pixels_per_scan_line = 16\<rparr>,
     cursor_x = 0, cursor_y = 0, color = FG, font = \<lparr>charsize = 16, glyph_buffer = (\<lambda>_. 0xFF)\<rparr>, pixels = (\<lambda>_. BG),
     serial_ready = True, serial_out = []\<rparr>"

definition screen0 :: screen where
  "screen0 = \<lparr>cell = (\<lambda>_ _. None), srow = 0, scol = 0\<rparr>"

theorem console_is_a_terminal_witness:
  "pixels (print_n [65, 10, 66, 10] console0) 0 = FG \<and> pixels (print_n [65, 10, 66, 10] console0) 256 = BG \<and>
   cursor_y (print_n [65, 10, 66, 10] console0) = 16 \<and> serial_out (print_n [65, 10, 66, 10] console0) = [65, 10, 66, 10]"
proof -
  let ?cs = "[65, 10, 66, 10] :: u8 list" and ?k = "print_n [65, 10, 66, 10] console0"
  have s0: "shows_screen console0 screen0"
    by (simp add: shows_screen_def console_ok_def drawn_def cursor_at_def cell_pixel_def console0_def screen0_def)
  note t = console_is_a_terminal [OF s0, of ?cs]
  have rc: "text_rows console0 = 2" "text_cols console0 = 2" by (simp_all add: console0_def)
  define s where "s = fold (term_char 2 2) ?cs screen0"
  have s: "cell s 0 0 = Some 66" "cell s 1 0 = None" "srow s = 1"
    by (simp_all add: s_def screen0_def term_char_def term_act_def term_wrap_def term_scroll_def)
  have sh: "shows_screen ?k s" "renderer_fb ?k = renderer_fb console0" "serial_out ?k = ?cs" "font ?k = font console0" "color ?k = color console0"
    using t unfolding rc s_def by (simp_all add: fb_frame_def) (simp_all add: console0_def)
  have dims: "fb_w ?k = 16" "fb_h ?k = 32" "fb_stride ?k = 16" by (simp_all add: sh(2)) (simp_all add: console0_def)
  have "drawn ?k (cell s)" using sh(1) by (simp add: shows_screen_def)
  from this [unfolded drawn_def dims]
  have px: "pixels ?k (y * 16) = cell_pixel ?k (cell s (y div 16) 0) 0 (y mod 16)" if "y < 32" for y using that by force
  have "cursor_y ?k = 16" using sh(1) s(3) unfolding shows_screen_def cursor_at_def by (simp add: word_unat_eq_iff)
  moreover have "pixels ?k 256 = BG" using px [of 16] s(2) by (simp add: cell_pixel_def)
  moreover have "pixels ?k 0 = FG" using px [of 0] s(1) by (simp add: cell_pixel_def glyph_pixel_def sh(4,5)) (simp add: console0_def)
  ultimately show ?thesis using sh(3) by simp
qed

end
