(* ===== verification/Vpages.thy ===== *)
theory Vpages
  imports User_Page
begin

text \<open>
  Pages of the user half by number, and runs of fresh pages: what the loader, \<^verbatim>\<open>mmap\<close> and \<^verbatim>\<open>brk\<close> have in common. The loops
  of the kernel allocate a frame for each page, fill it and map it; \<open>map_pages\<close> is that loop on a list of addresses and
  contents.
\<close>

section \<open>Page numbers\<close>

definition vpn :: "addr \<Rightarrow> nat" where
  "vpn va = unat va div 4096"

lemma vpath_vpn: "vpath va = [vpn va div 512 div 512 div 512 mod 512, vpn va div 512 div 512 mod 512, vpn va div 512 mod 512, vpn va mod 512]"
  unfolding vpath_def index_defs index_nat vpn_def by (simp add: div_mult2_eq [symmetric])

lemma four_digits:
  fixes n :: nat
  assumes "n < 2 ^ 36"
  shows "n = ((n div 512 div 512 div 512 mod 512 * 512 + n div 512 div 512 mod 512) * 512 + n div 512 mod 512) * 512 + n mod 512"
proof -
  have "n div 512 div 512 div 512 < 512" using assms by (simp add: div_mult2_eq [symmetric])
  then show ?thesis by (simp add: div_mult_mod_eq)
qed

lemma vpn_bound: "low_va va \<Longrightarrow> vpn va < 2 ^ 35"
  by (simp add: low_va_def vpn_def)

lemma vpath_eq_iff:
  assumes "low_va va" "low_va va'"
  shows "vpath va = vpath va' \<longleftrightarrow> vpn va = vpn va'"
proof
  assume e: "vpath va = vpath va'"
  have "vpn va < 2 ^ 36" "vpn va' < 2 ^ 36" using vpn_bound [OF assms(1)] vpn_bound [OF assms(2)] by simp_all
  from four_digits [OF this(1)] four_digits [OF this(2)] show "vpn va = vpn va'" using e unfolding vpath_vpn by simp
qed (simp add: vpath_vpn)

lemma lookup_vpn: "vpn va = vpn va' \<Longrightarrow> lookup m r va = lookup m r va'"
  by (simp add: lookup_def vpath_vpn)

text \<open>The address of byte \<open>off\<close> of page \<open>n\<close>.\<close>

definition vaddr :: "nat \<Rightarrow> nat \<Rightarrow> addr" where
  "vaddr n off = of_nat (n * 4096 + off)"

lemma unat_vaddr: "n < 2 ^ 35 \<Longrightarrow> off < 4096 \<Longrightarrow> unat (vaddr n off) = n * 4096 + off"
  unfolding vaddr_def unat_of_nat by simp

lemma vaddr_simps:
  assumes "n < 2 ^ 35" "off < 4096"
  shows "vpn (vaddr n off) = n" "low_va (vaddr n off)" "page_offset (vaddr n off) = off"
proof -
  note u = unat_vaddr [OF assms]
  show "vpn (vaddr n off) = n" "low_va (vaddr n off)" using assms by (simp_all add: vpn_def low_va_def u)
  have "(vaddr n off) AND 0xFFF = take_bit 12 (vaddr n off)" by (simp add: take_bit_eq_mask mask_eq_exp_minus_1)
  then have "page_offset (vaddr n off) = take_bit 12 (unat (vaddr n off))" by (simp only: page_offset_def unsigned_take_bit_eq)
  then show "page_offset (vaddr n off) = off" unfolding u using assms by (simp add: take_bit_eq_mod)
qed

lemma vaddr_of: "vaddr (vpn va) (unat va mod 4096) = va"
  by (simp add: vaddr_def vpn_def)

lemma vaddr_next: "vaddr n 0 + PAGE_SIZE = vaddr (Suc n) 0"
  by (simp add: vaddr_def)

section \<open>Runs of fresh pages\<close>

fun map_pages :: "addr \<Rightarrow> u64 \<Rightarrow> (addr \<times> (nat \<Rightarrow> u64)) list \<Rightarrow> 'a machine_scheme \<Rightarrow> bool \<times> 'a machine_scheme" where
  "map_pages r flags [] m = (True, m)"
| "map_pages r flags ((va, x) # ps) m =
     (case pmm_alloc_page m of (a, m1) \<Rightarrow>
        if a = NULL then (False, m1)
        else map_pages r flags ps (vmm_map_page r va a flags (with_frame (frame_no a) x m1)))"

lemma alloc_succeeds:
  assumes inv: "vm_inv m R X" and ff: "0 < free_frames m"
  obtains a m1 where "pmm_alloc_page m = (a, m1)" "a \<noteq> NULL"
proof -
  obtain a m1 where a: "pmm_alloc_page m = (a, m1)" by fastforce
  have "a \<noteq> NULL"
  proof
    assume "a = NULL"
    then have "\<forall>i < npages m. frame_state m i \<noteq> None" using pmm_alloc_page_NULL [OF vm_invD(1) [OF inv]] a by blast
    then have "{f. f < npages m \<and> frame_state m f = None} = {}" by blast
    then have "free_frames m = 0" unfolding free_frames_def by (simp only: card.empty)
    then show False using ff by simp
  qed
  then show ?thesis using that a by blast
qed

text \<open>What a run leaves alone: the other pages, and the contents of every page the allocator manages.\<close>

definition kept_pages :: "addr set \<Rightarrow> addr \<Rightarrow> nat set \<Rightarrow> 'a machine_scheme \<Rightarrow> 'a machine_scheme \<Rightarrow> bool" where
  "kept_pages R r N m m' \<longleftrightarrow> (\<forall>r' va. r' \<in> R \<longrightarrow> low_va va \<longrightarrow> r' \<noteq> r \<or> vpn va \<notin> N \<longrightarrow>
     lookup m' r' va = lookup m r' va \<and>
     (\<forall>e. lookup m r' va = Some e \<and> \<not> has_flag e PTE_NOPMM \<longrightarrow>
        phys_mem m' (frame_no (entry_addr e)) = phys_mem m (frame_no (entry_addr e))))"

lemma kept_lookup:
  "kept_pages R r N m m' \<Longrightarrow> r' \<in> R \<Longrightarrow> low_va va \<Longrightarrow> r' \<noteq> r \<or> vpn va \<notin> N \<Longrightarrow> lookup m' r' va = lookup m r' va"
  unfolding kept_pages_def by blast

definition page_shows :: "addr \<Rightarrow> u64 \<Rightarrow> 'a machine_scheme \<Rightarrow> addr \<Rightarrow> (nat \<Rightarrow> u64) \<Rightarrow> bool" where
  "page_shows r flags m va x \<longleftrightarrow> (\<exists>a. lookup m r va = Some (a OR flags) \<and> entry_addr (a OR flags) = a \<and> phys_mem m (frame_no a) = x)"

lemma page_shows_kept:
  assumes "page_shows r flags m va x" "kept_pages R r N m m'" "r \<in> R" "low_va va" "vpn va \<notin> N"
    and "\<And>a. lookup m r va = Some (a OR flags) \<Longrightarrow> \<not> has_flag (a OR flags) PTE_NOPMM"
  shows "page_shows r flags m' va x"
  using assms unfolding page_shows_def kept_pages_def by metis

lemma kept_pages_trans:
  assumes "kept_pages R r N m m1" "kept_pages R r N' m1 m2"
  shows "kept_pages R r (N \<union> N') m m2"
  using assms unfolding kept_pages_def by (metis UnCI)

lemma nopmm_entry:
  assumes "entry_addr (a OR flags) = a" "page_flags flags"
  shows "\<not> has_flag (a OR flags) PTE_NOPMM"
proof -
  have "\<not> has_flag (entry_addr e) PTE_NOPMM" for e by (simp add: has_flag_def entry_addr_def ADDR_MASK_def and.assoc)
  from this [of "a OR flags"] have "\<not> has_flag a PTE_NOPMM" unfolding assms(1) .
  then show ?thesis using assms(2) by (simp add: has_flag_or page_flags_def)
qed

lemma map_pages_spec:
  fixes m :: "'a machine_scheme"
  assumes inv: "vm_inv m R X" and r: "r \<in> R" and fl: "page_flags flags"
    and ps: "\<forall>(va, x) \<in> set ps. low_va va \<and> lookup m r va = None" "distinct (map (vpn \<circ> fst) ps)"
    and ff: "4 * length ps \<le> free_frames m"
  shows "\<exists>m'. map_pages r flags ps m = (True, m') \<and> vm_inv m' R X \<and> (\<forall>(va, x) \<in> set ps. page_shows r flags m' va x) \<and>
    kept_pages R r ((vpn \<circ> fst) ` set ps) m m' \<and> machine.more m' = machine.more m \<and>
    free_frames m \<le> free_frames m' + 4 * length ps"
  using inv ps ff
proof (induction ps arbitrary: m)
  case Nil
  then show ?case by (simp add: kept_pages_def)
next
  case (Cons p ps)
  obtain va x where p: "p = (va, x)" by fastforce
  have va: "low_va va" "lookup m r va = None" using Cons.prems(2) p by auto
  note uva = low_user_va [OF va(1)]
  have f4: "4 \<le> free_frames m" using Cons.prems(4) by simp
  obtain a m1 where a: "pmm_alloc_page m = (a, m1)" "a \<noteq> NULL" by (rule alloc_succeeds [OF Cons.prems(1)]) (use f4 in simp)
  let ?m3 = "vmm_map_page r va a flags (with_frame (frame_no a) x m1)"
  note new = map_new_page [OF Cons.prems(1) r uva va(2) a f4 fl]
  note mp = new(1) [where x = x] new(2) [where x = x] new(3) new(4) [where x = x] new(5) [where x = x] new(6) [where x = x]
    new(7) [where x = x] new(8) [where x = x]
  have far: "vpath va' \<noteq> vpath va" if "low_va va'" "vpn va' \<noteq> vpn va" for va' using vpath_eq_iff [OF that(1) va(1)] that(2) by simp
  have k1: "kept_pages R r {vpn va} m ?m3"
    unfolding kept_pages_def using mp(4,7) low_user_va far by (simp, blast)
  have un: "low_va va'" "lookup ?m3 r va' = None" "vpn va' \<noteq> vpn va" if "(va', x') \<in> set ps" for va' x'
  proof -
    have 1: "low_va va'" "lookup m r va' = None" using Cons.prems(2) that by auto
    have 2: "vpn va' \<noteq> vpn va" using Cons.prems(3) that p by (force simp: image_iff)
    show "low_va va'" "vpn va' \<noteq> vpn va" by (fact 1 2)+
    show "lookup ?m3 r va' = None" using mp(4) [OF r low_user_va [OF 1(1)]] far [OF 1(1) 2] 1(2) by simp
  qed
  have fm: "4 * length ps \<le> free_frames ?m3" using mp(6) Cons.prems(4) by simp
  have up: "\<forall>(va, x) \<in> set ps. low_va va \<and> lookup ?m3 r va = None" using un(1,2) by blast
  have ds: "distinct (map (vpn \<circ> fst) ps)" using Cons.prems(3) by (simp add: comp_def)
  obtain m' where m': "map_pages r flags ps ?m3 = (True, m')" "vm_inv m' R X" "\<forall>(va, x) \<in> set ps. page_shows r flags m' va x"
      "kept_pages R r ((vpn \<circ> fst) ` set ps) ?m3 m'" "machine.more m' = machine.more ?m3" "free_frames ?m3 \<le> free_frames m' + 4 * length ps"
    using Cons.IH [OF mp(1) up ds fm] by blast
  have sh: "page_shows r flags ?m3 va x" unfolding page_shows_def using mp(2,3,5) by blast
  have "vpn va \<notin> (vpn \<circ> fst) ` set ps" using Cons.prems(3) p by (simp add: comp_def)
  then have sh': "page_shows r flags m' va x"
    by (rule page_shows_kept [OF sh m'(4) r va(1)]) (metis mp(2) nopmm_entry [OF mp(3) fl] option.inject)
  have "kept_pages R r ((vpn \<circ> fst) ` set (p # ps)) m m'" using kept_pages_trans [OF k1 m'(4)] p by simp
  then show ?case using m' sh' p a mp(6,8) by auto
qed

text \<open>The bytes that are seen there.\<close>

lemma user_load_shows:
  assumes "page_shows r flags m (vaddr n 0) x" "n < 2 ^ 35" "off < 4096"
  shows "user_load r (vaddr n off) m = Some (byte_of (off mod 8) (x (off div 8)))"
proof -
  have "lookup m r (vaddr n off) = lookup m r (vaddr n 0)" by (rule lookup_vpn) (use assms(2,3) in \<open>simp add: vaddr_simps(1)\<close>)
  then show ?thesis using assms unfolding page_shows_def by (auto simp: user_load_def frame_byte_def vaddr_simps low_canonical)
qed

lemma user_load_kept:
  assumes k: "kept_pages R r N m m'" and v: "r' \<in> R" "low_va va" "r' \<noteq> r \<or> vpn va \<notin> N"
    and e: "\<And>e. lookup m r' va = Some e \<Longrightarrow> \<not> has_flag e PTE_NOPMM"
  shows "user_load r' va m' = user_load r' va m"
  by (rule user_load_frame) (use assms in \<open>auto simp: kept_pages_def\<close>)

end
