(* ===== verification/Elf_Props.thy ===== *)
theory Elf_Props
  imports Elf Vpages
begin

text \<open>
  The loader maps the image of an executable: every byte of a loadable segment is the byte of the file or zero, with the
  access rights of the segment, and nothing else changes in any address space.
\<close>

section \<open>The contents of a page\<close>

fun write_bytes :: "nat \<Rightarrow> u8 list \<Rightarrow> (nat \<Rightarrow> u64) \<Rightarrow> nat \<Rightarrow> u64" where
  "write_bytes off [] x = x"
| "write_bytes off (b # bs) x = write_bytes (off + 1) bs (x(off div 8 := put_byte_of (off mod 8) b (x (off div 8))))"

lemma with_frame_again [simp]: "with_frame f y (with_frame f x m) = with_frame f y m"
  by (simp add: with_frame_def)

lemma zero_page_frame: "zero_page a m = with_frame (frame_no a) (\<lambda>_. 0) m"
  by (simp add: zero_page_def with_frame_def)

lemma set_frame_bytes_frame: "set_frame_bytes f off bs m = with_frame f (write_bytes off bs (phys_mem m f)) m"
  by (induction bs arbitrary: off m) (simp_all add: with_frame_def set_frame_byte_def)

lemma write_bytes_byte:
  "byte_of (i mod 8) (write_bytes off bs (\<lambda>_. 0) (i div 8)) = (if off \<le> i \<and> i < off + length bs then bs ! (i - off) else 0)"
proof -
  let ?m = "undefined\<lparr>phys_mem := (\<lambda>_ _. 0)\<rparr> :: unit machine_scheme"
  have z: "byte_of j 0 = 0" for j by (simp add: byte_of_def)
  have "frame_byte (set_frame_bytes 0 off bs ?m) 0 i = byte_of (i mod 8) (write_bytes off bs (\<lambda>_. 0) (i div 8))"
    unfolding set_frame_bytes_frame by (simp add: frame_byte_def with_frame_def)
  moreover have "frame_byte ?m 0 i = 0" by (simp add: frame_byte_def z)
  ultimately show ?thesis unfolding frame_byte_set_bytes by (auto split: if_splits)
qed

text \<open>What \<^verbatim>\<open>fill_page\<close> puts into the frame.\<close>

definition page_image :: "bytes \<Rightarrow> u64 \<Rightarrow> elf64_phdr \<Rightarrow> u64 \<Rightarrow> nat \<Rightarrow> u64" where
  "page_image ram data ph va =
     (let copy_start = (if va > ph_vaddr ph then va else ph_vaddr ph);
          copy_end = (if va + PAGE_SIZE < ph_vaddr ph + ph_filesz ph then va + PAGE_SIZE else ph_vaddr ph + ph_filesz ph)
      in if copy_start < copy_end
         then write_bytes (unat (copy_start - va))
           (bytes_from (data + (ph_offset ph + (copy_start - ph_vaddr ph))) (unat (copy_end - copy_start)) ram) (\<lambda>_. 0)
         else (\<lambda>_. 0))"

lemma ramdisk_frame: "ramdisk (with_frame f x k) = ramdisk k"
  by (simp add: with_frame_def)

lemma ramdisk_more:
  fixes k k' :: "'a vfs_scheme"
  shows "machine.more k' = machine.more k \<Longrightarrow> ramdisk k' = ramdisk k"
  by (cases k; cases k') simp

lemma fill_page_image: "fill_page data ph va phys k = with_frame (frame_no phys) (page_image (ramdisk k) data ph va) k"
  by (simp add: fill_page_def page_image_def Let_def zero_page_frame set_frame_bytes_frame ramdisk_frame)

lemma length_bytes_from [simp]: "length (bytes_from a n m) = n"
  by (simp add: bytes_from_def)

lemma bytes_from_nth: "i < n \<Longrightarrow> bytes_from a n m ! i = m (a + of_nat i)"
  by (simp add: bytes_from_def)

lemma page_image_byte:
  assumes n: "n < 2 ^ 35" "off < 4096" and a: "unat (ph_vaddr ph) + unat (ph_filesz ph) \<le> 2 ^ 47"
  defines "i \<equiv> n * 4096 + off"
  shows "byte_of (off mod 8) (page_image ram data ph (vaddr n 0) (off div 8)) =
    (if unat (ph_vaddr ph) \<le> i \<and> i < unat (ph_vaddr ph) + unat (ph_filesz ph)
     then ram (data + ph_offset ph + of_nat (i - unat (ph_vaddr ph))) else 0)"
proof -
  let ?A = "unat (ph_vaddr ph)" and ?F = "unat (ph_filesz ph)"
  let ?s = "if vaddr n 0 > ph_vaddr ph then vaddr n 0 else ph_vaddr ph"
  let ?e = "if vaddr n 0 + PAGE_SIZE < ph_vaddr ph + ph_filesz ph then vaddr n 0 + PAGE_SIZE else ph_vaddr ph + ph_filesz ph"
  have va: "unat (vaddr n 0) = n * 4096" by (rule trans [OF unat_vaddr [OF n(1)]]) simp_all
  have pe: "unat (vaddr n 0 + PAGE_SIZE) = n * 4096 + 4096" unfolding unat_word_ariths va using n(1) by simp
  have fe: "unat (ph_vaddr ph + ph_filesz ph) = ?A + ?F" unfolding unat_word_ariths using a by simp
  have s: "unat ?s = max (n * 4096) ?A" by (simp add: word_less_nat_alt va max_def)
  have e: "unat ?e = min (n * 4096 + 4096) (?A + ?F)" by (simp only: word_less_nat_alt pe fe min_def if_distrib [of unat]) auto
  have off: "unat (?s - vaddr n 0) = max (n * 4096) ?A - n * 4096"
    by (subst unat_sub) (simp_all add: word_le_nat_alt s va del: if_split)
  have fo: "?s - ph_vaddr ph = of_nat (max (n * 4096) ?A - ?A)"
  proof -
    have "unat (?s - ph_vaddr ph) = max (n * 4096) ?A - ?A" by (subst unat_sub) (simp_all add: word_le_nat_alt s del: if_split)
    moreover have "of_nat (unat w) = w" for w :: u64 by simp
    ultimately show ?thesis by metis
  qed
  show ?thesis
  proof (cases "?s < ?e")
    case True
    then have lt: "max (n * 4096) ?A < min (n * 4096 + 4096) (?A + ?F)" unfolding word_less_nat_alt [of ?s ?e] s e .
    have len: "unat (?e - ?s) = min (n * 4096 + 4096) (?A + ?F) - max (n * 4096) ?A"
      using unat_sub [OF less_imp_le [OF True]] unfolding s e .
    have "byte_of (off mod 8) (page_image ram data ph (vaddr n 0) (off div 8)) =
        (if max (n * 4096) ?A - n * 4096 \<le> off \<and> off < max (n * 4096) ?A - n * 4096 + (min (n * 4096 + 4096) (?A + ?F) - max (n * 4096) ?A)
         then bytes_from (data + (ph_offset ph + of_nat (max (n * 4096) ?A - ?A))) (min (n * 4096 + 4096) (?A + ?F) - max (n * 4096) ?A) ram
           ! (off - (max (n * 4096) ?A - n * 4096)) else 0)"
      using True unfolding page_image_def Let_def by (simp only: if_True off fo len write_bytes_byte length_bytes_from)
    also have "\<dots> = (if ?A \<le> i \<and> i < ?A + ?F then ram (data + ph_offset ph + of_nat (i - ?A)) else 0)"
    proof (cases "?A \<le> i \<and> i < ?A + ?F")
      case in_file: True
      let ?o = "max (n * 4096) ?A - n * 4096"
      have r: "?o \<le> off" "off < ?o + (min (n * 4096 + 4096) (?A + ?F) - max (n * 4096) ?A)"
        using in_file n(2) by (auto simp: i_def)
      have "of_nat (max (n * 4096) ?A - ?A) + of_nat (off - ?o) = (of_nat (i - ?A) :: u64)"
        unfolding of_nat_add [symmetric] by (rule arg_cong [where f = of_nat]) (use in_file in \<open>auto simp: i_def\<close>)
      note sum = this
      let ?L = "min (n * 4096 + 4096) (?A + ?F) - max (n * 4096) ?A"
      have j: "off - ?o < ?L" using r by linarith
      show ?thesis unfolding if_P [OF conjI [OF r]] if_P [OF in_file] by (simp only: bytes_from_nth [OF j] add.assoc sum)
    next
      case False
      then have "\<not> (max (n * 4096) ?A - n * 4096 \<le> off \<and>
          off < max (n * 4096) ?A - n * 4096 + (min (n * 4096 + 4096) (?A + ?F) - max (n * 4096) ?A))"
        using n(2) lt by (auto simp: i_def)
      then show ?thesis using False by auto
    qed
    finally show ?thesis .
  next
    case False
    then have "\<not> max (n * 4096) ?A < min (n * 4096 + 4096) (?A + ?F)" unfolding word_less_nat_alt [of ?s ?e] s e .
    then have o: "\<not> (?A \<le> i \<and> i < ?A + ?F)" using n(2) by (auto simp: i_def)
    show ?thesis unfolding if_not_P [OF o] page_image_def Let_def if_not_P [OF False] by (simp add: byte_of_def)
  qed
qed

section \<open>Segments\<close>

lemma load_pages_run:
  fixes k :: "'a vfs_scheme"
  assumes "n + len \<le> 2 ^ 35"
  shows "load_pages data r ph flags (vaddr n 0) (vaddr (n + len) 0) k =
    Some (map_pages r flags (map (\<lambda>i. (vaddr i 0, page_image (ramdisk k) data ph (vaddr i 0))) [n..<n + len]) k)"
  using assms
proof (induction len arbitrary: n k)
  case 0
  then show ?case by (simp add: load_pages.simps)
next
  case (Suc len)
  have u: "unat (vaddr n 0) = n * 4096" "unat (vaddr (n + Suc len) 0) = (n + Suc len) * 4096"
    using Suc.prems unfolding vaddr_def unat_of_nat by simp_all
  then have lt: "vaddr n 0 < vaddr (n + Suc len) 0" by (simp add: word_less_nat_alt)
  obtain a k1 where a: "pmm_alloc_page k = (a, k1)" by fastforce
  let ?k3 = "vmm_map_page r (vaddr n 0) a flags (with_frame (frame_no a) (page_image (ramdisk k) data ph (vaddr n 0)) k1)"
  have m: "machine.more k1 = machine.more k" "machine.more ?k3 = machine.more k" using rest_alloc [OF a] by simp_all
  have ram: "ramdisk k1 = ramdisk k" "ramdisk ?k3 = ramdisk k" by (rule ramdisk_more [OF m(1)], rule ramdisk_more [OF m(2)])
  have e: "[n..<n + Suc len] = n # [Suc n..<Suc n + len]" by (simp add: upt_conv_Cons)
  show ?case using Suc.IH [of "Suc n" ?k3] Suc.prems a lt unfolding e
    by (subst load_pages.simps) (simp add: fill_page_image ram vaddr_next)
qed

text \<open>The pages of a segment, by number.\<close>

definition seg_pages :: "elf64_phdr \<Rightarrow> nat list" where
  "seg_pages ph = [unat (ph_vaddr ph) div 4096..<(unat (ph_vaddr ph) + unat (ph_memsz ph) + 4095) div 4096]"

definition seg_end :: "elf64_phdr \<Rightarrow> u64" where
  "seg_end ph = page_align_up (ph_vaddr ph + ph_memsz ph)"

definition seg_ok :: "elf64_phdr \<Rightarrow> bool" where
  "seg_ok ph \<longleftrightarrow> unat (ph_vaddr ph) + unat (ph_memsz ph) \<le> 2 ^ 47 \<and> ph_filesz ph \<le> ph_memsz ph"

lemma and_not_page: "(a :: u64) AND NOT 0xFFF = vaddr (unat a div 4096) 0"
proof -
  have m: "(0xFFF :: u64) = mask 12" by (simp add: mask_eq_exp_minus_1)
  have "a AND NOT 0xFFF = push_bit 12 (drop_bit 12 a)"
    unfolding m by (rule bit_eqI) (auto simp: bit_simps)
  also have "\<dots> = vaddr (unat a div 4096) 0"
    by (rule word_unat_eq_iff [THEN iffD2]) (simp add: vaddr_def push_bit_eq_mult drop_bit_eq_div unat_div unat_word_ariths unat_of_nat mult.commute mod_mult_right_eq)
  finally show ?thesis .
qed

lemma seg_bounds:
  assumes "seg_ok ph"
  shows "page_align_down (ph_vaddr ph) = vaddr (unat (ph_vaddr ph) div 4096) 0"
    "seg_end ph = vaddr ((unat (ph_vaddr ph) + unat (ph_memsz ph) + 4095) div 4096) 0"
    "unat (seg_end ph) = (unat (ph_vaddr ph) + unat (ph_memsz ph) + 4095) div 4096 * 4096"
    "(unat (ph_vaddr ph) + unat (ph_memsz ph) + 4095) div 4096 \<le> 2 ^ 35"
proof -
  let ?e = "ph_vaddr ph + ph_memsz ph"
  have b: "unat (ph_vaddr ph) + unat (ph_memsz ph) \<le> 2 ^ 47" using assms by (simp add: seg_ok_def)
  have e: "unat (?e + PAGE_SIZE - 1) = unat (ph_vaddr ph) + unat (ph_memsz ph) + 4095"
  proof -
    have "?e + PAGE_SIZE - 1 = ph_vaddr ph + ph_memsz ph + 4095" by simp
    then show ?thesis using b by (simp only:) (simp add: unat_word_ariths)
  qed
  show "page_align_down (ph_vaddr ph) = vaddr (unat (ph_vaddr ph) div 4096) 0"
    using and_not_page [of "ph_vaddr ph"] by (simp add: page_align_down_def)
  show s: "seg_end ph = vaddr ((unat (ph_vaddr ph) + unat (ph_memsz ph) + 4095) div 4096) 0"
    using and_not_page [of "?e + PAGE_SIZE - 1"] unfolding e by (simp add: seg_end_def page_align_up_def)
  show p: "(unat (ph_vaddr ph) + unat (ph_memsz ph) + 4095) div 4096 \<le> 2 ^ 35" using b by simp
  then show "unat (seg_end ph) = (unat (ph_vaddr ph) + unat (ph_memsz ph) + 4095) div 4096 * 4096"
    unfolding s vaddr_def unat_of_nat by simp
qed

lemma segment_page_flags: "page_flags (segment_flags ph)"
  by (simp add: page_flags_def segment_flags_def Let_def has_flag_def ADDR_MASK_def)

abbreviation loads :: "elf64_phdr list \<Rightarrow> elf64_phdr list" where
  "loads phs \<equiv> filter (\<lambda>ph. ph_type ph = PT_LOAD) phs"

definition all_pages :: "elf64_phdr list \<Rightarrow> nat list" where
  "all_pages phs = concat (map seg_pages (loads phs))"

definition seg_loaded :: "bytes \<Rightarrow> u64 \<Rightarrow> addr \<Rightarrow> 'a machine_scheme \<Rightarrow> elf64_phdr \<Rightarrow> bool" where
  "seg_loaded ram data r m ph \<longleftrightarrow>
     (\<forall>n \<in> set (seg_pages ph). page_shows r (segment_flags ph) m (vaddr n 0) (page_image ram data ph (vaddr n 0)))"

lemma seg_pages_bound: "seg_ok ph \<Longrightarrow> n \<in> set (seg_pages ph) \<Longrightarrow> n < 2 ^ 35"
  using seg_bounds(4) [of ph] by (auto simp: seg_pages_def)

lemma page_shows_nopmm:
  assumes "page_shows r flags m va x" "page_flags flags" "lookup m r va = Some e"
  shows "\<not> has_flag e PTE_NOPMM"
  using assms nopmm_entry by (auto simp: page_shows_def)

lemma load_segment:
  fixes k :: "'a vfs_scheme"
  assumes inv: "vm_inv k R X" and r: "r \<in> R" and ok: "seg_ok ph"
    and fresh: "\<forall>n \<in> set (seg_pages ph). lookup k r (vaddr n 0) = None" and ff: "4 * length (seg_pages ph) \<le> free_frames k"
  obtains k' where "load_pages data r ph (segment_flags ph) (page_align_down (ph_vaddr ph)) (seg_end ph) k = Some (True, k')"
    "vm_inv k' R X" "seg_loaded (ramdisk k) data r k' ph" "kept_pages R r (set (seg_pages ph)) k k'"
    "machine.more k' = machine.more k" "free_frames k \<le> free_frames k' + 4 * length (seg_pages ph)"
proof -
  let ?n = "unat (ph_vaddr ph) div 4096" and ?e = "(unat (ph_vaddr ph) + unat (ph_memsz ph) + 4095) div 4096"
  let ?ps = "map (\<lambda>i. (vaddr i 0, page_image (ramdisk k) data ph (vaddr i 0))) (seg_pages ph)"
  note b = seg_bounds [OF ok] and pb = seg_pages_bound [OF ok]
  have le: "?n \<le> ?e" by (rule div_le_mono) simp
  have run: "load_pages data r ph (segment_flags ph) (page_align_down (ph_vaddr ph)) (seg_end ph) k = Some (map_pages r (segment_flags ph) ?ps k)"
    unfolding b(1,2) seg_pages_def using load_pages_run [of ?n "?e - ?n" data r ph "segment_flags ph" k] le b(4) by simp
  have vp: "map (vpn \<circ> fst) ?ps = seg_pages ph" by (rule nth_equalityI) (simp, use pb [OF nth_mem] in \<open>simp add: vaddr_simps(1)\<close>)
  have ps: "\<forall>(va, x) \<in> set ?ps. low_va va \<and> lookup k r va = None" using fresh pb vaddr_simps(2) [of _ 0] by auto
  have d: "distinct (map (vpn \<circ> fst) ?ps)" unfolding vp by (simp add: seg_pages_def)
  have f4: "4 * length ?ps \<le> free_frames k" using ff by simp
  have im: "(vpn \<circ> fst) ` set ?ps = set (seg_pages ph)" using vp by (metis set_map)
  obtain k' where "map_pages r (segment_flags ph) ?ps k = (True, k')" "vm_inv k' R X"
      "\<forall>(va, x) \<in> set ?ps. page_shows r (segment_flags ph) k' va x" "kept_pages R r (set (seg_pages ph)) k k'"
      "machine.more k' = machine.more k" "free_frames k \<le> free_frames k' + 4 * length (seg_pages ph)"
    using map_pages_spec [OF inv r segment_page_flags ps d f4] unfolding im by auto
  then show ?thesis using run by (intro that) (auto simp: seg_loaded_def)
qed

lemma seg_loaded_kept:
  assumes l: "seg_loaded ram data r m ph" and k: "kept_pages R r N m m'" "r \<in> R" "seg_ok ph" "set (seg_pages ph) \<inter> N = {}"
  shows "seg_loaded ram data r m' ph"
  unfolding seg_loaded_def
proof
  fix n assume n: "n \<in> set (seg_pages ph)"
  note v = vaddr_simps [OF seg_pages_bound [OF k(3) n], of 0]
  have s: "page_shows r (segment_flags ph) m (vaddr n 0) (page_image ram data ph (vaddr n 0))" using l n by (simp add: seg_loaded_def)
  show "page_shows r (segment_flags ph) m' (vaddr n 0) (page_image ram data ph (vaddr n 0))"
    by (rule page_shows_kept [OF s k(1,2)]) (use v k(4) n page_shows_nopmm [OF s segment_page_flags] in auto)
qed

text \<open>The highest end of a segment.\<close>

definition highest :: "elf64_phdr list \<Rightarrow> u64 \<Rightarrow> u64" where
  "highest phs h = fold (\<lambda>ph h. max h (seg_end ph)) (loads phs) h"

lemma load_segments_spec:
  fixes k :: "'a vfs_scheme"
  assumes "vm_inv k R X" "r \<in> R" "\<forall>ph \<in> set (loads phs). seg_ok ph" "distinct (all_pages phs)"
    "\<forall>n \<in> set (all_pages phs). lookup k r (vaddr n 0) = None" "4 * length (all_pages phs) \<le> free_frames k"
  shows "\<exists>k'. load_segments data r phs h k = Some (Some (highest phs h), k') \<and> vm_inv k' R X \<and>
    (\<forall>ph \<in> set (loads phs). seg_loaded (ramdisk k) data r k' ph) \<and> kept_pages R r (set (all_pages phs)) k k' \<and>
    machine.more k' = machine.more k"
  using assms
proof (induction phs arbitrary: h k)
  case Nil
  then show ?case by (simp add: kept_pages_def highest_def)
next
  case (Cons ph phs)
  show ?case
  proof (cases "ph_type ph = PT_LOAD")
    case False
    then show ?thesis using Cons by (simp add: all_pages_def highest_def)
  next
    case True
    have ap: "all_pages (ph # phs) = seg_pages ph @ all_pages phs" using True by (simp add: all_pages_def)
    have ok: "seg_ok ph" "\<forall>ph \<in> set (loads phs). seg_ok ph" using Cons.prems(3) True by simp_all
    have dj: "distinct (all_pages phs)" "set (seg_pages ph) \<inter> set (all_pages phs) = {}" using Cons.prems(4) ap by auto
    obtain k1 where k1: "load_pages data r ph (segment_flags ph) (page_align_down (ph_vaddr ph)) (seg_end ph) k = Some (True, k1)"
        "vm_inv k1 R X" "seg_loaded (ramdisk k) data r k1 ph" "kept_pages R r (set (seg_pages ph)) k k1"
        "machine.more k1 = machine.more k" "free_frames k \<le> free_frames k1 + 4 * length (seg_pages ph)"
      by (rule load_segment [OF Cons.prems(1,2) ok(1)]) (use Cons.prems(5,6) ap in auto)
    have "lookup k1 r (vaddr n 0) = None" if "n \<in> set (all_pages phs)" for n
    proof -
      have "n < 2 ^ 35" using that ok(2) seg_pages_bound by (auto simp: all_pages_def)
      then have v: "vpn (vaddr n 0) = n" "low_va (vaddr n 0)" by (simp_all add: vaddr_simps)
      then have "lookup k1 r (vaddr n 0) = lookup k r (vaddr n 0)"
        by (intro kept_lookup [OF k1(4) Cons.prems(2)]) (use dj(2) that in auto)
      then show ?thesis using Cons.prems(5) that ap by simp
    qed
    moreover have "4 * length (all_pages phs) \<le> free_frames k1" using Cons.prems(6) ap k1(6) by simp
    ultimately obtain k' where k': "load_segments data r phs (max h (seg_end ph)) k1 = Some (Some (highest phs (max h (seg_end ph))), k')"
        "vm_inv k' R X" "\<forall>ph \<in> set (loads phs). seg_loaded (ramdisk k1) data r k' ph" "kept_pages R r (set (all_pages phs)) k1 k'"
        "machine.more k' = machine.more k1"
      using Cons.IH [OF k1(2) Cons.prems(2) ok(2) dj(1)] by blast
    have ram: "ramdisk k1 = ramdisk k" by (rule ramdisk_more [OF k1(5)])
    have "load_segments data r (ph # phs) h k = load_segments data r phs (max h (seg_end ph)) k1"
      using True k1(1) by (simp add: Let_def seg_end_def max_def not_less) (metis nle_le order_less_le)
    then show ?thesis
      using k' ram True kept_pages_trans [OF k1(4) k'(4)] k1(5) seg_loaded_kept [OF k1(3) k'(4) Cons.prems(2) ok(1) dj(2)] ap
      by (simp add: highest_def)
  qed
qed

lemma seg_address:
  assumes ok: "seg_ok ph" and i: "i < unat (ph_memsz ph)"
  obtains n off where "n \<in> set (seg_pages ph)" "off < 4096" "n * 4096 + off = unat (ph_vaddr ph) + i"
    "vaddr n off = ph_vaddr ph + of_nat i" "n < 2 ^ 35"
proof -
  let ?A = "unat (ph_vaddr ph)" and ?M = "unat (ph_memsz ph)"
  define n off where "n = (?A + i) div 4096" and "off = (?A + i) mod 4096"
  have a: "n * 4096 + off = ?A + i" "off < 4096" by (simp_all add: n_def off_def)
  have "?A div 4096 \<le> n" unfolding n_def by (rule div_le_mono) simp
  moreover have "n < (?A + ?M + 4095) div 4096"
  proof -
    have "(?A + i + 4096) div 4096 \<le> (?A + ?M + 4095) div 4096" by (rule div_le_mono) (use i in simp)
    then show ?thesis by (simp add: n_def)
  qed
  ultimately have n: "n \<in> set (seg_pages ph)" by (simp add: seg_pages_def)
  have "vaddr n off = ph_vaddr ph + of_nat i" unfolding vaddr_def a by simp
  then show ?thesis using that n a seg_pages_bound [OF ok n] by blast
qed

lemma seg_loaded_byte:
  assumes l: "seg_loaded ram data r m ph" and ok: "seg_ok ph" and i: "i < unat (ph_memsz ph)"
  shows "user_load r (ph_vaddr ph + of_nat i) m = Some (if i < unat (ph_filesz ph) then ram (data + ph_offset ph + of_nat i) else 0)"
proof -
  obtain n off where a: "n \<in> set (seg_pages ph)" "off < 4096" "n * 4096 + off = unat (ph_vaddr ph) + i"
    "vaddr n off = ph_vaddr ph + of_nat i" "n < 2 ^ 35" by (rule seg_address [OF ok i])
  have F: "unat (ph_vaddr ph) + unat (ph_filesz ph) \<le> 2 ^ 47" using ok by (simp add: seg_ok_def word_le_nat_alt)
  have sh: "page_shows r (segment_flags ph) m (vaddr n 0) (page_image ram data ph (vaddr n 0))" using l a(1) by (simp add: seg_loaded_def)
  show ?thesis using user_load_shows [OF sh a(5,2)] page_image_byte [OF a(5,2) F, of ram data] unfolding a(3,4) by simp
qed

text \<open>The access rights of a page are those of its segment.\<close>

definition entry_rights :: "elf64_phdr \<Rightarrow> u64 \<Rightarrow> bool" where
  "entry_rights ph e \<longleftrightarrow> has_flag e PTE_USER \<and> (has_flag e PTE_WRITABLE \<longleftrightarrow> ph_flags ph AND PF_W \<noteq> 0) \<and>
     (has_flag e PTE_NX \<longleftrightarrow> ph_flags ph AND PF_X = 0)"

lemma seg_loaded_rights:
  assumes l: "seg_loaded ram data r m ph" and ok: "seg_ok ph" and i: "i < unat (ph_memsz ph)"
  shows "\<exists>e. lookup m r (ph_vaddr ph + of_nat i) = Some e \<and> entry_rights ph e"
proof -
  obtain n off where a: "n \<in> set (seg_pages ph)" "off < 4096" "vaddr n off = ph_vaddr ph + of_nat i" "n < 2 ^ 35"
    by (rule seg_address [OF ok i])
  obtain b where b: "lookup m r (vaddr n 0) = Some (b OR segment_flags ph)" "entry_addr (b OR segment_flags ph) = b"
    using l a(1) by (auto simp: seg_loaded_def page_shows_def)
  have "lookup m r (vaddr n off) = lookup m r (vaddr n 0)" by (rule lookup_vpn) (use a(2,4) in \<open>simp add: vaddr_simps(1)\<close>)
  then have lk: "lookup m r (ph_vaddr ph + of_nat i) = Some (b OR segment_flags ph)" using b(1) unfolding a(3) by simp
  have "\<not> has_flag (entry_addr e) PTE_USER" "\<not> has_flag (entry_addr e) PTE_WRITABLE" "\<not> has_flag (entry_addr e) PTE_NX" for e
    by (simp_all add: has_flag_def entry_addr_def ADDR_MASK_def and.assoc)
  from this [of "b OR segment_flags ph"] have "\<not> has_flag b PTE_USER" "\<not> has_flag b PTE_WRITABLE" "\<not> has_flag b PTE_NX" unfolding b(2) .
  moreover have "has_flag (segment_flags ph) PTE_USER"
      "has_flag (segment_flags ph) PTE_WRITABLE \<longleftrightarrow> ph_flags ph AND PF_W \<noteq> 0" "has_flag (segment_flags ph) PTE_NX \<longleftrightarrow> ph_flags ph AND PF_X = 0"
    by (simp_all add: segment_flags_def Let_def has_flag_def)
  ultimately show ?thesis using lk by (simp add: entry_rights_def has_flag_or)
qed

section \<open>Properties\<close>

text \<open>
  C37: A well-formed executable is loaded. If the loadable segments lie in the user half on pages of their own that are not
  mapped yet, and there are frames for them and their page tables, then \<^verbatim>\<open>elf_load\<close> returns the entry point and the
  end of the highest segment; every byte of every segment is the byte of the file or, past the file's part, zero,
  with exactly the rights the segment asks for; no other page of any address space changes, and the invariant of
  the page tables holds.
\<close>

theorem elf_load_correct:
  fixes k :: "'a vfs_scheme"
  assumes inv: "vm_inv k R X" "r \<in> R" and f: "f \<noteq> NULL" "data = v_data (vfs_at k f)" "data \<noteq> NULL"
    and h: "elf_header_ok (read_ehdr (ramdisk k) data)" and phs: "phs = program_headers (ramdisk k) data"
    and ok: "\<And>ph. ph \<in> set (loads phs) \<Longrightarrow> seg_ok ph" and pages: "distinct (all_pages phs)"
      "\<And>n. n \<in> set (all_pages phs) \<Longrightarrow> lookup k r (vaddr n 0) = None" "4 * length (all_pages phs) \<le> free_frames k"
  shows "\<exists>k'. elf_load f r k = Some (Some (e_entry (read_ehdr (ramdisk k) data), highest phs 0), k') \<and> vm_inv k' R X \<and>
    (\<forall>ph \<in> set (loads phs). \<forall>i < unat (ph_memsz ph).
       user_load r (ph_vaddr ph + of_nat i) k' =
         Some (if i < unat (ph_filesz ph) then ramdisk k (data + ph_offset ph + of_nat i) else 0) \<and>
       (\<exists>e. lookup k' r (ph_vaddr ph + of_nat i) = Some e \<and> entry_rights ph e)) \<and>
    kept_pages R r (set (all_pages phs)) k k' \<and> machine.more k' = machine.more k"
proof -
  obtain k' where k': "load_segments data r phs 0 k = Some (Some (highest phs 0), k')" "vm_inv k' R X"
      "\<forall>ph \<in> set (loads phs). seg_loaded (ramdisk k) data r k' ph" "kept_pages R r (set (all_pages phs)) k k'"
      "machine.more k' = machine.more k"
    using load_segments_spec [OF inv, of phs data 0] ok pages by blast
  have "elf_load f r k = Some (Some (e_entry (read_ehdr (ramdisk k) data), highest phs 0), k')"
    using f h k'(1) unfolding phs by (simp add: elf_load_def Let_def)
  then show ?thesis using k' ok seg_loaded_byte seg_loaded_rights by blast
qed

text \<open>An executable with one segment of three bytes, two of them in the file.\<close>

definition ram0 :: bytes where
  "ram0 a =
     (if a = 0x8000 then 0x7F else if a = 0x8001 then 0x45 else if a = 0x8002 then 0x4C else if a = 0x8003 then 0x46
      else if a = 0x8004 then 2 else if a = 0x8005 then 1 else if a = 0x8010 then 2 else if a = 0x801A then 0x40
      else if a = 0x8020 then 0x40 else if a = 0x8038 then 1 else if a = 0x8040 then 1 else if a = 0x8044 then 5
      else if a = 0x8048 then 0x78 else if a = 0x8052 then 0x40 else if a = 0x8060 then 2 else if a = 0x8068 then 3
      else if a = 0x8078 then 0xAB else if a = 0x8079 then 0xCD else 0)"

definition ph0 :: elf64_phdr where
  "ph0 = \<lparr>ph_type = 1, ph_flags = 5, ph_offset = 0x78, ph_vaddr = 0x400000, ph_paddr = 0, ph_filesz = 2, ph_memsz = 3, ph_align = 0\<rparr>"

definition elf0 :: vfs where
  "elf0 = (machine.extend demo1 (machine.more vfs0))\<lparr>ramdisk := ram0, vfs_at := (\<lambda>_. (node0 [] 0)\<lparr>v_data := 0x8000\<rparr>)\<rparr>"

lemma read_le_Suc: "read_le (numeral n) m a = ucast (m a) OR push_bit 8 (read_le (pred_numeral n) m (a + 1))"
  by (simp add: numeral_eq_Suc)

lemmas read0 = read_le_Suc ram0_def

lemma ehdr0:
  "e_entry (read_ehdr ram0 0x8000) = 0x400000" "e_phoff (read_ehdr ram0 0x8000) = 0x40" "e_phnum (read_ehdr ram0 0x8000) = 1"
  by (simp_all add: read_ehdr_def read0)

lemma ehdr0_ok: "elf_header_ok (read_ehdr ram0 0x8000)"
  by (simp add: read_ehdr_def elf_header_ok_def read0)

lemma phdrs0: "program_headers ram0 0x8000 = [ph0]"
  by (simp add: program_headers_def ehdr0 read_phdr_def ph0_def read0)

lemma elf0_facts:
  "vm_inv elf0 {0x1000} (owners_of demo0)" "free_frames elf0 = 14" "user_va va \<Longrightarrow> lookup elf0 0x1000 va = None"
  "ramdisk elf0 = ram0" "v_data (vfs_at elf0 a) = 0x8000"
proof -
  have t: "machine.truncate elf0 = machine.truncate demo1"
    by (simp add: elf0_def machine.truncate_def machine.extend_def)
  show "vm_inv elf0 {0x1000} (owners_of demo0)" using machine_same(3) [OF t] demo1_facts(1) by simp
  show "free_frames elf0 = 14" using pmm_same(6) [OF machine_same_pmm [OF t]] demo1_facts(3) by simp
  show "lookup elf0 0x1000 va = None" if "user_va va"
    using demo1_facts(4) [of "vpath va"] that mem_cong(3) [OF machine_same(1) [OF t]] by (simp add: lookup_def)
  show "ramdisk elf0 = ram0" "v_data (vfs_at elf0 a) = 0x8000" by (simp_all add: elf0_def)
qed

theorem elf_load_correct_witness:
  "\<exists>k'. elf_load 0x3000 0x1000 elf0 = Some (Some (0x400000, 0x401000), k') \<and> user_load 0x1000 0x400000 k' = Some 0xAB \<and>
     user_load 0x1000 0x400001 k' = Some 0xCD \<and> user_load 0x1000 0x400002 k' = Some 0"
proof -
  have sp: "seg_pages ph0 = [1024]" by (simp add: seg_pages_def ph0_def upt_conv_Cons)
  have ld: "loads [ph0] = [ph0]" by (simp add: ph0_def)
  have ap: "all_pages [ph0] = [1024]" unfolding all_pages_def ld by (simp add: sp)
  have hi: "highest [ph0] 0 = 0x401000" unfolding highest_def ld by (simp add: seg_end_def page_align_up_def ph0_def)
  have ok: "seg_ok ph0" by (simp add: seg_ok_def ph0_def)
  have un: "lookup elf0 0x1000 (vaddr 1024 0) = None"
    by (rule elf0_facts(3) [OF low_user_va]) (simp add: vaddr_simps(2))
  obtain k' where k': "elf_load 0x3000 0x1000 elf0 = Some (Some (0x400000, 0x401000), k')"
      "\<forall>ph \<in> set [ph0]. \<forall>i < unat (ph_memsz ph). user_load 0x1000 (ph_vaddr ph + of_nat i) k' =
         Some (if i < unat (ph_filesz ph) then ram0 (0x8000 + ph_offset ph + of_nat i) else 0)"
    using elf_load_correct [OF elf0_facts(1) _ _ _ _ _ refl, of "0x1000" "0x3000" "0x8000"] ok un elf0_facts(2)
    unfolding elf0_facts(4,5) phdrs0 ehdr0(1) ld ap hi by (auto simp: ehdr0_ok)
  have "user_load 0x1000 (0x400000 + of_nat i) k' = Some (if i < 2 then ram0 (0x8078 + of_nat i) else 0)" if "i < 3" for i
    using bspec [OF k'(2), of ph0] that by (simp add: ph0_def)
  from this [of 0] this [of 1] this [of 2]
  have "user_load 0x1000 0x400000 k' = Some 0xAB" "user_load 0x1000 0x400001 k' = Some 0xCD" "user_load 0x1000 0x400002 k' = Some 0"
    by (simp_all add: ram0_def)
  then show ?thesis using k'(1) by blast
qed

end
