(* ===== verification/Mmap.thy ===== *)
theory Mmap
  imports Syscall Elf_Props
begin

text \<open>
  Memory a process asks for: \<^verbatim>\<open>SYS_mmap\<close> and \<^verbatim>\<open>SYS_brk\<close> (\<^verbatim>\<open>syscall.c\<close>). Both map fresh zeroed pages; the heap loses its
  contents when it shrinks and grows again.
\<close>

section \<open>Runs of zeroed pages\<close>

lemma map_zero_run:
  fixes m :: "'a machine_scheme"
  shows "map_zero_pages len r (vaddr n 0) flags m = map_pages r flags (map (\<lambda>i. (vaddr i 0, \<lambda>_. 0)) [n..<n + len]) m"
proof (induction len arbitrary: n m)
  case (Suc len)
  have e: "[n..<n + Suc len] = n # [Suc n..<Suc n + len]" by (simp add: upt_conv_Cons)
  obtain a m1 where "pmm_alloc_page m = (a, m1)" by fastforce
  then show ?case unfolding e using Suc [of "Suc n"] by (simp add: vaddr_next zero_page_frame del: upt_Suc)
qed simp

lemma map_zero_spec:
  fixes m :: "'a machine_scheme"
  assumes inv: "vm_inv m R X" and r: "r \<in> R" and fl: "page_flags flags" and b: "n + len \<le> 2 ^ 35"
    and fresh: "\<And>i. n \<le> i \<Longrightarrow> i < n + len \<Longrightarrow> lookup m r (vaddr i 0) = None" and ff: "4 * len \<le> free_frames m"
  obtains m' where "map_zero_pages len r (vaddr n 0) flags m = (True, m')" "vm_inv m' R X"
    "\<And>i. n \<le> i \<Longrightarrow> i < n + len \<Longrightarrow> page_shows r flags m' (vaddr i 0) (\<lambda>_. 0)"
    "kept_pages R r {n..<n + len} m m'" "machine.more m' = machine.more m"
proof -
  let ?ps = "map (\<lambda>i. (vaddr i 0, \<lambda>_. 0 :: u64)) [n..<n + len]"
  have vp: "map (vpn \<circ> fst) ?ps = [n..<n + len]"
    by (rule nth_equalityI) (simp, use b in \<open>simp add: vaddr_simps(1)\<close>)
  have im: "(vpn \<circ> fst) ` set ?ps = {n..<n + len}" using vp by (metis set_map set_upt)
  have ps: "\<forall>(va, x) \<in> set ?ps. low_va va \<and> lookup m r va = None" using fresh b vaddr_simps(2) [of _ 0] by auto
  have d: "distinct (map (vpn \<circ> fst) ?ps)" unfolding vp by simp
  have f4: "4 * length ?ps \<le> free_frames m" using ff by simp
  obtain m' where m': "map_pages r flags ?ps m = (True, m')" "vm_inv m' R X" "\<forall>(va, x) \<in> set ?ps. page_shows r flags m' va x"
      "kept_pages R r {n..<n + len} m m'" "machine.more m' = machine.more m"
    using map_pages_spec [OF inv r fl ps d f4] unfolding im by blast
  show ?thesis
  proof (rule that [OF _ m'(2) _ m'(4,5)])
    show "map_zero_pages len r (vaddr n 0) flags m = (True, m')" using m'(1) by (simp add: map_zero_run)
    show "page_shows r flags m' (vaddr i 0) (\<lambda>_. 0)" if "n \<le> i" "i < n + len" for i using m'(3) that by auto
  qed
qed

lemma user_load_zero:
  assumes "page_shows r flags m (vaddr n 0) (\<lambda>_. 0)" "n < 2 ^ 35" "off < 4096"
  shows "user_load r (vaddr n off) m = Some 0"
  using user_load_shows [OF assms] by (simp add: byte_of_def)

text \<open>An address inside a run of pages.\<close>

lemma run_address:
  assumes "i < len * 4096" "n + len \<le> 2 ^ 35"
  obtains j off where "n \<le> j" "j < n + len" "j < 2 ^ 35" "off < 4096" "vaddr n 0 + of_nat i = vaddr j off"
proof -
  have "i div 4096 < len" using assms(1) by (simp add: less_mult_imp_div_less)
  moreover have "vaddr n 0 + of_nat i = vaddr (n + i div 4096) (i mod 4096)"
    unfolding vaddr_def of_nat_add [symmetric] by (rule arg_cong [where f = of_nat]) simp
  ultimately show ?thesis using assms(2) by (intro that [of "n + i div 4096" "i mod 4096"]) auto
qed

section \<open>Anonymous mappings\<close>

lemma tasks_more_current:
  fixes k k' :: "'a tasks_scheme"
  shows "machine.more k' = machine.more k \<Longrightarrow> current_process k' = current_process k"
  by (cases k; cases k') simp


lemma mmap_page_flags: "page_flags (mmap_pte_flags prot flags)"
  by (simp add: page_flags_def mmap_pte_flags_def Let_def has_flag_def ADDR_MASK_def)

lemma mmap_flag_bits:
  "has_flag (mmap_pte_flags prot flags) PTE_USER"
  "has_flag (mmap_pte_flags prot flags) PTE_WRITABLE \<longleftrightarrow> prot AND PROT_WRITE \<noteq> 0"
  "has_flag (mmap_pte_flags prot flags) PTE_NX \<longleftrightarrow> prot AND PROT_EXEC = 0"
  "has_flag (mmap_pte_flags prot flags) PTE_SHARED \<longleftrightarrow> flags AND MAP_SHARED \<noteq> 0"
  by (simp_all add: mmap_pte_flags_def Let_def has_flag_def)

lemma entry_flag_bits:
  assumes "entry_addr (b OR fl) = b"
  shows "has_flag (b OR fl) PTE_USER \<longleftrightarrow> has_flag fl PTE_USER" "has_flag (b OR fl) PTE_WRITABLE \<longleftrightarrow> has_flag fl PTE_WRITABLE"
    "has_flag (b OR fl) PTE_NX \<longleftrightarrow> has_flag fl PTE_NX" "has_flag (b OR fl) PTE_SHARED \<longleftrightarrow> has_flag fl PTE_SHARED"
proof -
  have "\<not> has_flag (entry_addr e) PTE_USER" "\<not> has_flag (entry_addr e) PTE_WRITABLE" "\<not> has_flag (entry_addr e) PTE_NX"
    "\<not> has_flag (entry_addr e) PTE_SHARED" for e
    by (simp_all add: has_flag_def entry_addr_def ADDR_MASK_def and.assoc)
  from this [of "b OR fl", unfolded assms]
  show "has_flag (b OR fl) PTE_USER \<longleftrightarrow> has_flag fl PTE_USER" "has_flag (b OR fl) PTE_WRITABLE \<longleftrightarrow> has_flag fl PTE_WRITABLE"
    "has_flag (b OR fl) PTE_NX \<longleftrightarrow> has_flag fl PTE_NX" "has_flag (b OR fl) PTE_SHARED \<longleftrightarrow> has_flag fl PTE_SHARED"
    by (simp_all add: has_flag_or)
qed

text \<open>A valid request: not empty, anonymous, shared or private, and not so long that the length wraps.\<close>

definition mmap_request :: "syscall_frame \<Rightarrow> bool" where
  "mmap_request f \<longleftrightarrow> f_rsi f \<noteq> 0 \<and> unat (f_rsi f) + 4095 < 2 ^ 64 \<and> f_r8 f = - 1 \<and> f_r10 f AND MAP_ANONYMOUS \<noteq> 0 \<and>
     f_r10 f AND (MAP_SHARED OR MAP_PRIVATE) \<noteq> 0"

definition mmap_entry :: "syscall_frame \<Rightarrow> u64 \<Rightarrow> bool" where
  "mmap_entry f e \<longleftrightarrow> has_flag e PTE_USER \<and> (has_flag e PTE_WRITABLE \<longleftrightarrow> f_rdx f AND PROT_WRITE \<noteq> 0) \<and>
     (has_flag e PTE_NX \<longleftrightarrow> f_rdx f AND PROT_EXEC = 0) \<and> (has_flag e PTE_SHARED \<longleftrightarrow> f_r10 f AND MAP_SHARED \<noteq> 0)"

abbreviation pages_for :: "u64 \<Rightarrow> nat" where "pages_for len \<equiv> (unat len + 4095) div 4096"

lemma pages_for_word:
  assumes "unat len + 4095 < 2 ^ 64"
  shows "unat ((len + PAGE_SIZE - 1) div PAGE_SIZE) = pages_for len"
proof -
  have 1: "len + PAGE_SIZE - 1 = len + 4095" by simp
  have 2: "unat (len + 4095) = unat len + 4095" using assms by (simp add: unat_word_ariths)
  show ?thesis unfolding 1 unat_div 2 by simp
qed

lemma mmap_spec:
  fixes k :: "'a tasks_scheme"
  assumes inv: "vm_inv k R X" "cur_space k \<in> R" and f: "mmap_request f" and base: "p_mmap_next (proc k (current_process k)) = vaddr b 0"
    and b: "b + pages_for (f_rsi f) \<le> 2 ^ 35"
    and fresh: "\<And>i. b \<le> i \<Longrightarrow> i < b + pages_for (f_rsi f) \<Longrightarrow> lookup k (cur_space k) (vaddr i 0) = None"
    and ff: "4 * pages_for (f_rsi f) \<le> free_frames k"
  obtains k1 where
    "sys_mmap f k = (Sys_ret (vaddr b 0), upd_proc (current_process k) (p_mmap_next_update (\<lambda>_. vaddr (b + pages_for (f_rsi f)) 0)) k1)"
    "vm_inv k1 R X" "kept_pages R (cur_space k) {b..<b + pages_for (f_rsi f)} k k1" "machine.more k1 = machine.more k"
    "\<And>i. b \<le> i \<Longrightarrow> i < b + pages_for (f_rsi f) \<Longrightarrow> page_shows (cur_space k) (mmap_pte_flags (f_rdx f) (f_r10 f)) k1 (vaddr i 0) (\<lambda>_. 0)"
proof -
  let ?np = "(f_rsi f + PAGE_SIZE - 1) div PAGE_SIZE"
  have np: "unat ?np = pages_for (f_rsi f)" by (rule pages_for_word) (use f in \<open>simp add: mmap_request_def\<close>)
  obtain k1 where k1: "map_zero_pages (pages_for (f_rsi f)) (cur_space k) (vaddr b 0) (mmap_pte_flags (f_rdx f) (f_r10 f)) k = (True, k1)"
      "vm_inv k1 R X" "\<And>i. b \<le> i \<Longrightarrow> i < b + pages_for (f_rsi f) \<Longrightarrow> page_shows (cur_space k) (mmap_pte_flags (f_rdx f) (f_r10 f)) k1 (vaddr i 0) (\<lambda>_. 0)"
      "kept_pages R (cur_space k) {b..<b + pages_for (f_rsi f)} k k1" "machine.more k1 = machine.more k"
    by (rule map_zero_spec [OF inv mmap_page_flags b _ ff]) (erule (1) fresh, rule that)
  have e: "vaddr b 0 + ?np * PAGE_SIZE = vaddr (b + pages_for (f_rsi f)) 0"
  proof -
    have "?np = of_nat (pages_for (f_rsi f))" unfolding np [symmetric] by simp
    then show ?thesis by (simp add: vaddr_def algebra_simps)
  qed
  have c: "current_process k1 = current_process k" using k1(5) tasks_more_current by blast
  have v: "\<not> (f_rsi f = 0 \<or> f_r8 f \<noteq> - 1 \<or> f_r10 f AND MAP_ANONYMOUS = 0 \<or> f_r10 f AND (MAP_SHARED OR MAP_PRIVATE) = 0)"
    using f by (simp add: mmap_request_def)
  have "sys_mmap f k = (Sys_ret (vaddr b 0), upd_proc (current_process k) (p_mmap_next_update (\<lambda>_. vaddr (b + pages_for (f_rsi f)) 0)) k1)"
    unfolding sys_mmap_def Let_def if_not_P [OF v] base np k1(1) e by (simp add: c)
  then show ?thesis using that k1(2-5) by blast
qed

lemma upd_proc_mem:
  "vm_inv (upd_proc a g k) R X = vm_inv k R X" "lookup (upd_proc a g k) = lookup k"
  "user_load r va (upd_proc a g k) = user_load r va k" "kept_pages R r N m (upd_proc a g k) = kept_pages R r N m k"
  "free_frames (upd_proc a g k) = free_frames k"
proof -
  have t: "machine.truncate (upd_proc a g k) = machine.truncate k" by (simp add: upd_proc_def machine.truncate_def)
  note p = machine_same(1) [OF t]
  show l: "lookup (upd_proc a g k) = lookup k" by (rule mem_cong(4) [OF p])
  show "vm_inv (upd_proc a g k) R X = vm_inv k R X" by (rule machine_same(3) [OF t])
  show "user_load r va (upd_proc a g k) = user_load r va k" by (simp add: user_load_def l frame_byte_def p split: option.split)
  show "kept_pages R r N m (upd_proc a g k) = kept_pages R r N m k" by (simp add: kept_pages_def l p)
  show "free_frames (upd_proc a g k) = free_frames k" by (rule pmm_same(6) [OF machine_same_pmm [OF t]])
qed

lemma page_shows_entry:
  assumes "page_shows r (mmap_pte_flags (f_rdx f) (f_r10 f)) m (vaddr n 0) x" "n < 2 ^ 35" "off < 4096"
  shows "\<exists>e. lookup m r (vaddr n off) = Some e \<and> mmap_entry f e"
proof -
  obtain b where b: "lookup m r (vaddr n 0) = Some (b OR mmap_pte_flags (f_rdx f) (f_r10 f))"
      "entry_addr (b OR mmap_pte_flags (f_rdx f) (f_r10 f)) = b" using assms(1) by (auto simp: page_shows_def)
  have "lookup m r (vaddr n off) = lookup m r (vaddr n 0)" by (rule lookup_vpn) (use assms(2,3) in \<open>simp add: vaddr_simps(1)\<close>)
  then show ?thesis using b(1) entry_flag_bits [OF b(2)] mmap_flag_bits [of "f_rdx f" "f_r10 f"] by (simp add: mmap_entry_def)
qed

section \<open>The heap\<close>

lemma vaddr_mask: "n < 2 ^ 35 \<Longrightarrow> page_align_up (vaddr n 0) = vaddr n 0"
proof -
  assume n: "n < 2 ^ 35"
  have "vaddr n 0 + PAGE_SIZE - 1 = vaddr n 4095" by (simp add: vaddr_def)
  then show ?thesis
    using and_not_page [of "vaddr n 4095"] unat_vaddr [OF n, of 4095] by (simp add: page_align_up_def)
qed

text \<open>A fresh frame mapped over whatever was there.\<close>

lemma map_over:
  fixes m :: "'a machine_scheme"
  assumes inv: "vm_inv m R X" and r: "r \<in> R" "user_va va" and a: "pmm_alloc_page m = (a, m1)" "a \<noteq> NULL"
    and ff: "4 \<le> free_frames m" and fl: "page_flags flags"
  shows "page_shows r flags (vmm_map_page r va a flags (with_frame (frame_no a) x m1)) va x"
proof -
  let ?f = "frame_no a" and ?m2 = "with_frame (frame_no a) x m1"
  let ?m3 = "vmm_map_page r va a flags ?m2"
  note al = vm_inv_alloc [OF inv a] and fi = with_frame_new [OF inv a, where x = x]
  note fl' = fl [unfolded page_flags_def]
  have f40: "?f < 2 ^ 40" using al(7) vm_invD(2) [OF inv] by linarith
  have pe: "pays (a OR flags) g = (if g = ?f then 1 else 0)" for g
    using pays_made_entry [OF f40, of flags g] fl' unfolding al(5) by simp
  have own: "\<forall>g. pays (a OR flags) g = 1 \<longrightarrow> 0 < (X(?f := 1)) g \<and> 0 < g \<and> g < npages ?m2"
    using al(6,7,10) by (simp add: pe)
  note mp = vmm_map_page_spec [OF fi(1) r own]
  have "\<not> free_frames ?m2 < 3" using fi(4) ff by simp
  then have e: "entry_at ?m3 r (vpath va) = a OR flags" using mp(1) by auto
  have st: "frame_state ?m2 = (frame_state m)(?f \<mapsto> 1)" using al(8) by simp
  have "phys_mem ?m3 ?f = x" using mp(4) [of ?f] fi(3) st by simp
  moreover have "entry_addr (a OR flags) = a" using entry_addr_make [OF f40, of flags] fl' unfolding al(5) by simp
  moreover have "lookup ?m3 r va = Some (a OR flags)" using e fl' by (auto simp: lookup_def has_flag_or)
  ultimately show ?thesis unfolding page_shows_def by blast
qed

abbreviation heap_flags :: u64 where "heap_flags \<equiv> PTE_PRESENT OR PTE_WRITABLE OR PTE_USER OR PTE_NX"

lemma heap_page_flags: "page_flags heap_flags"
  by (simp add: page_flags_def has_flag_def ADDR_MASK_def)

section \<open>Properties\<close>

text \<open>
  C39: \<^verbatim>\<open>SYS_mmap\<close> gives the process memory of its own. A valid request for pages that are not mapped, with four frames left
  for each of them, returns the old mapping pointer. Every byte from there for the length asked for is readable and zero,
  whatever \<^verbatim>\<open>prot\<close> says: \<^verbatim>\<open>PROT_READ\<close> has no effect, so \<^verbatim>\<open>PROT_NONE\<close> gives readable pages. A page can be written exactly if
  \<^verbatim>\<open>PROT_WRITE\<close> is asked for, executed exactly if \<^verbatim>\<open>PROT_EXEC\<close> is, and is shared exactly for \<^verbatim>\<open>MAP_SHARED\<close>. No other
  page of any address space changes, and the next mapping starts behind the new one.
\<close>

theorem mmap_fresh_zero_pages:
  fixes k :: "'a tasks_scheme"
  assumes "vm_inv k R X" "cur_space k \<in> R" "mmap_request f" "p_mmap_next (proc k (current_process k)) = vaddr b 0"
    and b: "b + pages_for (f_rsi f) \<le> 2 ^ 35"
    and "\<And>i. b \<le> i \<Longrightarrow> i < b + pages_for (f_rsi f) \<Longrightarrow> lookup k (cur_space k) (vaddr i 0) = None"
    and "4 * pages_for (f_rsi f) \<le> free_frames k"
  shows "\<exists>k'. sys_mmap f k = (Sys_ret (vaddr b 0), k') \<and> vm_inv k' R X \<and>
    (\<forall>i < unat (f_rsi f). user_load (cur_space k) (vaddr b 0 + of_nat i) k' = Some 0 \<and>
       (\<exists>e. lookup k' (cur_space k) (vaddr b 0 + of_nat i) = Some e \<and> mmap_entry f e)) \<and>
    kept_pages R (cur_space k) {b..<b + pages_for (f_rsi f)} k k' \<and>
    p_mmap_next (proc k' (current_process k)) = vaddr (b + pages_for (f_rsi f)) 0"
proof -
  obtain k1 where k1:
      "sys_mmap f k = (Sys_ret (vaddr b 0), upd_proc (current_process k) (p_mmap_next_update (\<lambda>_. vaddr (b + pages_for (f_rsi f)) 0)) k1)"
      "vm_inv k1 R X" "kept_pages R (cur_space k) {b..<b + pages_for (f_rsi f)} k k1"
      "\<And>i. b \<le> i \<Longrightarrow> i < b + pages_for (f_rsi f) \<Longrightarrow> page_shows (cur_space k) (mmap_pte_flags (f_rdx f) (f_r10 f)) k1 (vaddr i 0) (\<lambda>_. 0)"
    by (rule mmap_spec [OF assms(1-5) _ assms(7)]) (erule (1) assms(6), rule that)
  have "user_load (cur_space k) (vaddr b 0 + of_nat i) k1 = Some 0 \<and> (\<exists>e. lookup k1 (cur_space k) (vaddr b 0 + of_nat i) = Some e \<and> mmap_entry f e)"
    if "i < unat (f_rsi f)" for i
  proof -
    have "i < pages_for (f_rsi f) * 4096" using that by simp
    then obtain j off where j: "b \<le> j" "j < b + pages_for (f_rsi f)" "j < 2 ^ 35" "off < 4096" "vaddr b 0 + of_nat i = vaddr j off"
      by (rule run_address [OF _ b])
    show ?thesis unfolding j(5) using user_load_zero [OF k1(4) [OF j(1,2)] j(3,4)] page_shows_entry [OF k1(4) [OF j(1,2)] j(3,4)] by simp
  qed
  then show ?thesis using k1(1-3) by (simp add: upd_proc_mem)
qed

text \<open>
  C40: A heap that shrinks and grows again loses its contents. Shrinking only lowers the break and leaves the page mapped;
  growing back starts at the lowered break and maps a fresh zeroed page over it, so whatever the process had
  stored there reads as zero (and its frame is lost).
\<close>

theorem brk_shrink_grow_loses_heap:
  fixes k :: "'a tasks_scheme"
  assumes inv: "vm_inv k R X" "cur_space k \<in> R" and s: "0 < s" "Suc s < 2 ^ 35"
    and h: "p_brk_start (proc k (current_process k)) = vaddr s 0" "p_brk (proc k (current_process k)) = vaddr (Suc s) 0"
    and ff: "4 \<le> free_frames k" and f: "f_rdi f1 = vaddr s 0" "f_rdi f2 = vaddr (Suc s) 0"
  shows "\<exists>k1 k2. sys_brk f1 k = (Sys_ret (vaddr s 0), k1) \<and> sys_brk f2 k1 = (Sys_ret (vaddr (Suc s) 0), k2) \<and>
    (\<forall>off < 4096. user_load (cur_space k) (vaddr s off) k1 = user_load (cur_space k) (vaddr s off) k \<and>
       user_load (cur_space k) (vaddr s off) k2 = Some 0)"
proof -
  let ?c = "current_process k" and ?r = "cur_space k"
  have u: "unat (vaddr s 0) = s * 4096" "unat (vaddr (Suc s) 0) = (Suc s) * 4096" using unat_vaddr [of s 0] unat_vaddr [of "Suc s" 0] s by simp_all
  have nz: "vaddr s 0 \<noteq> 0" "vaddr (Suc s) 0 \<noteq> 0" using u s(1) by auto
  have up: "page_align_up (vaddr s 0) = vaddr s 0" "page_align_up (vaddr (Suc s) 0) = vaddr (Suc s) 0" using vaddr_mask s by simp_all
  have lt: "vaddr s 0 < vaddr (Suc s) 0" using u by (simp add: word_less_nat_alt)
  have ge: "\<not> vaddr (Suc s) 0 < vaddr s 0" using lt by simp
  have d: "unat (vaddr (Suc s) 0 - vaddr s 0) div page_bytes = 1" using unat_sub [OF less_imp_le [OF lt]] u by simp
  let ?k1 = "upd_proc ?c (p_brk_update (\<lambda>_. vaddr s 0)) k"
  have b1: "sys_brk f1 k = (Sys_ret (vaddr s 0), ?k1)"
    using lt nz by (simp add: sys_brk_def Let_def f h up not_less less_imp_le)
  have i1: "vm_inv ?k1 R X" "4 \<le> free_frames ?k1" using inv(1) ff by (simp_all add: upd_proc_mem)
  obtain a m1 where a: "pmm_alloc_page ?k1 = (a, m1)" "a \<noteq> NULL" by (rule alloc_succeeds [OF i1(1)]) (use i1(2) in simp)
  let ?k2 = "vmm_map_page ?r (vaddr s 0) a heap_flags (with_frame (frame_no a) (\<lambda>_. 0) m1)"
  have "user_va (vaddr s 0)" by (rule low_user_va) (use s in \<open>simp add: vaddr_simps(2)\<close>)
  then have sh: "page_shows ?r heap_flags ?k2 (vaddr s 0) (\<lambda>_. 0)" by (rule map_over [OF i1(1) inv(2) _ a i1(2) heap_page_flags])
  let ?k3 = "upd_proc ?c (p_brk_update (\<lambda>_. vaddr (Suc s) 0)) ?k2"
  have "map_zero_pages 1 ?r (vaddr s 0) heap_flags ?k1 = (True, ?k2)" using a by (simp add: zero_page_frame)
  then have b2: "sys_brk f2 ?k1 = (Sys_ret (vaddr (Suc s) 0), ?k3)"
    using lt nz ge by (simp add: sys_brk_def Let_def f h up d)
  have "user_load ?r (vaddr s off) ?k3 = Some 0" if "off < 4096" for off
    using user_load_zero [OF sh _ that] s by (simp add: upd_proc_mem)
  then show ?thesis using b1 b2 upd_proc_mem(3) by blast
qed

definition tasks2 :: tasks where
  "tasks2 = (machine.extend demo1 (machine.more tasks0))\<lparr>current_process := 0x9000, proc := (\<lambda>_. zero_process
     \<lparr>p_cr3 := 0x1000, p_mmap_next := vaddr 2048 0, p_brk_start := vaddr 1024 0, p_brk := vaddr 1025 0\<rparr>)\<rparr>"

lemma tasks2_facts:
  "vm_inv tasks2 {0x1000} (owners_of demo0)" "free_frames tasks2 = 14" "user_va va \<Longrightarrow> lookup tasks2 0x1000 va = None"
  "current_process tasks2 = 0x9000" "cur_space tasks2 = 0x1000"
  "p_mmap_next (proc tasks2 a) = vaddr 2048 0" "p_brk_start (proc tasks2 a) = vaddr 1024 0" "p_brk (proc tasks2 a) = vaddr 1025 0" "p_cr3 (proc tasks2 a) = 0x1000"
proof -
  have t: "machine.truncate tasks2 = machine.truncate demo1"
    by (simp add: tasks2_def machine.truncate_def machine.extend_def)
  show "vm_inv tasks2 {0x1000} (owners_of demo0)" using machine_same(3) [OF t] demo1_facts(1) by simp
  show "free_frames tasks2 = 14" using pmm_same(6) [OF machine_same_pmm [OF t]] demo1_facts(3) by simp
  show "lookup tasks2 0x1000 va = None" if "user_va va"
    using demo1_facts(4) [of "vpath va"] that mem_cong(3) [OF machine_same(1) [OF t]] by (simp add: lookup_def)
  show "current_process tasks2 = 0x9000" "cur_space tasks2 = 0x1000"
    "p_mmap_next (proc tasks2 a) = vaddr 2048 0" "p_brk_start (proc tasks2 a) = vaddr 1024 0" "p_brk (proc tasks2 a) = vaddr 1025 0" "p_cr3 (proc tasks2 a) = 0x1000"
    by (simp_all add: tasks2_def)
qed

definition frame_args :: "u64 \<Rightarrow> u64 \<Rightarrow> u64 \<Rightarrow> u64 \<Rightarrow> u64 \<Rightarrow> syscall_frame" where
  "frame_args rdi rsi rdx r10 r8 = \<lparr>f_rax = 0, f_r9 = 0, f_r8 = r8, f_r10 = r10, f_rdx = rdx, f_rsi = rsi, f_rdi = rdi, f_user_rsp = 0,
     f_user_rflags = 0, f_user_rip = 0, f_r15 = 0, f_r14 = 0, f_r13 = 0, f_r12 = 0, f_rbp = 0, f_rbx = 0\<rparr>"

theorem mmap_fresh_zero_pages_witness:
  "\<exists>k'. sys_mmap (frame_args 0 100 2 0x22 (- 1)) tasks2 = (Sys_ret (vaddr 2048 0), k') \<and> user_load 0x1000 (vaddr 2048 0 + 99) k' = Some 0"
proof -
  let ?f = "frame_args 0 100 2 0x22 (- 1)"
  have f: "mmap_request ?f" "pages_for (f_rsi ?f) = 1" "unat (f_rsi ?f) = 100" by (simp_all add: mmap_request_def frame_args_def)
  have fr: "lookup tasks2 (cur_space tasks2) (vaddr i 0) = None" if "2048 \<le> i" "i < 2048 + pages_for (f_rsi ?f)" for i
    unfolding tasks2_facts(5) by (rule tasks2_facts(3) [OF low_user_va]) (use that f(2) in \<open>simp add: vaddr_simps(2)\<close>)
  obtain k' where k': "sys_mmap ?f tasks2 = (Sys_ret (vaddr 2048 0), k')" "\<forall>i < 100. user_load 0x1000 (vaddr 2048 0 + of_nat i) k' = Some 0"
    using mmap_fresh_zero_pages [OF tasks2_facts(1) _ f(1) tasks2_facts(6) _ fr] tasks2_facts(2) f(2)
    unfolding tasks2_facts(5) f(3) by auto
  show ?thesis using k'(1) k'(2) [rule_format, of 99] by simp
qed

text \<open>The same process with a page of heap, in which it has stored a 9.\<close>

definition heap_machine :: machine where
  "heap_machine = snd (user_store 0x1000 0x400007 9 demo3)"

definition tasks3 :: tasks where
  "tasks3 = (machine.extend heap_machine (machine.more tasks0))\<lparr>current_process := 0x9000, proc := (\<lambda>_. zero_process
     \<lparr>p_cr3 := 0x1000, p_mmap_next := vaddr 2048 0, p_brk_start := vaddr 1024 0, p_brk := vaddr 1025 0\<rparr>)\<rparr>"

lemma heap_machine_facts:
  "vm_inv heap_machine {0x1000} (owners_of demo0)" "10 \<le> free_frames heap_machine" "user_load 0x1000 0x400007 heap_machine = Some 9"
proof -
  have e: "lookup demo3 0x1000 0x400007 = Some 0x2007"
    using demo3_facts(5) by (simp add: lookup_def vpath_def pml4_entry_def pdpt_entry_def pd_entry_def pt_entry_def)
  have low: "low_va 0x400007" by (simp add: low_va_def)
  have w: "user_writable demo3 0x1000 0x400007" using e low by (simp add: user_writable_def has_flag_def)
  obtain m' where m': "user_store 0x1000 0x400007 9 demo3 = (True, m')" "vm_inv m' {0x1000} (owners_of demo0)"
      "\<And>r' va'. r' \<in> {0x1000} \<Longrightarrow> user_va va' \<Longrightarrow> lookup m' r' va' = lookup demo3 r' va'"
      "\<And>f off. frame_byte m' f off = (if (f, off) = user_slot demo3 0x1000 0x400007 then 9 else frame_byte demo3 f off)"
      "free_frames m' = free_frames demo3"
    by (rule store_writable [OF demo3_facts(1) insertI1 w, of 9]) blast
  have h: "heap_machine = m'" using m'(1) by (simp add: heap_machine_def)
  show "vm_inv heap_machine {0x1000} (owners_of demo0)" "10 \<le> free_frames heap_machine" using h m'(2,5) demo3_facts(3) by simp_all
  show "user_load 0x1000 0x400007 heap_machine = Some 9"
    using h m'(3) [of "0x1000" "0x400007"] m'(4) e low_canonical [OF low] low_user_va [OF low] by (simp add: user_load_def user_slot_def)
qed

lemma tasks3_facts:
  "vm_inv tasks3 {0x1000} (owners_of demo0)" "10 \<le> free_frames tasks3" "user_load 0x1000 (vaddr 1024 7) tasks3 = Some 9"
  "current_process tasks3 = 0x9000" "cur_space tasks3 = 0x1000" "p_brk_start (proc tasks3 a) = vaddr 1024 0" "p_brk (proc tasks3 a) = vaddr 1025 0" "p_cr3 (proc tasks3 a) = 0x1000"
proof -
  have t: "machine.truncate tasks3 = machine.truncate heap_machine"
    by (simp add: tasks3_def machine.truncate_def machine.extend_def)
  show "vm_inv tasks3 {0x1000} (owners_of demo0)" using machine_same(3) [OF t] heap_machine_facts(1) by simp
  show "10 \<le> free_frames tasks3" using pmm_same(6) [OF machine_same_pmm [OF t]] heap_machine_facts(2) by simp
  have v: "vaddr 1024 7 = 0x400007" by (simp add: vaddr_def)
  have "phys_mem tasks3 = phys_mem heap_machine" by (simp add: tasks3_def machine.extend_def)
  then have "user_load 0x1000 0x400007 tasks3 = user_load 0x1000 0x400007 heap_machine"
    unfolding user_load_def lookup_def frame_byte_def mem_cong(3) [OF machine_same(1) [OF t]] by (simp split: option.split)
  then show "user_load 0x1000 (vaddr 1024 7) tasks3 = Some 9" using heap_machine_facts(3) unfolding v by simp
  show "current_process tasks3 = 0x9000" "cur_space tasks3 = 0x1000" "p_brk_start (proc tasks3 a) = vaddr 1024 0" "p_brk (proc tasks3 a) = vaddr 1025 0" "p_cr3 (proc tasks3 a) = 0x1000"
    by (simp_all add: tasks3_def)
qed

theorem brk_shrink_grow_loses_heap_witness:
  "user_load 0x1000 (vaddr 1024 7) tasks3 = Some 9 \<and>
   (\<exists>k1 k2. sys_brk (frame_args (vaddr 1024 0) 0 0 0 0) tasks3 = (Sys_ret (vaddr 1024 0), k1) \<and>
     sys_brk (frame_args (vaddr 1025 0) 0 0 0 0) k1 = (Sys_ret (vaddr 1025 0), k2) \<and> user_load 0x1000 (vaddr 1024 7) k2 = Some 0)"
proof -
  let ?f1 = "frame_args (vaddr 1024 0) 0 0 0 0" and ?f2 = "frame_args (vaddr 1025 0) 0 0 0 0"
  have ff: "4 \<le> free_frames tasks3" using tasks3_facts(2) by simp
  have "\<exists>k1 k2. sys_brk ?f1 tasks3 = (Sys_ret (vaddr 1024 0), k1) \<and> sys_brk ?f2 k1 = (Sys_ret (vaddr (Suc 1024) 0), k2) \<and>
      (\<forall>off < 4096. user_load (cur_space tasks3) (vaddr 1024 off) k1 = user_load (cur_space tasks3) (vaddr 1024 off) tasks3 \<and>
         user_load (cur_space tasks3) (vaddr 1024 off) k2 = Some 0)"
    by (rule brk_shrink_grow_loses_heap [OF tasks3_facts(1)]) (simp_all add: tasks3_facts ff frame_args_def)
  then show ?thesis using tasks3_facts(3) by (force simp: tasks3_facts(5))
qed

end
