(* ===== verification/Spec2Isabelle.thy ===== *)
theory Spec2Isabelle
  imports Vmm_Props Slab_Props Sched_Props Mem_String Input Descriptors Vfs Proc_Switch Fd_Types Tty Mmap
begin

text \<open>
  This library verifies the Aeryk operating system: an x86-64 kernel in C (\<^verbatim>\<open>src/kernel/src/arch/x86_64\<close>) with its heap in
  Rust (\<^verbatim>\<open>src/crates/kernel/src/slab.rs\<close>), and parts of the C library its programs use (\<^verbatim>\<open>src/libc\<close>). The sources are translated into
  executable definitions with the names of the source; the theorems are about those definitions.

  \<^bold>\<open>The parts of the program and how they interact.\<close> Physical memory is handed out page by page (\<^verbatim>\<open>pmm.c\<close>). Page tables are
  built from such pages, give each process its address space and share pages copy-on-write (\<^verbatim>\<open>vmm.c\<close>). The kernel heap
  (\<^verbatim>\<open>slab.rs\<close>) carves pages into chunks for processes, pipes and file nodes. Processes (\<^verbatim>\<open>process.c\<close>) live on a ring and on
  the ready queues of a multi-level feedback scheduler (\<^verbatim>\<open>scheduler.c\<close>) or on wait queues; \<^verbatim>\<open>switch.asm\<close> changes stacks. Pipes
  (\<^verbatim>\<open>pipe.c\<close>), the keyboard and the mouse (\<^verbatim>\<open>drivers/\<close>) have ring buffers with waiters. Files are nodes of a tree filled from an
  archive (\<^verbatim>\<open>fs/vfs.c\<close>, \<^verbatim>\<open>fs/initramfs.c\<close>); executables are loaded from it (\<^verbatim>\<open>elf.c\<close>). System calls (\<^verbatim>\<open>syscall.c\<close>) tie these
  together and move data with \<^verbatim>\<open>usercopy.c\<close>; interrupts enter through \<^verbatim>\<open>idt.c\<close> and drive the timer tick (\<^verbatim>\<open>timer.c\<close>).
  Descriptor tables and system-call registers are set up by \<^verbatim>\<open>gdt.c\<close>, \<^verbatim>\<open>idt.c\<close> and \<^verbatim>\<open>syscall.c\<close>. Text goes to \<^verbatim>\<open>tty.c\<close> and \<^verbatim>\<open>serial.c\<close>.

  \<^bold>\<open>State and results.\<close> The state is one record that grows with the layers, so every operation works in the states of all
  later layers: \<open>pmm\<close> (bitmap, counts), \<open>machine\<close> (physical memory as frames of 64-bit words, the kernel's root table),
  \<open>kheap\<close> (caches, slab headers and chunk links by address), \<open>tasks\<close> (processes by address, ready queues, current and
  idle process), \<open>ipc\<close> (pipes), \<open>input\<close> (keyboard, mouse, echoed text), \<open>vfs\<close> (nodes, root, the archive's bytes), \<open>kern\<close>
  (ring of processes, counters, processor registers, interrupt handlers) and \<open>sys\<close> (framebuffer). Pointers are 64-bit words, 0
  is the null pointer, and the constant offset of the kernel's direct map is dropped. Machine integers are words of
  the width of the source, C's \<^verbatim>\<open>int\<close> counts of pipes and \<^verbatim>\<open>int16_t\<close> movements included; indices into arrays and tables, which
  never leave them, are natural numbers. Errors are values: \<open>option\<close>, Boolean results, and \<open>sys_end\<close> for the end of a system call (return value, block,
  a new program, exit, kernel panic). Loops over linked structures that need an argument to end are
  \<open>partial_function (option)\<close>, and the theorems prove that they end; a call that blocks is modelled up to the point where it
  calls the scheduler and says how far it got. The kernel runs on one processor with interrupts masked in the
  operations modelled, so each is one step.

  \<^bold>\<open>Theories.\<close>
  \<^item> \<open>Aeryk_Prelude\<close>: integer types, named collections, lemmas on words and searches. \<open>Links\<close>: chains, doubly linked queues and
    rings over pointer functions, as every linked structure of the kernel uses them. \<open>Ring_Buffer\<close>: the locale of a ring buffer,
    interpreted by the pipe, the keyboard and the mouse.
  \<^item> \<open>Pmm\<close> (\<^verbatim>\<open>pmm.c\<close>): allocation, reference counts, boot. The locale of a frame allocator is interpreted by the model and is what
    the page tables rely on. Boot establishes the invariant; the bitmap's size and the 16-bit counts have defects that are proved.
  \<^item> \<open>Vmm\<close>, \<open>Vmm_Ops\<close>, \<open>Vmm_Space\<close>, \<open>Vmm_Clone\<close>, \<open>Vmm_Destroy\<close>, \<open>Vmm_Frame\<close>, \<open>Vmm_Props\<close> (\<^verbatim>\<open>vmm.c\<close>): four-level tables, an
    invariant that accounts for every owner of every frame, and map, unmap, copy, copy-on-write fault and teardown against the
    processor's view of an address space; isolation of private writable pages; the references a copy loses when memory runs out.
  \<^item> \<open>User_Mem\<close> (\<^verbatim>\<open>usercopy.c\<close>): bytes of user memory, copies in and out. \<open>User_Page\<close>, \<open>Vpages\<close>: mapping fresh pages, pages by number.
  \<^item> \<open>Slab\<close>, \<open>Slab_Props\<close> (\<^verbatim>\<open>slab.rs\<close>): kmalloc and kfree against a set of disjoint blocks, with exact page accounting;
    blocks stay disjoint over any sequence of calls (\<open>heap_use\<close>), and what a double free does.
  \<^item> \<open>Kernel_State\<close> (\<^verbatim>\<open>process.h\<close>), \<open>Scheduler\<close> (\<^verbatim>\<open>scheduler.c\<close>, wait queues), \<open>Pipe\<close> (\<^verbatim>\<open>pipe.c\<close>), \<open>Sched_Props\<close>: queues as lists, the choice
    of the next process, the boost, bytes in flight in a pipe over any interleaving, waking on close.
  \<^item> \<open>Input\<close> (\<^verbatim>\<open>keyboard.c\<close>, \<^verbatim>\<open>mouse.c\<close>): the line discipline as a refinement, decoding of mouse packets. \<open>Descriptors\<close> (\<^verbatim>\<open>gdt.c\<close>, \<^verbatim>\<open>idt.c\<close>,
    set-up of \<^verbatim>\<open>syscall.c\<close>). \<open>Vfs\<close> (\<^verbatim>\<open>vfs.c\<close>, \<^verbatim>\<open>initramfs.c\<close>): the tree and path lookup. \<open>Elf\<close>, \<open>Elf_Props\<close> (\<^verbatim>\<open>elf.c\<close>): what a loaded program sees.
  \<^item> \<open>Mem_String\<close> (\<^verbatim>\<open>string.c\<close> of the kernel and of the C library): word-wise copies equal byte-wise ones.
  \<^item> \<open>Process\<close>, \<open>Lifecycle\<close> (\<^verbatim>\<open>process.c\<close>, \<^verbatim>\<open>switch.asm\<close>, \<^verbatim>\<open>timer.c\<close>, \<^verbatim>\<open>idt.c\<close>): creation, exec, fork, clone, exit, reaping, schedule, the
    tick, interrupts. \<open>Proc_Sched\<close>: what schedule does to ring and queues. \<open>Proc_Switch\<close>: saved contexts.
  \<^item> \<open>Syscall\<close> (\<^verbatim>\<open>syscall.c\<close>): every call and the dispatcher. \<open>Fd_Table\<close>: reference counts of pipes over any sequence of descriptor
    operations, as an inductive step relation. \<open>Fd_Types\<close>: tags of descriptors agree with their pointers. \<open>Mmap\<close>: mappings and heap.
  \<^item> \<open>Tty\<close> (\<^verbatim>\<open>tty.c\<close>, \<^verbatim>\<open>serial.c\<close>): the console refines a scrolling terminal; the other theories log what they
    print in \<open>echo\<close>, and \<open>console_of\<close> is the console that shows this log.

  \<^bold>\<open>Bounds.\<close> Loops are structural, have a measure, or are partial functions with a proof that they end. The one exception is
  \<open>carve\<close>, which cuts a page into chunks and has fuel for 256 rounds: a page holds at most 252 chunks, so it never runs out.
  The page-table proofs assume at most \<open>2 ^ 40\<close> frames, what an entry can name, and index the user half by the first 256 entries
  of a root (\<open>user_va\<close>), whatever bits 48 to 63 of an address are. An access by a process or by a user copy checks those
  bits first: a non-canonical address faults (\<open>canonical\<close>), and the user half is what lies below \<open>2 ^ 47\<close> (\<open>low_va\<close>). The counts of a
  pipe are exact while there are fewer than \<open>2 ^ 26\<close> processes (\<open>few_processes\<close>), so that 32 bits suffice. Mapping a page needs up to four frames, so runs of \<open>n\<close> pages ask for \<open>4 * n\<close> free ones.

  \<^bold>\<open>Not modelled.\<close> Device and processor set-up that is only port, register or memory-mapped accesses (\<^verbatim>\<open>apic.c\<close>, the calibration in
  \<^verbatim>\<open>timer.c\<close>, controller set-up of the drivers, \<^verbatim>\<open>init_serial\<close>, \<^verbatim>\<open>utils.c\<close>); the assembly stubs that save and restore registers around
  C code (\<^verbatim>\<open>idt.asm\<close>, \<^verbatim>\<open>syscall_entry.asm\<close>, \<^verbatim>\<open>resume_usermode.asm\<close>, \<^verbatim>\<open>usercopy_ctx.asm\<close>, \<^verbatim>\<open>gdt_flush.asm\<close>, \<^verbatim>\<open>crt0.asm\<close>), whose effect is in the
  trap frame and in the fault behaviour of \<open>User_Mem\<close>; \<^verbatim>\<open>main.c\<close>, which calls the initialisers in order; translation caches and their
  flushes; diagnostics on a panic. What runs in user mode is not modelled either: the C library beyond its memory routines
  (\<^verbatim>\<open>stdio\<close>, \<^verbatim>\<open>malloc.c\<close>, the system-call wrappers of \<^verbatim>\<open>unistd.c\<close>), the programs of \<^verbatim>\<open>src/userland\<close> and the compositor with its clients
  (\<^verbatim>\<open>src/crates/userland\<close>) are clients of the system calls, whose kernel side is modelled; nor are the host tests. The boot loader's memory map, the archive and the font are data outside the sources.
\<close>

end
